(* ===== verification/Trace_Prelude.thy ===== *)
theory Trace_Prelude
  imports "HOL-Library.Word" "HOL-Library.Char_ord"
begin

text \<open>
  Shared vocabulary of the development.  A byte buffer \<open>(const char *s, size_t len)\<close> of the C++
  code is a \<^typ>\<open>string\<close> of exactly \<open>len\<close> bytes; a pointer that may be \<open>NULL\<close> is an option.
  The C++ \<open>char\<close> comparisons of the sources are all against ASCII bounds, so the order of
  \<^typ>\<open>char\<close> (by byte value) decides them as the compiler does.  \<open>unsigned\<close> is a 32 bit word,
  \<open>unsigned long\<close> and \<open>unsigned long long\<close> are 64 bit words (the LP64 targets of the plugin).

  The theory holds the type names, the lemma collections, the character classes the scanners
  share, the big bitwise union of a list of masks, the splitting and joining of lists at a
  separator, and decimal printing.
\<close>

unbundle bit_operations_syntax

type_synonym u32 = "32 word"
type_synonym u64 = "64 word"

named_theorems char_class \<open>definitions of the byte classes and of case folding\<close>
named_theorems cmd_bits \<open>the numeric values of the command bits\<close>
named_theorems scan_len \<open>a scanner never returns more input than it was given\<close>

section \<open>Bytes\<close>

definition is_digit :: "char \<Rightarrow> bool" where
  [char_class]: "is_digit c \<longleftrightarrow> CHR ''0'' \<le> c \<and> c \<le> CHR ''9''"

definition is_lower :: "char \<Rightarrow> bool" where
  [char_class]: "is_lower c \<longleftrightarrow> CHR ''a'' \<le> c \<and> c \<le> CHR ''z''"

definition is_upper :: "char \<Rightarrow> bool" where
  [char_class]: "is_upper c \<longleftrightarrow> CHR ''A'' \<le> c \<and> c \<le> CHR ''Z''"

text \<open>A byte moved by a fixed distance, as in \<open>(char) (c - 'A' + 'a')\<close>.\<close>

definition shift_char :: "char \<Rightarrow> char \<Rightarrow> char \<Rightarrow> char" where
  [char_class]: "shift_char c from to = char_of (of_char c - of_char from + of_char to :: nat)"

lemma of_char_less: "(of_char c :: nat) < 256"
  using nat_of_char_less_256 by simp

lemma of_char_shift:
  "(of_char from :: nat) \<le> of_char c \<Longrightarrow> (of_char c :: nat) - of_char from + of_char to < 256 \<Longrightarrow>
   (of_char (shift_char c from to) :: nat) = of_char c - of_char from + of_char to"
  by (simp add: shift_char_def)

lemmas char_order = less_eq_char_def less_char_def

text \<open>Equality of bytes is equality of their values; closes goals about all 256 bytes.\<close>

lemma char_eq_value: "c = d \<longleftrightarrow> (of_char c :: nat) = of_char d"
  by simp

section \<open>Unions of masks\<close>

definition or_list :: "'a::len word list \<Rightarrow> 'a word" where
  "or_list ms = foldr (OR) ms 0"

lemma or_list_simps [simp]:
  "or_list [] = 0"
  "or_list (m # ms) = m OR or_list ms"
  by (simp_all add: or_list_def)

lemma or_list_append [simp]: "or_list (ms @ ns) = or_list ms OR or_list ns"
  by (induction ms) (simp_all add: or.assoc)

lemma or_list_eq_0_iff: "or_list ms = 0 \<longleftrightarrow> (\<forall>m \<in> set ms. m = 0)"
  by (induction ms) (simp_all add: or_eq_0_iff)

lemma bit_or_list: "bit (or_list ms) n \<longleftrightarrow> (\<exists>m \<in> set ms. bit m n)"
  by (induction ms) (auto simp: bit_or_iff)

lemma fold_or: "fold (\<lambda>m a. a OR m) ms a = a OR or_list ms"
  by (induction ms arbitrary: a) (simp_all add: or.assoc)

section \<open>Splitting and joining\<close>

fun split_on :: "'a \<Rightarrow> 'a list \<Rightarrow> 'a list list" where
  "split_on d [] = [[]]"
| "split_on d (x # xs) =
     (if x = d then [] # split_on d xs
      else (case split_on d xs of [] \<Rightarrow> [[x]] | y # ys \<Rightarrow> (x # y) # ys))"

fun join_with :: "'a \<Rightarrow> 'a list list \<Rightarrow> 'a list" where
  "join_with d [] = []"
| "join_with d [x] = x"
| "join_with d (x # y # ys) = x @ d # join_with d (y # ys)"

lemma split_on_not_Nil [simp]: "split_on d xs \<noteq> []"
  by (induction xs) (auto split: list.splits)

lemma split_on_no_sep: "d \<notin> set xs \<Longrightarrow> split_on d xs = [xs]"
  by (induction xs) auto

lemma split_on_append_sep: "d \<notin> set xs \<Longrightarrow> split_on d (xs @ d # ys) = xs # split_on d ys"
  by (induction xs) auto

lemma split_on_join_with:
  "xss \<noteq> [] \<Longrightarrow> (\<And>xs. xs \<in> set xss \<Longrightarrow> d \<notin> set xs) \<Longrightarrow> split_on d (join_with d xss) = xss"
  by (induction d xss rule: join_with.induct) (simp_all add: split_on_no_sep split_on_append_sep)

lemma split_on_elems: "xs \<in> set (split_on d ys) \<Longrightarrow> d \<notin> set xs \<and> set xs \<subseteq> set ys"
  by (induction ys arbitrary: xs) (fastforce split: if_splits list.splits)+

lemma join_with_Cons: "xss \<noteq> [] \<Longrightarrow> join_with d (xs # xss) = xs @ d # join_with d xss"
  by (cases xss) simp_all

lemma join_with_push: "join_with d ((x # xs) # xss) = x # join_with d (xs # xss)"
  by (cases xss) simp_all

lemma join_with_split_on [simp]: "join_with d (split_on d xs) = xs"
  by (induction xs) (auto simp: join_with_Cons join_with_push split: list.splits)

lemma set_join_with: "c \<in> set (join_with d xss) \<Longrightarrow> c = d \<or> (\<exists>xs \<in> set xss. c \<in> set xs)"
  by (induction d xss rule: join_with.induct) auto

lemma join_with_snoc: "xss \<noteq> [] \<Longrightarrow> join_with d (xss @ [xs]) = join_with d xss @ d # xs"
  by (induction d xss rule: join_with.induct) simp_all

section \<open>Scanners\<close>

lemma length_dropWhile_lt [scan_len]: "s \<noteq> [] \<Longrightarrow> P (hd s) \<Longrightarrow> length (dropWhile P s) < length s"
  by (cases s) (auto simp: le_imp_less_Suc length_dropWhile_le)

lemmas length_dropWhile_le [scan_len]

lemma takeWhile_sep: "d \<notin> set xs \<Longrightarrow> takeWhile (\<lambda>c. c \<noteq> d) (xs @ d # ys) = xs"
  and dropWhile_sep: "d \<notin> set xs \<Longrightarrow> dropWhile (\<lambda>c. c \<noteq> d) (xs @ d # ys) = d # ys"
  by (induction xs) auto

lemma length_dropWhile_Cons: "dropWhile P s = x # r \<Longrightarrow> length r < length s"
  using length_dropWhile_le [of P s] by simp

lemma takeWhile_split_on: "split_on d s = takeWhile (\<lambda>c. c \<noteq> d) s #
    (case dropWhile (\<lambda>c. c \<noteq> d) s of [] \<Rightarrow> [] | _ # r \<Rightarrow> split_on d r)"
  by (induction s) (auto split: list.splits)

lemma dropWhile_eq_append: "(\<And>x. x \<in> set xs \<Longrightarrow> P x) \<Longrightarrow> dropWhile P (xs @ ys) = dropWhile P ys"
  by (simp add: dropWhile_append2)

section \<open>Decimal numbers\<close>

text \<open>\<open>%lu\<close> and \<open>%llu\<close>: the decimal digits of a number, most significant first.\<close>

fun dec_of_nat :: "nat \<Rightarrow> string" where
  "dec_of_nat n = (if n < 10 then [char_of (48 + n)] else dec_of_nat (n div 10) @ [char_of (48 + n mod 10)])"

declare dec_of_nat.simps [simp del]

text \<open>The value of a digit and of a digit string (\<open>v * 10 + (c - '0')\<close>).\<close>

definition digit_val :: "char \<Rightarrow> nat" where
  "digit_val c = of_char c - of_char CHR ''0''"

definition dec_val :: "string \<Rightarrow> nat" where
  "dec_val s = foldl (\<lambda>v c. v * 10 + digit_val c) 0 s"

lemma is_digit_char_of: "d < 10 \<Longrightarrow> is_digit (char_of (48 + d :: nat))"
  by (simp add: is_digit_def char_order)

lemma digit_val_char_of: "d < 10 \<Longrightarrow> digit_val (char_of (48 + d :: nat)) = d"
  by (simp add: digit_val_def)

lemma dec_of_nat_digits: "c \<in> set (dec_of_nat n) \<Longrightarrow> is_digit c"
proof (induction n rule: dec_of_nat.induct)
  case (1 n)
  then show ?case
    by (subst (asm) (2) dec_of_nat.simps) (auto simp: is_digit_char_of split: if_splits)
qed

lemma dec_of_nat_not_Nil [simp]: "dec_of_nat n \<noteq> []"
  by (subst dec_of_nat.simps) simp

lemma dec_val_snoc: "dec_val (s @ [c]) = dec_val s * 10 + digit_val c"
  by (simp add: dec_val_def)

lemma dec_val_of_nat [simp]: "dec_val (dec_of_nat n) = n"
proof (induction n rule: dec_of_nat.induct)
  case (1 n)
  show ?case
  proof (cases "n < 10")
    case True
    then show ?thesis by (subst dec_of_nat.simps) (simp add: dec_val_def digit_val_char_of)
  next
    case False
    with 1 show ?thesis by (subst dec_of_nat.simps) (simp add: dec_val_snoc digit_val_char_of)
  qed
qed

end
