(* ===== verification/Command_Bits.thy ===== *)
theory Command_Bits
  imports Trace_Prelude
begin

text \<open>
  The command classes of \<open>core/filter_engine.h\<close> (enum \<open>CommandBits\<close>) and the two keyword tables
  of \<open>core/filter_engine.cc\<close>: the qualifier tokens an operator writes after \<open>:\<close>
  (\<open>parse_cmd_qualifier\<close>) and the SQL keywords a statement starts with (\<open>command_bit\<close>).
\<close>

definition CMD_SELECT :: u32 where [cmd_bits]: "CMD_SELECT = push_bit 0 1"
definition CMD_INSERT :: u32 where [cmd_bits]: "CMD_INSERT = push_bit 1 1"
definition CMD_UPDATE :: u32 where [cmd_bits]: "CMD_UPDATE = push_bit 2 1"
definition CMD_DELETE :: u32 where [cmd_bits]: "CMD_DELETE = push_bit 3 1"
definition CMD_REPLACE :: u32 where [cmd_bits]: "CMD_REPLACE = push_bit 4 1"
definition CMD_LOAD :: u32 where [cmd_bits]: "CMD_LOAD = push_bit 5 1"
definition CMD_CALL :: u32 where [cmd_bits]: "CMD_CALL = push_bit 6 1"
definition CMD_CREATE :: u32 where [cmd_bits]: "CMD_CREATE = push_bit 7 1"
definition CMD_ALTER :: u32 where [cmd_bits]: "CMD_ALTER = push_bit 8 1"
definition CMD_DROP :: u32 where [cmd_bits]: "CMD_DROP = push_bit 9 1"
definition CMD_TRUNCATE :: u32 where [cmd_bits]: "CMD_TRUNCATE = push_bit 10 1"
definition CMD_RENAME :: u32 where [cmd_bits]: "CMD_RENAME = push_bit 11 1"
definition CMD_OTHER :: u32 where [cmd_bits]: "CMD_OTHER = push_bit 12 1"
definition CMD_COMMIT :: u32 where [cmd_bits]: "CMD_COMMIT = push_bit 13 1"
definition CMD_ROLLBACK :: u32 where [cmd_bits]: "CMD_ROLLBACK = push_bit 14 1"
definition CMD_BEGIN :: u32 where [cmd_bits]: "CMD_BEGIN = push_bit 15 1"
definition CMD_SAVEPOINT :: u32 where [cmd_bits]: "CMD_SAVEPOINT = push_bit 16 1"

definition CMD_DML :: u32 where
  [cmd_bits]: "CMD_DML = CMD_INSERT OR CMD_UPDATE OR CMD_DELETE OR CMD_REPLACE OR CMD_LOAD"

definition CMD_DDL :: u32 where
  [cmd_bits]: "CMD_DDL = CMD_CREATE OR CMD_ALTER OR CMD_DROP OR CMD_TRUNCATE OR CMD_RENAME"

definition CMD_TCL :: u32 where
  [cmd_bits]: "CMD_TCL = CMD_COMMIT OR CMD_ROLLBACK OR CMD_BEGIN OR CMD_SAVEPOINT"

definition CMD_ALL :: u32 where [cmd_bits]: "CMD_ALL = 0xFFFFFFFF"

text \<open>The static table \<open>cmd_tokens\<close> inside \<open>parse_cmd_qualifier\<close>.\<close>

definition cmd_tokens :: "(string \<times> u32) list" where
  "cmd_tokens =
    [(''select'', CMD_SELECT), (''insert'', CMD_INSERT),
     (''update'', CMD_UPDATE), (''delete'', CMD_DELETE),
     (''replace'', CMD_REPLACE), (''load'', CMD_LOAD),
     (''call'', CMD_CALL), (''create'', CMD_CREATE),
     (''alter'', CMD_ALTER), (''drop'', CMD_DROP),
     (''truncate'', CMD_TRUNCATE), (''rename'', CMD_RENAME),
     (''other'', CMD_OTHER),
     (''commit'', CMD_COMMIT), (''rollback'', CMD_ROLLBACK),
     (''begin'', CMD_BEGIN), (''savepoint'', CMD_SAVEPOINT),
     (''dml'', CMD_DML), (''ddl'', CMD_DDL),
     (''tcl'', CMD_TCL), (''all'', CMD_ALL)]"

text \<open>The static table \<open>keywords\<close> inside \<open>command_bit\<close>, and the lookup in it.\<close>

definition cmd_keywords :: "(string \<times> u32) list" where
  "cmd_keywords =
    [(''SELECT'', CMD_SELECT), (''WITH'', CMD_SELECT),
     (''INSERT'', CMD_INSERT), (''UPDATE'', CMD_UPDATE),
     (''DELETE'', CMD_DELETE), (''REPLACE'', CMD_REPLACE),
     (''LOAD'', CMD_LOAD), (''CALL'', CMD_CALL),
     (''CREATE'', CMD_CREATE), (''ALTER'', CMD_ALTER),
     (''DROP'', CMD_DROP), (''TRUNCATE'', CMD_TRUNCATE),
     (''RENAME'', CMD_RENAME),
     (''COMMIT'', CMD_COMMIT), (''ROLLBACK'', CMD_ROLLBACK),
     (''BEGIN'', CMD_BEGIN), (''SAVEPOINT'', CMD_SAVEPOINT)]"

definition command_bit :: "string \<Rightarrow> u32" where
  "command_bit cmd = (case map_of cmd_keywords cmd of Some b \<Rightarrow> b | None \<Rightarrow> CMD_OTHER)"

section \<open>What the tables guarantee\<close>

lemma cmd_tokens_nonzero: "map_of cmd_tokens tok = Some m \<Longrightarrow> m \<noteq> 0"
proof -
  assume "map_of cmd_tokens tok = Some m"
  then have "m \<in> snd ` set cmd_tokens" by (force dest: map_of_SomeD)
  moreover have "0 \<notin> snd ` set cmd_tokens" by (simp add: cmd_tokens_def cmd_bits)
  ultimately show ?thesis by auto
qed

text \<open>Every statement keyword maps to exactly one bit.\<close>

definition single_command_bits :: "u32 list" where
  "single_command_bits = map (\<lambda>i. push_bit i 1) [0..<17]"

lemma keyword_bits_single: "CMD_OTHER \<in> set single_command_bits"
  "list_all (\<lambda>(kw, b). b \<in> set single_command_bits) cmd_keywords"
  by code_simp+

lemma command_bit_single: "command_bit cmd \<in> set single_command_bits"
  using keyword_bits_single
  by (auto simp: command_bit_def list_all_iff split: option.split dest!: map_of_SomeD)

lemma command_bit_exp: "\<exists>i < 17. command_bit cmd = push_bit i 1"
  using command_bit_single [of cmd] by (auto simp: single_command_bits_def)

lemma single_bits_nonzero: "0 \<notin> set single_command_bits"
  by code_simp

lemma command_bit_nonzero: "command_bit cmd \<noteq> 0"
  using command_bit_single [of cmd] single_bits_nonzero by metis

lemma CMD_ALL_minus_one: "CMD_ALL = - 1"
  by (simp add: CMD_ALL_def)

lemma CMD_ALL_and [simp]: "CMD_ALL AND m = m" "m AND CMD_ALL = m"
  by (simp_all add: CMD_ALL_minus_one)

end
