(* ===== verification/Filter_Rules.thy ===== *)
theory Filter_Rules
  imports Command_Bits
begin

text \<open>
  The rule store of \<open>core/filter_engine.cc\<close>: \<open>FilterEntry\<close> and \<open>FilterRules\<close>, the case-folding
  comparisons \<open>ci_eq\<close> and \<open>ci_eq_qualified\<close>, the duplicate-merging insertion \<open>add_entry\<close>, and the
  matchers \<open>match_connection\<close>, \<open>match_schema\<close> and \<open>match_table\<close>.

  The locale \<open>mask_store\<close> is the contract the matchers rely on: what a lookup returns after an
  insertion.  It is interpreted twice on \<open>add_entry\<close>, for lookups by schema and by schema and
  table.
\<close>

section \<open>Data\<close>

record FilterEntry =
  fe_name :: string
  fe_cmds :: u32

record FilterRules =
  schemas :: "FilterEntry list"
  wildcard_schemas :: "FilterEntry list"
  tables :: "FilterEntry list"
  connections :: "u64 list"

definition empty_rules :: FilterRules where
  "empty_rules = \<lparr>schemas = [], wildcard_schemas = [], tables = [], connections = []\<rparr>"

definition rules_empty :: "FilterRules \<Rightarrow> bool" where
  "rules_empty r \<longleftrightarrow> schemas r = [] \<and> wildcard_schemas r = [] \<and> tables r = [] \<and> connections r = []"

section \<open>Case folding and comparison\<close>

definition ascii_lower :: "char \<Rightarrow> char" where
  "ascii_lower c = (if CHR ''A'' \<le> c \<and> c \<le> CHR ''Z'' then shift_char c CHR ''A'' CHR ''a'' else c)"

definition is_space :: "char \<Rightarrow> bool" where
  "is_space c \<longleftrightarrow> c = CHR '' '' \<or> c = CHR 0x09 \<or> c = CHR 0x0D \<or> c = CHR 0x0A"

definition ci_eq :: "string \<Rightarrow> string \<Rightarrow> bool" where
  "ci_eq entry s \<longleftrightarrow>
     length entry = length s \<and> list_all (\<lambda>(e, c). e = ascii_lower c) (zip entry s)"

definition ci_eq_qualified :: "string \<Rightarrow> string \<Rightarrow> string \<Rightarrow> bool" where
  "ci_eq_qualified entry db table \<longleftrightarrow>
     length entry = length db + 1 + length table \<and>
     list_all (\<lambda>(e, c). e = ascii_lower c) (zip entry db) \<and>
     entry ! length db = CHR ''.'' \<and>
     list_all (\<lambda>(e, c). e = ascii_lower c) (zip (drop (length db + 1) entry) table)"

section \<open>Insertion\<close>

fun find_entry :: "FilterEntry list \<Rightarrow> string \<Rightarrow> nat option" where
  "find_entry [] s = None"
| "find_entry (e # es) s = (if ci_eq (fe_name e) s then Some 0 else map_option Suc (find_entry es s))"

definition add_entry :: "FilterEntry list \<Rightarrow> string \<Rightarrow> u32 \<Rightarrow> FilterEntry list" where
  "add_entry list n c =
     (case find_entry list n of
        Some i \<Rightarrow> list[i := (list ! i)\<lparr>fe_cmds := fe_cmds (list ! i) OR c\<rparr>]
      | None \<Rightarrow> list @ [\<lparr>fe_name = n, fe_cmds = c\<rparr>])"

section \<open>Matching\<close>

text \<open>\<open>std::lower_bound\<close> and \<open>std::binary_search\<close> over the sorted connection ids.\<close>

fun lower_bound :: "'a::linorder list \<Rightarrow> 'a \<Rightarrow> nat \<Rightarrow> nat \<Rightarrow> nat" where
  "lower_bound xs v first len =
     (if len > 0 then
        let half = len div 2; middle = first + half in
        if xs ! middle < v then lower_bound xs v (middle + 1) (len - half - 1)
        else lower_bound xs v first half
      else first)"

declare lower_bound.simps [simp del]

definition binary_search :: "'a::linorder list \<Rightarrow> 'a \<Rightarrow> bool" where
  "binary_search xs v =
     (let i = lower_bound xs v 0 (length xs) in i < length xs \<and> \<not> v < xs ! i)"

definition match_connection :: "FilterRules \<Rightarrow> u64 \<Rightarrow> bool" where
  "match_connection rules conn_id = binary_search (connections rules) conn_id"

text \<open>One of the accumulation loops of the matchers: \<open>if (hit(e.name)) cmds|= e.cmds\<close>.\<close>

definition or_matching :: "(string \<Rightarrow> bool) \<Rightarrow> FilterEntry list \<Rightarrow> u32 \<Rightarrow> u32" where
  "or_matching hit es cmds = fold (\<lambda>e a. if hit (fe_name e) then a OR fe_cmds e else a) es cmds"

definition match_schema :: "FilterRules \<Rightarrow> string option \<Rightarrow> u32" where
  "match_schema rules db =
     (case db of
        None \<Rightarrow> 0
      | Some d \<Rightarrow>
          if d = [] then 0
          else or_matching (\<lambda>n. ci_eq n d) (wildcard_schemas rules)
                 (or_matching (\<lambda>n. ci_eq n d) (schemas rules) 0))"

definition match_table :: "FilterRules \<Rightarrow> string option \<Rightarrow> string option \<Rightarrow> u32" where
  "match_table rules db table =
     (case (db, table) of
        (Some d, Some t) \<Rightarrow>
          if d = [] \<or> t = [] then 0
          else or_matching (\<lambda>n. ci_eq_qualified n d t) (tables rules)
                 (or_matching (\<lambda>n. ci_eq n d) (wildcard_schemas rules) 0)
      | _ \<Rightarrow> 0)"

section \<open>Folding lemmas\<close>

abbreviation fold_case :: "string \<Rightarrow> string" where
  "fold_case s \<equiv> map ascii_lower s"

lemma ascii_lower_value:
  "(of_char (ascii_lower c) :: nat) =
     (if 65 \<le> (of_char c :: nat) \<and> (of_char c :: nat) \<le> 90 then of_char c + 32 else of_char c)"
  by (simp add: ascii_lower_def char_order shift_char_def of_char_less)

lemma ascii_lower_idem [simp]: "ascii_lower (ascii_lower c) = ascii_lower c"
  unfolding char_eq_value ascii_lower_value by simp

lemma fold_case_idem [simp]: "fold_case (fold_case s) = fold_case s"
  by simp

lemma ascii_lower_eq_fixed:
  "d \<in> {CHR ''.'', CHR '','', CHR '':'', CHR 0x60, CHR ''*'', CHR ''|''} \<Longrightarrow> ascii_lower c = d \<longleftrightarrow> c = d"
  unfolding char_eq_value ascii_lower_value by auto

lemma list_all_zip_map:
  "length e = length s \<Longrightarrow> list_all (\<lambda>(x, y). x = f y) (zip e s) \<longleftrightarrow> e = map f s"
  by (induction e s rule: list_induct2) auto

lemma ci_eq_iff: "ci_eq entry s \<longleftrightarrow> entry = fold_case s"
  by (auto simp: ci_eq_def list_all_zip_map)

lemma zip_append_shorter: "length ys = length xs \<Longrightarrow> zip (xs @ zs) ys = zip xs ys"
  by (simp add: zip_append1)

lemma ci_eq_qualified_iff:
  "ci_eq_qualified entry db table \<longleftrightarrow> entry = fold_case db @ CHR ''.'' # fold_case table"
proof
  assume q: "ci_eq_qualified entry db table"
  define e1 e2 where "e1 = take (length db) entry" and "e2 = drop (length db + 1) entry"
  have len: "length entry = length db + 1 + length table" and dot: "entry ! length db = CHR ''.''"
    using q by (auto simp: ci_eq_qualified_def)
  then have split: "entry = e1 @ CHR ''.'' # e2"
    by (metis e1_def e2_def Suc_eq_plus1 id_take_nth_drop less_add_Suc1 add_Suc_right add.right_neutral
        add_Suc)
  have l1: "length e1 = length db" and l2: "length e2 = length table"
    using len by (simp_all add: e1_def e2_def)
  have "e1 = fold_case db"
    using q l1 by (simp add: ci_eq_qualified_def split zip_append_shorter list_all_zip_map)
  moreover have "e2 = fold_case table"
    using q l1 l2 by (simp add: ci_eq_qualified_def split list_all_zip_map)
  ultimately show "entry = fold_case db @ CHR ''.'' # fold_case table"
    using split by simp
next
  assume "entry = fold_case db @ CHR ''.'' # fold_case table"
  then show "ci_eq_qualified entry db table"
    by (simp add: ci_eq_qualified_def zip_append_shorter list_all_zip_map nth_append)
qed

lemma ci_eq_refl: "fold_case n = n \<Longrightarrow> ci_eq n n"
  by (simp add: ci_eq_iff)

section \<open>Lookup after insertion\<close>

lemma find_entry_Some:
  "find_entry es s = Some i \<Longrightarrow> i < length es \<and> fe_name (es ! i) = fold_case s"
  by (induction es arbitrary: i) (auto simp: ci_eq_iff split: if_splits)

lemma find_entry_None: "find_entry es s = None \<longleftrightarrow> fold_case s \<notin> fe_name ` set es"
  by (induction es) (auto simp: ci_eq_iff)

lemma or_matching_eq: "or_matching hit es a = a OR or_list (map fe_cmds (filter (hit \<circ> fe_name) es))"
  by (induction es arbitrary: a) (simp_all add: or_matching_def or.assoc)

lemma or_matching_Nil [simp]: "or_matching hit [] a = a"
  by (simp add: or_matching_def)

lemma or_list_update:
  "i < length es \<Longrightarrow>
   or_list (map fe_cmds (filter (hit \<circ> fe_name) (es[i := (es ! i)\<lparr>fe_cmds := fe_cmds (es ! i) OR c\<rparr>]))) =
   or_list (map fe_cmds (filter (hit \<circ> fe_name) es)) OR (if hit (fe_name (es ! i)) then c else 0)"
proof (induction es arbitrary: i)
  case (Cons e es)
  then show ?case
    by (cases i) (auto simp: or.assoc or.commute or.left_commute)
qed simp

lemma or_matching_add_entry:
  assumes "fold_case n = n"
  shows "or_matching hit (add_entry es n c) 0 = or_matching hit es 0 OR (if hit n then c else 0)"
proof (cases "find_entry es n")
  case None
  then show ?thesis by (simp add: add_entry_def or_matching_eq)
next
  case (Some i)
  then show ?thesis
    using find_entry_Some [OF Some] assms by (simp add: add_entry_def or_matching_eq or_list_update)
qed

text \<open>The names of a list after an insertion, and the masks it may hold.\<close>

lemma add_entry_names:
  assumes "fold_case n = n"
  shows "map fe_name (add_entry es n c) =
           (if n \<in> fe_name ` set es then map fe_name es else map fe_name es @ [n])"
proof (cases "find_entry es n")
  case None
  moreover from None have "n \<notin> fe_name ` set es"
    using assms by (simp only: find_entry_None) simp
  ultimately show ?thesis by (simp add: add_entry_def)
next
  case (Some i)
  then have "n \<in> fe_name ` set es"
    using assms find_entry_None [of es n] by auto
  then show ?thesis
    using Some find_entry_Some [OF Some] by (simp add: add_entry_def map_update list_update_same_conv)
qed

lemma set_list_update_mem: "x \<in> set (xs[i := y]) \<Longrightarrow> x \<in> set xs \<or> x = y"
  using set_update_subset_insert by fastforce

lemma add_entry_nonzero:
  "c \<noteq> 0 \<Longrightarrow> (\<And>e. e \<in> set es \<Longrightarrow> fe_cmds e \<noteq> 0) \<Longrightarrow> e \<in> set (add_entry es n c) \<Longrightarrow> fe_cmds e \<noteq> 0"
  by (auto simp: add_entry_def or_eq_0_iff split: option.splits dest!: set_list_update_mem)

locale mask_store =
  fixes empty :: 't
    and add :: "'t \<Rightarrow> string \<Rightarrow> u32 \<Rightarrow> 't"
    and mask :: "'t \<Rightarrow> 'k \<Rightarrow> u32"
    and hit :: "string \<Rightarrow> 'k \<Rightarrow> bool"
    and valid :: "string \<Rightarrow> bool"
  assumes mask_empty: "mask empty k = 0"
    and mask_add: "valid n \<Longrightarrow> mask (add t n c) k = mask t k OR (if hit n k then c else 0)"
begin

text \<open>A store filled from a list of entries answers with the union of the masks of all entries
  that hit the key: merging duplicates and the order of the entries are invisible.\<close>

lemma mask_fold_from:
  "(\<And>e. e \<in> set es \<Longrightarrow> valid (fst e)) \<Longrightarrow>
   mask (fold (\<lambda>e t. add t (fst e) (snd e)) es t) k =
     mask t k OR or_list (map snd (filter (\<lambda>e. hit (fst e) k) es))"
proof (induction es arbitrary: t)
  case Nil
  show ?case by simp
next
  case (Cons e es)
  have "mask (fold (\<lambda>e t. add t (fst e) (snd e)) es (add t (fst e) (snd e))) k =
      mask (add t (fst e) (snd e)) k OR or_list (map snd (filter (\<lambda>e. hit (fst e) k) es))"
    by (rule Cons.IH) (simp add: Cons.prems)
  then show ?case by (simp add: mask_add Cons.prems or.assoc)
qed

lemma mask_fold:
  "(\<And>e. e \<in> set es \<Longrightarrow> valid (fst e)) \<Longrightarrow>
   mask (fold (\<lambda>e t. add t (fst e) (snd e)) es empty) k =
     or_list (map snd (filter (\<lambda>e. hit (fst e) k) es))"
  using mask_fold_from [of es empty k] by (simp add: mask_empty)

end

interpretation by_schema:
  mask_store "[]" add_entry "\<lambda>es d. or_matching (\<lambda>n. ci_eq n d) es 0" "\<lambda>n d. n = fold_case d"
    "\<lambda>n. fold_case n = n"
  by unfold_locales (simp_all add: or_matching_add_entry ci_eq_iff)

interpretation by_table:
  mask_store "[]" add_entry "\<lambda>es (d, t). or_matching (\<lambda>n. ci_eq_qualified n d t) es 0"
    "\<lambda>n (d, t). n = fold_case d @ CHR ''.'' # fold_case t" "\<lambda>n. fold_case n = n"
  by unfold_locales (auto simp: or_matching_add_entry ci_eq_qualified_iff)

lemma or_matching_from: "or_matching hit es a = a OR or_matching hit es 0"
  by (simp add: or_matching_eq)

lemma match_schema_unfold:
  "d \<noteq> [] \<Longrightarrow> match_schema rules (Some d) =
     or_matching (\<lambda>n. ci_eq n d) (schemas rules) 0 OR
     or_matching (\<lambda>n. ci_eq n d) (wildcard_schemas rules) 0"
  by (simp add: match_schema_def) (rule or_matching_from)

lemma match_table_unfold:
  "d \<noteq> [] \<Longrightarrow> t \<noteq> [] \<Longrightarrow> match_table rules (Some d) (Some t) =
     or_matching (\<lambda>n. ci_eq n d) (wildcard_schemas rules) 0 OR
     or_matching (\<lambda>n. ci_eq_qualified n d t) (tables rules) 0"
  by (simp add: match_table_def) (rule or_matching_from)

section \<open>Binary search\<close>

lemma lower_bound_spec:
  assumes "sorted xs" and "first + len \<le> length xs"
  shows "first \<le> lower_bound xs v first len \<and> lower_bound xs v first len \<le> first + len \<and>
         (\<forall>i. first \<le> i \<and> i < lower_bound xs v first len \<longrightarrow> xs ! i < v) \<and>
         (\<forall>i. lower_bound xs v first len \<le> i \<and> i < first + len \<longrightarrow> v \<le> xs ! i)"
  using assms
proof (induction xs v first len rule: lower_bound.induct)
  case (1 xs v first len)
  let ?half = "len div 2" and ?middle = "first + len div 2"
  consider (zero) "len = 0" | (right) "len > 0" "xs ! ?middle < v"
    | (left) "len > 0" "\<not> xs ! ?middle < v" by blast
  then show ?case
  proof cases
    case zero
    then have "lower_bound xs v first len = first" by (simp add: lower_bound.simps)
    then show ?thesis using zero by auto
  next
    case right
    have half: "?half < len" using right(1) by simp
    have below: "xs ! i < v" if "i \<le> ?middle" for i
      using sorted_nth_mono [OF "1.prems"(1) that] "1.prems"(2) half right(2) by fastforce
    have "lower_bound xs v first len = lower_bound xs v (?middle + 1) (len - ?half - 1)"
      using right by (subst lower_bound.simps) (simp add: Let_def)
    moreover have "?middle + 1 + (len - ?half - 1) = first + len" using half by simp
    ultimately have IH: "?middle + 1 \<le> lower_bound xs v first len"
        "lower_bound xs v first len \<le> first + len"
        "\<And>i. ?middle + 1 \<le> i \<Longrightarrow> i < lower_bound xs v first len \<Longrightarrow> xs ! i < v"
        "\<And>i. lower_bound xs v first len \<le> i \<Longrightarrow> i < first + len \<Longrightarrow> v \<le> xs ! i"
      using "1.IH"(1) [OF right(1) refl refl right(2) "1.prems"(1)] "1.prems"(2) by auto
    have "xs ! i < v" if "i < lower_bound xs v first len" for i
      by (cases "i \<le> ?middle") (simp_all add: below IH(3) that)
    then show ?thesis using IH by auto
  next
    case left
    then have "?half < len" by simp
    have above: "v \<le> xs ! i" if "?middle \<le> i" "i < first + len" for i
      using sorted_nth_mono [OF "1.prems"(1) that(1)] that(2) "1.prems"(2) left(2) by fastforce
    have "lower_bound xs v first len = lower_bound xs v first ?half"
      using left by (subst lower_bound.simps) (simp add: Let_def)
    then have IH: "first \<le> lower_bound xs v first len" "lower_bound xs v first len \<le> ?middle"
        "\<And>i. first \<le> i \<Longrightarrow> i < lower_bound xs v first len \<Longrightarrow> xs ! i < v"
        "\<And>i. lower_bound xs v first len \<le> i \<Longrightarrow> i < ?middle \<Longrightarrow> v \<le> xs ! i"
      using "1.IH"(2) [OF left(1) refl refl left(2) "1.prems"(1)] "1.prems"(2) \<open>?half < len\<close> by auto
    have "v \<le> xs ! i" if "lower_bound xs v first len \<le> i" "i < first + len" for i
      by (cases "?middle \<le> i") (simp_all add: above IH(4) that)
    then show ?thesis using IH \<open>?half < len\<close> by auto
  qed
qed

lemma binary_search_iff:
  assumes "sorted xs"
  shows "binary_search xs v \<longleftrightarrow> v \<in> set xs"
proof -
  let ?i = "lower_bound xs v 0 (length xs)"
  have spec: "?i \<le> length xs" "\<And>j. j < ?i \<Longrightarrow> xs ! j < v" "\<And>j. ?i \<le> j \<Longrightarrow> j < length xs \<Longrightarrow> v \<le> xs ! j"
    using lower_bound_spec [OF assms, of 0 "length xs" v] by auto
  show ?thesis
  proof
    assume "binary_search xs v"
    then have "?i < length xs" "\<not> v < xs ! ?i" by (simp_all add: binary_search_def Let_def)
    then have "xs ! ?i = v" using spec(3) [of ?i] by (simp add: order.antisym)
    then show "v \<in> set xs" using nth_mem [OF \<open>?i < length xs\<close>] by simp
  next
    assume "v \<in> set xs"
    then obtain j where j: "j < length xs" "xs ! j = v" by (auto simp: in_set_conv_nth)
    then have "?i \<le> j" using spec(2) [of j] by (meson less_irrefl not_le)
    then have "?i < length xs" "xs ! ?i \<le> v"
      using j sorted_nth_mono [OF assms] by auto
    then show "binary_search xs v" by (simp add: binary_search_def Let_def not_less)
  qed
qed

end
