(* ===== verification/Extract_Command.thy ===== *)
theory Extract_Command
  imports Filter_Rules
begin

text \<open>
  \<open>extract_command\<close> of \<open>core/filter_engine.cc\<close>: skip white space, parentheses and the comment
  flavours, read the first keyword in upper case into a bounded buffer, turn \<open>START TRANSACTION\<close>
  into \<open>BEGIN\<close>, and fall back to \<open>OTHER\<close>.

  The cursor \<open>p\<close> with its \<open>end\<close> is the list of the bytes from \<open>p\<close> on.  The buffer is the text in
  front of the terminating NUL that \<open>buf\<close> holds on return; \<open>None\<close> is the case \<open>buf_size == 0\<close>, in
  which nothing is written.
\<close>

section \<open>Skipping\<close>

text \<open>The end of a block comment: past the next \<open>*/\<close>, or the end of the text.\<close>

fun skip_block :: "string \<Rightarrow> string" where
  "skip_block (a # b # r) = (if a = CHR ''*'' \<and> b = CHR ''/'' then r else skip_block (b # r))"
| "skip_block [a] = []"
| "skip_block [] = []"

lemma length_skip_block [scan_len]: "length (skip_block s) \<le> length s"
  by (induction s rule: skip_block.induct) auto

abbreviation skip_digits :: "string \<Rightarrow> string" where
  "skip_digits \<equiv> dropWhile (\<lambda>c. CHR ''0'' \<le> c \<and> c \<le> CHR ''9'')"

abbreviation skip_line :: "string \<Rightarrow> string" where
  "skip_line \<equiv> dropWhile (\<lambda>c. c \<noteq> CHR 0x0A)"

text \<open>The endless loop in front of the keyword; each round either stops or consumes a byte.\<close>

function skip_leading :: "string \<Rightarrow> string" where
  "skip_leading [] = []"
| "skip_leading (c # r) =
     (if is_space c \<or> c = CHR ''('' then skip_leading r
      else if c = CHR ''/'' \<and> r \<noteq> [] \<and> r ! 0 = CHR ''*'' then
        (if length r > 1 \<and> r ! 1 = CHR ''!'' then skip_leading (skip_digits (drop 2 r))
         else if length r > 2 \<and> r ! 1 = CHR ''M'' \<and> r ! 2 = CHR ''!''
           then skip_leading (skip_digits (drop 3 r))
         else skip_leading (skip_block (drop 1 r)))
      else if c = CHR ''-'' \<and> r \<noteq> [] \<and> r ! 0 = CHR ''-'' \<and> (length r = 1 \<or> is_space (r ! 1))
        then skip_leading (skip_line (c # r))
      else if c = CHR ''#'' then skip_leading (skip_line (c # r))
      else c # r)"
  by pat_completeness auto

lemma scan_shrinks:
  "length (skip_digits (drop n r)) \<le> length r"
  "length (skip_block (drop n r)) \<le> length r"
  "length (skip_line r) \<le> length r"
  by (rule le_trans [OF length_dropWhile_le], simp, rule le_trans [OF length_skip_block], simp)
     (rule length_dropWhile_le)

termination skip_leading
  by (relation "measure length") (auto simp: le_imp_less_Suc scan_shrinks)

declare skip_leading.simps(2) [simp del]

section \<open>Reading the keyword\<close>

definition kw_upper :: "char \<Rightarrow> char" where
  "kw_upper c = (if CHR ''a'' \<le> c \<and> c \<le> CHR ''z'' then shift_char c CHR ''a'' CHR ''A'' else c)"

definition kw_byte :: "char \<Rightarrow> bool" where
  "kw_byte c \<longleftrightarrow> is_lower c \<or> is_upper c \<or> is_digit c \<or> c = CHR ''_''"

text \<open>At most \<open>n\<close> keyword bytes, upper-cased, and the rest of the text: the loop bound
  \<open>n + 1 < buf_size && n < 16\<close> is \<open>min (buf_size - 1) 16\<close> rounds.\<close>

fun read_keyword :: "nat \<Rightarrow> string \<Rightarrow> string \<times> string" where
  "read_keyword 0 p = ([], p)"
| "read_keyword (Suc n) [] = ([], [])"
| "read_keyword (Suc n) (c # p) =
     (if kw_byte c then (let (w, q) = read_keyword n p in (kw_upper c # w, q)) else ([], c # p))"

definition word_byte :: "char \<Rightarrow> bool" where
  "word_byte c \<longleftrightarrow> is_lower c \<or> is_upper c"

text \<open>The second word of a \<open>START\<close> statement: up to 11 letters (\<open>char w[12]\<close>).\<close>

definition second_word :: "string \<Rightarrow> string" where
  "second_word p = map kw_upper (take 11 (takeWhile word_byte (dropWhile is_space p)))"

definition extract_command :: "string \<Rightarrow> nat \<Rightarrow> string option" where
  "extract_command query buf_size =
     (if buf_size = 0 then None
      else
        let (buf, p) = read_keyword (min (buf_size - 1) 16) (skip_leading query);
            buf1 = (if buf = ''START'' \<and> buf_size \<ge> 6 \<and> second_word p = ''TRANSACTION''
                    then ''BEGIN'' else buf)
        in Some (if buf = [] then take (min 5 (buf_size - 1)) ''OTHER'' else buf1))"

section \<open>What may stand in front of a statement\<close>

text \<open>Whether a comment body holds the closing \<open>*/\<close>.\<close>

fun has_close :: "string \<Rightarrow> bool" where
  "has_close (a # b # r) \<longleftrightarrow> a = CHR ''*'' \<and> b = CHR ''/'' \<or> has_close (b # r)"
| "has_close _ \<longleftrightarrow> False"

text \<open>The leading texts of the header comment: white space, parentheses, block comments, the openings
  of executable comments, and both line comment flavours, in any number and order.\<close>

inductive separator_run :: "string \<Rightarrow> bool" where
  sep_end: "separator_run []"
| sep_byte: "is_space c \<or> c = CHR ''('' \<Longrightarrow> separator_run s \<Longrightarrow> separator_run (c # s)"
| sep_block: "\<not> has_close body \<Longrightarrow> take 1 body \<noteq> ''!'' \<Longrightarrow> take 2 body \<noteq> ''M!'' \<Longrightarrow> separator_run s \<Longrightarrow>
    separator_run (''/*'' @ body @ ''*/'' @ s)"
| sep_exec: "list_all is_digit ver \<Longrightarrow> mark = ''/*!'' \<or> mark = ''/*M!'' \<Longrightarrow>
    s = [] \<or> \<not> is_digit (hd s) \<Longrightarrow> separator_run s \<Longrightarrow> separator_run (mark @ ver @ s)"
| sep_dashes: "CHR 0x0A \<notin> set line \<Longrightarrow> line = [] \<or> is_space (hd line) \<Longrightarrow> separator_run s \<Longrightarrow>
    separator_run (''--'' @ line @ CHR 0x0A # s)"
| sep_hash: "CHR 0x0A \<notin> set line \<Longrightarrow> separator_run s \<Longrightarrow> separator_run (CHR ''#'' # line @ CHR 0x0A # s)"

lemma skip_block_star: "skip_block (a # CHR ''*'' # CHR ''/'' # r) = r"
  by (cases "a = CHR ''*''") auto

lemma skip_block_body: "\<not> has_close body \<Longrightarrow> skip_block (body @ CHR ''*'' # CHR ''/'' # r) = r"
  by (induction body rule: has_close.induct) (auto simp: skip_block_star)

lemma skip_line_body: "CHR 0x0A \<notin> set line \<Longrightarrow> skip_line (line @ CHR 0x0A # r) = CHR 0x0A # r"
  by (rule dropWhile_sep)

lemma skip_digits_body:
  "list_all is_digit ver \<Longrightarrow> r = [] \<or> \<not> is_digit (hd r) \<Longrightarrow> skip_digits (ver @ r) = r"
  by (induction ver) (auto simp: is_digit_def dropWhile_eq_self_iff)

lemma newline_space [simp]: "is_space CHR 0x0A"
  by (simp add: is_space_def)

lemma skip_leading_newline: "skip_leading (CHR 0x0A # r) = skip_leading r"
  by (simp add: skip_leading.simps)

lemmas skip_rounds = skip_leading.simps(2) skip_leading_newline

lemma skip_hash: "CHR 0x0A \<notin> set line \<Longrightarrow> skip_leading (CHR ''#'' # line @ CHR 0x0A # r) = skip_leading r"
  using skip_line_body [of "CHR ''#'' # line" r] by (simp add: skip_rounds is_space_def)

lemma skip_dashes:
  assumes "CHR 0x0A \<notin> set line" and "line = [] \<or> is_space (hd line)"
  shows "skip_leading (''--'' @ line @ CHR 0x0A # r) = skip_leading r"
proof -
  have "is_space ((line @ CHR 0x0A # r) ! 0)" using assms(2) by (cases line) auto
  then show ?thesis
    using skip_line_body [of "''--'' @ line" r] assms(1) by (simp add: skip_rounds is_space_def)
qed

lemma skip_exec:
  assumes "list_all is_digit ver" and "r = [] \<or> \<not> is_digit (hd r)" and "mark = ''/*!'' \<or> mark = ''/*M!''"
  shows "skip_leading (mark @ ver @ r) = skip_leading r"
  using assms(3) skip_digits_body [OF assms(1,2)] by (auto simp: skip_rounds is_space_def)

lemma skip_block_comment:
  assumes "\<not> has_close body" and "take 1 body \<noteq> ''!''" and "take 2 body \<noteq> ''M!''"
  shows "skip_leading (''/*'' @ body @ ''*/'' @ r) = skip_leading r"
proof -
  have "(body @ ''*/'' @ r) ! 0 \<noteq> CHR ''!''"
    using assms(2) by (cases body) auto
  moreover have "\<not> ((body @ ''*/'' @ r) ! 0 = CHR ''M'' \<and> (body @ ''*/'' @ r) ! 1 = CHR ''!'')"
    using assms(3) by (cases body; cases "tl body") auto
  ultimately show ?thesis
    using skip_block_body [OF assms(1), of r] by (auto simp: skip_rounds is_space_def)
qed

text \<open>A text that starts with a keyword: nothing is skipped in front of it.\<close>

definition starts_keyword :: "string \<Rightarrow> bool" where
  "starts_keyword t \<longleftrightarrow> t \<noteq> [] \<and> kw_byte (hd t) \<and> \<not> is_digit (hd t)"

lemma kw_byte_not_sep:
  "kw_byte c \<Longrightarrow> \<not> is_space c \<and> c \<noteq> CHR ''('' \<and> c \<noteq> CHR ''/'' \<and> c \<noteq> CHR ''-'' \<and> c \<noteq> CHR ''#''"
  by (auto simp: kw_byte_def is_space_def char_class)

lemma skip_leading_keyword: "starts_keyword t \<Longrightarrow> skip_leading t = t"
proof (cases t)
  case (Cons c r)
  assume "starts_keyword t"
  then have "kw_byte c" by (simp add: starts_keyword_def Cons)
  then show ?thesis using kw_byte_not_sep [of c] by (simp add: Cons skip_leading.simps(2))
qed simp

lemma skip_leading_run: "separator_run s \<Longrightarrow> starts_keyword t \<Longrightarrow> skip_leading (s @ t) = t"
proof (induction rule: separator_run.induct)
  case (sep_byte c s)
  then show ?case by (simp add: skip_rounds)
next
  case (sep_exec ver mark s)
  then show ?case
    using skip_exec [of ver "s @ t" mark] by (cases s) (auto simp: starts_keyword_def)
next
  case (sep_block body s)
  then show ?case using skip_block_comment [of body "s @ t"] by simp
next
  case (sep_dashes line s)
  then show ?case using skip_dashes [of line "s @ t"] by simp
next
  case (sep_hash line s)
  then show ?case using skip_hash [of line "s @ t"] by simp
qed (simp add: skip_leading_keyword)

section \<open>Reading a keyword\<close>

lemma read_keyword_all:
  "list_all kw_byte kw \<Longrightarrow> length kw \<le> n \<Longrightarrow> rest = [] \<or> \<not> kw_byte (hd rest) \<Longrightarrow>
   read_keyword n (kw @ rest) = (map kw_upper kw, rest)"
proof (induction n "kw @ rest" arbitrary: kw rule: read_keyword.induct)
  case (3 n c p)
  then show ?case by (cases kw) auto
qed auto

definition kw_text :: "string \<Rightarrow> bool" where
  "kw_text w \<longleftrightarrow> list_all (\<lambda>c. is_upper c \<or> is_digit c \<or> c = CHR ''_'') w"

lemma kw_text_words: "kw_text ''BEGIN''" "kw_text (take n ''OTHER'')"
proof -
  show "kw_text ''BEGIN''" by code_simp
  have "kw_text ''OTHER''" by code_simp
  then show "kw_text (take n ''OTHER'')"
    unfolding kw_text_def list_all_iff by (metis in_set_takeD)
qed

lemma read_keyword_bounds:
  "read_keyword n p = (w, q) \<Longrightarrow> length w \<le> n \<and> kw_text w"
proof (induction n p arbitrary: w q rule: read_keyword.induct)
  case (3 n c p)
  have "is_upper (kw_upper c) \<or> is_digit (kw_upper c) \<or> kw_upper c = CHR ''_''" if "kw_byte c"
    using that unfolding kw_byte_def kw_upper_def is_upper_def is_lower_def is_digit_def char_order
    by (auto simp: shift_char_def)
  then show ?case using 3 by (auto simp: kw_text_def split: if_splits prod.splits)
qed (auto simp: kw_text_def)

section \<open>Properties of \<open>extract_command\<close>\<close>

lemma extract_keyword:
  assumes "separator_run s" and "kw \<noteq> []" and "list_all kw_byte kw" and "\<not> is_digit (hd kw)"
    and "length kw < buf_size" and "length kw \<le> 16"
    and "rest = [] \<or> \<not> kw_byte (hd rest)" and "map kw_upper kw \<noteq> ''START''"
  shows "extract_command (s @ kw @ rest) buf_size = Some (map kw_upper kw)"
proof -
  have "starts_keyword (kw @ rest)"
    using assms(2,3,4) by (cases kw) (simp_all add: starts_keyword_def)
  then have "skip_leading (s @ kw @ rest) = kw @ rest"
    using assms(1) by (intro skip_leading_run) auto
  moreover have "read_keyword (min (buf_size - 1) 16) (kw @ rest) = (map kw_upper kw, rest)"
    using assms(3,5,6,7) by (intro read_keyword_all) auto
  ultimately show ?thesis using assms(2,5,8) by (simp add: extract_command_def)
qed

text \<open>Buffer safety, for every query and every buffer size: nothing is written into an empty
  buffer; otherwise the text and its NUL fit, at most 16 bytes are kept, they are upper-case
  letters, digits or underscores, and a buffer of two bytes or more never ends up empty.\<close>

lemma extract_command_bounds:
  "(case extract_command query buf_size of
      None \<Rightarrow> buf_size = 0
    | Some w \<Rightarrow> buf_size > 0 \<and> length w + 1 \<le> buf_size \<and> length w \<le> 16 \<and> kw_text w \<and>
        (w = [] \<longrightarrow> buf_size = 1))"
proof (cases "buf_size = 0")
  case True
  then show ?thesis by (simp add: extract_command_def)
next
  case False
  obtain w q where rk: "read_keyword (min (buf_size - 1) 16) (skip_leading query) = (w, q)"
    by (cases "read_keyword (min (buf_size - 1) 16) (skip_leading query)")
  have "extract_command query buf_size = Some (if w = [] then take (min 5 (buf_size - 1)) ''OTHER''
      else if w = ''START'' \<and> buf_size \<ge> 6 \<and> second_word q = ''TRANSACTION'' then ''BEGIN'' else w)"
    using False rk by (simp add: extract_command_def)
  then show ?thesis
    using False read_keyword_bounds [OF rk] kw_text_words
    by (cases "w = []"; cases "w = ''START'' \<and> buf_size \<ge> 6 \<and> second_word q = ''TRANSACTION''") auto
qed

lemma extract_command_short_buffer:
  "extract_command ''SELECT 1'' 4 = Some ''SEL'' \<and> length ''SEL'' + 1 \<le> (4 :: nat) \<and> kw_text ''SEL''"
proof -
  have "extract_command ''SELECT 1'' 4 = Some ''SEL''" by code_simp
  with extract_command_bounds [where query = "''SELECT 1''" and buf_size = 4] show ?thesis by simp
qed

text \<open>(C35) The keyword of a statement is found whatever stands in front of it: after any run of white
  space, parentheses, block comments, executable-comment openings and line comments, a keyword
  that fits the buffer is returned in upper case, letter case of the query notwithstanding.\<close>

theorem extract_first_keyword:
  assumes "separator_run s" and "kw \<noteq> []" and "list_all kw_byte kw" and "\<not> is_digit (hd kw)"
    and "length kw < buf_size" and "length kw \<le> 16"
    and "rest = [] \<or> \<not> kw_byte (hd rest)" and "map kw_upper kw \<noteq> ''START''"
  shows "extract_command (s @ kw @ rest) buf_size = Some (map kw_upper kw)"
  by (rule extract_keyword [OF assms])

lemma separator_run_example:
  "separator_run (''/*'' @ '' c '' @ ''*/'' @ CHR '' '' # ''--'' @ '' x'' @ CHR 0x0A # CHR ''('' # [])"
  by (intro sep_block sep_byte sep_dashes sep_end) (simp_all add: is_space_def)

theorem extract_first_keyword_witness:
  "extract_command ((''/*'' @ '' c '' @ ''*/'' @ CHR '' '' # ''--'' @ '' x'' @ CHR 0x0A # CHR ''('' # []) @
     ''select'' @ '' 1)'') 24 = Some (map kw_upper ''select'')"
  by (rule extract_first_keyword [OF separator_run_example]) code_simp+

text \<open>Transaction starts are told from administrative \<open>START\<close> commands: \<open>START\<close> followed by white
  space and a word is reported as \<open>BEGIN\<close> exactly when the first eleven letters of that word spell
  \<open>TRANSACTION\<close>, and as \<open>START\<close> otherwise, which \<open>command_bit\<close> maps to \<open>CMD_OTHER\<close>.\<close>

lemma extract_start_transaction:
  assumes "separator_run s" and "map kw_upper st = ''START''" and "list_all kw_byte st"
    and "ws \<noteq> []" and "list_all is_space ws" and "list_all word_byte w"
    and "rest = [] \<or> \<not> word_byte (hd rest) \<and> \<not> is_space (hd rest)" and "6 \<le> buf_size"
  shows "(if take 11 (map kw_upper w) = ''TRANSACTION''
          then extract_command (s @ st @ ws @ w @ rest) buf_size = Some ''BEGIN'' \<and>
            command_bit ''BEGIN'' = CMD_BEGIN
          else extract_command (s @ st @ ws @ w @ rest) buf_size = Some ''START'' \<and>
            command_bit ''START'' = CMD_OTHER)"
proof -
  obtain c cs where st: "st = c # cs" using assms(2) by (cases st) auto
  have len: "length st = 5" using arg_cong [OF assms(2), of length] by simp
  have "kw_upper c = CHR ''S''" using assms(2) st by simp
  then have "\<not> is_digit c"
    by (auto simp: is_digit_def kw_upper_def char_order split: if_splits)
  then have "starts_keyword (st @ ws @ w @ rest)"
    using assms(3) by (simp add: starts_keyword_def st)
  then have skip: "skip_leading (s @ st @ ws @ w @ rest) = st @ ws @ w @ rest"
    using assms(1) by (intro skip_leading_run) auto
  have "\<not> kw_byte (hd (ws @ w @ rest))"
    using assms(4,5) by (cases ws) (auto dest: kw_byte_not_sep)
  then have read: "read_keyword (min (buf_size - 1) 16) (st @ ws @ w @ rest) = (''START'', ws @ w @ rest)"
    using assms(3,8) len read_keyword_all [of st _ "ws @ w @ rest"] assms(2) by simp
  have word_not_space: "\<not> is_space x" if "word_byte x" for x
    using that by (auto simp: word_byte_def is_space_def char_class)
  have "dropWhile is_space (ws @ w @ rest) = w @ rest"
    using assms(5,6,7) word_not_space by (cases w) (auto simp: list_all_iff dropWhile_eq_self_iff)
  moreover have "takeWhile word_byte (w @ rest) = w"
    using assms(6,7) by (cases rest) (auto simp: list_all_iff)
  ultimately have "second_word (ws @ w @ rest) = take 11 (map kw_upper w)"
    by (simp add: second_word_def take_map)
  moreover have "command_bit ''BEGIN'' = CMD_BEGIN" "command_bit ''START'' = CMD_OTHER"
    by code_simp+
  ultimately show ?thesis using assms(8) read by (simp add: extract_command_def skip)
qed

lemma extract_start_transaction_witness:
  "extract_command ([] @ ''Start'' @ '' '' @ ''transaction'' @ '';'') 24 = Some ''BEGIN'' \<and>
   extract_command ([] @ ''Start'' @ '' '' @ ''slave'' @ []) 24 = Some ''START''"
proof -
  have t: "take 11 (map kw_upper ''transaction'') = ''TRANSACTION''"
    and n: "take 11 (map kw_upper ''slave'') \<noteq> ''TRANSACTION''"
    by code_simp+
  have h: "map kw_upper ''Start'' = ''START''" "list_all kw_byte ''Start''" "list_all is_space '' ''"
      "list_all word_byte ''transaction''" "list_all word_byte ''slave''"
      "\<not> word_byte (hd '';'') \<and> \<not> is_space (hd '';'')"
    by code_simp+
  show ?thesis
    using extract_start_transaction [OF sep_end h(1,2) _ h(3,4), of "'';''" 24]
      extract_start_transaction [OF sep_end h(1,2) _ h(3,5), of "[]" 24] t n h(6)
    by simp
qed

end
