(* ===== verification/Statement_State.thy ===== *)
theory Statement_State
  imports Extract_Command
begin

text \<open>
  The per-connection statement state of \<open>src/selective_trace_mysql.cc\<close>: \<open>StatementState\<close>, the state
  map with \<open>get_state\<close> and \<open>forget_state\<close>, \<open>set_current_db\<close>, \<open>track_current_db\<close>,
  \<open>state_begin_statement\<close>, \<open>is_internal_stats_table\<close> and \<open>state_add_table\<close>.

  The two character arrays are lists of exactly their declared size.  A copy that ran past the end
  of an array would make the list longer, so the length part of the invariant \<open>state_inv\<close> is the
  absence of buffer overflows.  Lengths are natural numbers: the invariant bounds both of them by
  the array sizes, far below the width of \<open>unsigned int\<close>.
\<close>

definition STATE_TABLES_BUF :: nat where "STATE_TABLES_BUF = 3968"
definition STATE_CURRENT_DB_BUF :: nat where "STATE_CURRENT_DB_BUF = 192"

record StatementState =
  local_seq :: u64
  start_ns :: u64
  have_start :: bool
  in_statement :: bool
  cmd_mask :: u32
  tables_truncated :: bool
  tables_len :: nat
  tables_buf :: string
  current_db_len :: nat
  current_db :: string

text \<open>Value-initialisation of a new map element: every member is zero.\<close>

definition zero_state :: StatementState where
  "zero_state = \<lparr>local_seq = 0, start_ns = 0, have_start = False, in_statement = False, cmd_mask = 0,
     tables_truncated = False, tables_len = 0, tables_buf = replicate STATE_TABLES_BUF CHR 0x00,
     current_db_len = 0, current_db = replicate STATE_CURRENT_DB_BUF CHR 0x00\<rparr>"

text \<open>\<open>memcpy(buf + off, src, len)\<close> and the assignment \<open>buf[off]= c\<close>.\<close>

definition mem_copy :: "string \<Rightarrow> nat \<Rightarrow> string \<Rightarrow> string" where
  "mem_copy buf off src = take off buf @ src @ drop (off + length src) buf"

definition poke :: "string \<Rightarrow> nat \<Rightarrow> char \<Rightarrow> string" where
  "poke buf off c = mem_copy buf off [c]"

section \<open>The state map\<close>

type_synonym thd = u64
type_synonym state_map = "thd \<rightharpoonup> StatementState"

text \<open>The element is returned together with the map it now lives in; the caller's writes through the
  pointer are the update \<open>m(thd \<mapsto> st)\<close>.\<close>

definition get_state :: "state_map \<Rightarrow> thd \<Rightarrow> StatementState \<times> state_map" where
  "get_state m thd =
     (case m thd of Some st \<Rightarrow> (st, m) | None \<Rightarrow> (zero_state, m(thd \<mapsto> zero_state)))"

definition forget_state :: "state_map \<Rightarrow> thd \<Rightarrow> state_map" where
  "forget_state m thd = m(thd := None)"

section \<open>The tracked schema\<close>

definition set_current_db :: "StatementState \<Rightarrow> string \<Rightarrow> StatementState" where
  "set_current_db st db =
     (let len = (if length db \<ge> STATE_CURRENT_DB_BUF then STATE_CURRENT_DB_BUF - 1 else length db)
      in st\<lparr>current_db := poke (mem_copy (current_db st) 0 (take len db)) len CHR 0x00,
            current_db_len := len\<rparr>)"

text \<open>The fields of the server's \<open>mysql_event_general\<close> the plugin reads.\<close>

record mysql_event_general =
  general_command :: string
  general_query :: string
  general_thread_id :: u64
  general_user :: string
  general_host :: string
  general_error_code :: "32 word"

definition general_command_is :: "mysql_event_general \<Rightarrow> string \<Rightarrow> bool" where
  "general_command_is event label \<longleftrightarrow> general_command event = label"

definition is_query_command :: "mysql_event_general \<Rightarrow> bool" where
  "is_query_command event \<longleftrightarrow> general_command_is event ''Query'' \<or> general_command_is event ''Execute''"

definition name_byte :: "char \<Rightarrow> bool" where
  "name_byte c \<longleftrightarrow> is_lower c \<or> is_upper c \<or> is_digit c \<or> c = CHR ''_'' \<or> c = CHR ''$''"

text \<open>The second pass over a \<open>USE\<close> statement: the schema name, if the scan finds one.\<close>

definition use_name :: "string \<Rightarrow> string option" where
  "use_name query =
     (let p = dropWhile (\<lambda>c. is_space c \<or> c = CHR ''('') query in
      if length p < 3 then None
      else (case dropWhile is_space (drop 3 p) of
              [] \<Rightarrow> None
            | c # r \<Rightarrow>
                let name = (if c = CHR 0x60 then takeWhile (\<lambda>d. d \<noteq> CHR 0x60) r
                            else takeWhile name_byte (c # r))
                in if name = [] then None else Some name))"

definition track_current_db :: "StatementState \<Rightarrow> mysql_event_general \<Rightarrow> StatementState" where
  "track_current_db st event =
     (if general_command_is event ''Init DB'' then
        (if length (general_query event) > 0 then set_current_db st (general_query event) else st)
      else if \<not> general_command_is event ''Query'' \<or> length (general_query event) = 0 then st
      else if extract_command (general_query event) 8 \<noteq> Some ''USE'' then st
      else (case use_name (general_query event) of None \<Rightarrow> st | Some name \<Rightarrow> set_current_db st name))"

section \<open>Statements and their tables\<close>

definition state_begin_statement :: "StatementState \<Rightarrow> bool \<Rightarrow> u64 \<Rightarrow> StatementState" where
  "state_begin_statement st with_start now =
     st\<lparr>local_seq := local_seq st + 1, cmd_mask := 0, tables_len := 0, tables_truncated := False,
        in_statement := True, have_start := with_start, start_ns := (if with_start then now else 0)\<rparr>"

definition stats_tables :: "string list" where
  "stats_tables = [''innodb_table_stats'', ''innodb_index_stats'']"

definition is_internal_stats_table :: "string \<Rightarrow> string \<Rightarrow> bool" where
  "is_internal_stats_table db tbl \<longleftrightarrow>
     fold_case db = ''mysql'' \<and> list_ex (\<lambda>name. fold_case tbl = name) stats_tables"

text \<open>The search for a table recorded before; \<open>hay\<close> is the text from \<open>pos\<close> on.\<close>

function (sequential) has_table :: "string \<Rightarrow> string \<Rightarrow> string \<Rightarrow> bool" where
  "has_table hay db tbl =
     (if length db + 1 + length tbl \<le> length hay then
        let entry_len = length (takeWhile (\<lambda>c. c \<noteq> CHR '','') hay) in
        if entry_len = length db + 1 + length tbl \<and> take (length db) hay = db \<and>
           hay ! length db = CHR ''.'' \<and> take (length tbl) (drop (length db + 1) hay) = tbl
        then True
        else (case dropWhile (\<lambda>c. c \<noteq> CHR '','') hay of
                [] \<Rightarrow> False
              | _ # rest \<Rightarrow> has_table rest db tbl)
      else False)"
  by pat_completeness auto
termination has_table
  by (relation "measure (\<lambda>(hay, _). length hay)") (auto dest: length_dropWhile_Cons)

declare has_table.simps [simp del]

definition state_add_table :: "StatementState \<Rightarrow> string \<Rightarrow> string \<Rightarrow> StatementState" where
  "state_add_table st db tbl =
     (let need = length db + 1 + length tbl in
      if need = 0 \<or> need \<ge> STATE_TABLES_BUF then st\<lparr>tables_truncated := True\<rparr>
      else if tables_len st > 0 \<and> has_table (take (tables_len st) (tables_buf st)) db tbl then st
      else if tables_len st + (if tables_len st > 0 then 1 else 0) + need \<ge> STATE_TABLES_BUF
        then st\<lparr>tables_truncated := True\<rparr>
      else
        let st1 = (if tables_len st > 0
                   then st\<lparr>tables_buf := poke (tables_buf st) (tables_len st) CHR '','',
                           tables_len := tables_len st + 1\<rparr>
                   else st);
            st2 = st1\<lparr>tables_buf := mem_copy (tables_buf st1) (tables_len st1) db,
                      tables_len := tables_len st1 + length db\<rparr>;
            st3 = st2\<lparr>tables_buf := poke (tables_buf st2) (tables_len st2) CHR ''.'',
                      tables_len := tables_len st2 + 1\<rparr>
        in st3\<lparr>tables_buf := mem_copy (tables_buf st3) (tables_len st3) tbl,
               tables_len := tables_len st3 + length tbl\<rparr>)"

text \<open>The final block \<open>reset:\<close> of \<open>handle_status_event\<close>.\<close>

definition state_reset :: "StatementState \<Rightarrow> StatementState" where
  "state_reset st = st\<lparr>cmd_mask := 0, tables_len := 0, tables_truncated := False,
     have_start := False, in_statement := False\<rparr>"

section \<open>Buffer safety\<close>

text \<open>The arrays keep their size, and what is recorded ends before the end of each.\<close>

definition state_inv :: "StatementState \<Rightarrow> bool" where
  "state_inv st \<longleftrightarrow>
     length (tables_buf st) = STATE_TABLES_BUF \<and> tables_len st < STATE_TABLES_BUF \<and>
     length (current_db st) = STATE_CURRENT_DB_BUF \<and> current_db_len st < STATE_CURRENT_DB_BUF \<and>
     current_db st ! current_db_len st = CHR 0x00"

definition tables_text :: "StatementState \<Rightarrow> string" where
  "tables_text st = take (tables_len st) (tables_buf st)"

definition db_text :: "StatementState \<Rightarrow> string" where
  "db_text st = take (current_db_len st) (current_db st)"

lemma length_mem_copy [simp]: "off + length src \<le> length buf \<Longrightarrow> length (mem_copy buf off src) = length buf"
  by (simp add: mem_copy_def)

lemma take_mem_copy: "off \<le> length buf \<Longrightarrow> take (off + length src) (mem_copy buf off src) = take off buf @ src"
  by (simp add: mem_copy_def)

lemma length_poke [simp]: "off < length buf \<Longrightarrow> length (poke buf off c) = length buf"
  by (simp add: poke_def)

lemma take_poke: "off \<le> length buf \<Longrightarrow> take (off + 1) (poke buf off c) = take off buf @ [c]"
  using take_mem_copy [of off buf "[c]"] by (simp add: poke_def)

lemma take_poke_before: "off \<le> length buf \<Longrightarrow> take off (poke buf off c) = take off buf"
  by (simp add: poke_def mem_copy_def)

lemma nth_poke: "off \<le> length buf \<Longrightarrow> poke buf off c ! off = c"
  by (simp add: poke_def mem_copy_def nth_append)

lemmas buffer_sizes = STATE_TABLES_BUF_def STATE_CURRENT_DB_BUF_def

lemma state_inv_zero: "state_inv zero_state"
  by (simp add: state_inv_def zero_state_def buffer_sizes nth_replicate)

lemma state_inv_set_current_db: "state_inv st \<Longrightarrow> state_inv (set_current_db st db)"
  by (auto simp: state_inv_def set_current_db_def Let_def nth_poke STATE_CURRENT_DB_BUF_def)

lemma db_text_set_current_db:
  "state_inv st \<Longrightarrow> db_text (set_current_db st db) = take (STATE_CURRENT_DB_BUF - 1) db"
  by (auto simp: state_inv_def set_current_db_def db_text_def Let_def take_poke_before STATE_CURRENT_DB_BUF_def
      mem_copy_def)

lemma state_inv_track_current_db: "state_inv st \<Longrightarrow> state_inv (track_current_db st event)"
  by (simp add: track_current_db_def state_inv_set_current_db split: option.split)

lemma state_inv_begin: "state_inv st \<Longrightarrow> state_inv (state_begin_statement st with_start now)"
  by (simp add: state_inv_def state_begin_statement_def STATE_TABLES_BUF_def)

lemma state_inv_reset: "state_inv st \<Longrightarrow> state_inv (state_reset st)"
  by (simp add: state_inv_def state_reset_def STATE_TABLES_BUF_def)

lemma state_inv_truncated: "state_inv (st\<lparr>tables_truncated := b\<rparr>) = state_inv st"
  by (simp add: state_inv_def)

lemma state_inv_cmd_mask: "state_inv (st\<lparr>cmd_mask := c\<rparr>) = state_inv st"
  by (simp add: state_inv_def)

text \<open>One append to the table text: \<open>tables_len\<close> moves over the bytes just written.\<close>

definition append_text :: "StatementState \<Rightarrow> string \<Rightarrow> StatementState" where
  "append_text st s = st\<lparr>tables_buf := mem_copy (tables_buf st) (tables_len st) s,
     tables_len := tables_len st + length s\<rparr>"

lemma append_text_inv:
  "state_inv st \<Longrightarrow> tables_len st + length s < STATE_TABLES_BUF \<Longrightarrow> state_inv (append_text st s)"
  by (simp add: state_inv_def append_text_def)

lemma append_text_text:
  "state_inv st \<Longrightarrow> tables_text (append_text st s) = tables_text st @ s"
  by (simp add: state_inv_def append_text_def tables_text_def take_mem_copy)

lemma append_text_len [simp]: "tables_len (append_text st s) = tables_len st + length s"
  by (simp add: append_text_def)

lemma length_tables_text: "state_inv st \<Longrightarrow> length (tables_text st) = tables_len st"
  by (simp add: state_inv_def tables_text_def)

definition full_name :: "string \<Rightarrow> string \<Rightarrow> string" where
  "full_name db tbl = db @ CHR ''.'' # tbl"

lemma length_full_name [simp]: "length (full_name db tbl) = length db + 1 + length tbl"
  by (simp add: full_name_def)

text \<open>Where the name fits, the four writes append it, behind a comma unless it is the first.\<close>

definition table_fits :: "StatementState \<Rightarrow> string \<Rightarrow> string \<Rightarrow> bool" where
  "table_fits st db tbl \<longleftrightarrow>
     tables_len st + (if tables_len st > 0 then 1 else 0) + length (full_name db tbl) < STATE_TABLES_BUF"

definition append_table :: "StatementState \<Rightarrow> string \<Rightarrow> string \<Rightarrow> StatementState" where
  "append_table st db tbl =
     append_text (append_text (append_text (if tables_len st > 0 then append_text st '','' else st) db) ''.'') tbl"

lemma state_add_table_cases:
  "state_add_table st db tbl =
     (if tables_len st > 0 \<and> length (full_name db tbl) < STATE_TABLES_BUF \<and> has_table (tables_text st) db tbl then st
      else if table_fits st db tbl then append_table st db tbl
      else st\<lparr>tables_truncated := True\<rparr>)"
  by (auto simp: state_add_table_def table_fits_def append_table_def append_text_def tables_text_def poke_def
      Let_def)

lemma append_table_inv:
  assumes "state_inv st" and "table_fits st db tbl"
  shows "state_inv (append_table st db tbl)"
  using assms by (auto simp: append_table_def table_fits_def intro!: append_text_inv)

lemma append_table_text:
  assumes "state_inv st" and "table_fits st db tbl"
  shows "tables_text (append_table st db tbl) =
    (if tables_len st > 0 then tables_text st @ CHR '','' # full_name db tbl else full_name db tbl)"
  using assms
  by (auto simp: append_table_def table_fits_def append_text_text append_text_inv full_name_def)
    (simp add: tables_text_def)

lemma state_inv_add_table: "state_inv st \<Longrightarrow> state_inv (state_add_table st db tbl)"
  by (auto simp: state_add_table_cases append_table_inv state_inv_truncated)

section \<open>The recorded tables as a list\<close>

lemma split_on_length: "xs \<in> set (split_on d ys) \<Longrightarrow> length xs \<le> length ys"
  by (induction ys arbitrary: xs) (fastforce split: if_splits list.splits)+

lemma entry_eq:
  fixes hay :: string
  defines "entry \<equiv> takeWhile (\<lambda>c. c \<noteq> CHR '','') hay"
  shows "(length entry = length db + 1 + length tbl \<and> take (length db) hay = db \<and> hay ! length db = CHR ''.'' \<and>
     take (length tbl) (drop (length db + 1) hay) = tbl) \<longleftrightarrow> entry = full_name db tbl"
proof -
  obtain r where hay: "hay = entry @ r" unfolding entry_def by (metis takeWhile_dropWhile_id)
  show ?thesis
  proof (cases "length entry = length db + 1 + length tbl")
    case True
    have "entry = full_name db tbl \<longleftrightarrow>
        take (length db) entry = db \<and> entry ! length db = CHR ''.'' \<and> drop (length db + 1) entry = tbl"
      using True by (auto simp: full_name_def nth_append) (metis id_take_nth_drop Suc_eq_plus1 less_add_Suc1 add_Suc)
    then show ?thesis using True by (simp add: hay nth_append)
  next
    case False
    then show ?thesis by auto
  qed
qed

lemma has_table_iff:
  "has_table hay db tbl \<longleftrightarrow> full_name db tbl \<in> set (split_on CHR '','' hay)"
proof (induction hay db tbl rule: has_table.induct)
  case (1 hay db tbl)
  let ?entry = "takeWhile (\<lambda>c. c \<noteq> CHR '','') hay"
  show ?case
  proof (cases "length db + 1 + length tbl \<le> length hay")
    case True
    note bound = True
    have unf: "has_table hay db tbl \<longleftrightarrow> ?entry = full_name db tbl \<or>
        (case dropWhile (\<lambda>c. c \<noteq> CHR '','') hay of [] \<Rightarrow> False | _ # rest \<Rightarrow> has_table rest db tbl)"
      using entry_eq [of hay db tbl] True by (subst has_table.simps) (simp add: Let_def)
    show ?thesis
    proof (cases "?entry = full_name db tbl")
      case True
      then show ?thesis unfolding unf by (subst takeWhile_split_on) simp
    next
      case False
      then have "\<not> (length ?entry = length db + 1 + length tbl \<and> take (length db) hay = db \<and>
          hay ! length db = CHR ''.'' \<and> take (length tbl) (drop (length db + 1) hay) = tbl)"
        using entry_eq [of hay db tbl] by blast
      note IH = 1 [OF bound refl this]
      show ?thesis
      proof (cases "dropWhile (\<lambda>c. c \<noteq> CHR '','') hay")
        case Nil
        then show ?thesis unfolding unf Nil using False by (subst takeWhile_split_on) (simp add: Nil del: dropWhile_eq_Nil_conv)
      next
        case (Cons c rest)
        then show ?thesis unfolding unf using False IH [OF Cons] by (subst takeWhile_split_on) auto
      qed
    qed
  next
    case False
    then show ?thesis
      using split_on_length [of "full_name db tbl" "CHR '',''" hay] by (subst has_table.simps) auto
  qed
qed

text \<open>The abstract view: the entries between the commas, and one insertion.\<close>

definition table_entries :: "StatementState \<Rightarrow> string list" where
  "table_entries st = (if tables_len st = 0 then [] else split_on CHR '','' (tables_text st))"

definition insert_entry :: "string list \<Rightarrow> string \<Rightarrow> string list" where
  "insert_entry es e = (if e \<in> set es then es else es @ [e])"

lemma split_on_snoc_sep: "split_on d (xs @ d # ys) = split_on d xs @ split_on d ys"
  by (induction xs) (auto split: list.splits)

lemma table_entries_append:
  assumes "state_inv st" and "table_fits st db tbl" and "CHR '','' \<notin> set (full_name db tbl)"
  shows "table_entries (append_table st db tbl) = table_entries st @ [full_name db tbl]"
proof -
  have "tables_len (append_table st db tbl) > 0" by (simp add: append_table_def)
  then show ?thesis
    using assms by (simp add: table_entries_def append_table_text split_on_snoc_sep split_on_no_sep)
qed

lemma table_entries_truncated [simp]: "table_entries (st\<lparr>tables_truncated := b\<rparr>) = table_entries st"
  by (simp add: table_entries_def tables_text_def)

lemma table_entries_cmd_mask [simp]: "table_entries (st\<lparr>cmd_mask := c\<rparr>) = table_entries st"
  by (simp add: table_entries_def tables_text_def)

lemma entry_in_buffer: "state_inv st \<Longrightarrow> e \<in> set (table_entries st) \<Longrightarrow> length e < STATE_TABLES_BUF"
  using split_on_length [of e "CHR '',''" "tables_text st"]
  by (auto simp: table_entries_def length_tables_text state_inv_def split: if_splits)

lemma add_table_entries:
  assumes "state_inv st" and "CHR '','' \<notin> set (full_name db tbl)"
  shows "table_entries (state_add_table st db tbl) =
      (if table_fits st db tbl then insert_entry (table_entries st) (full_name db tbl) else table_entries st)"
    and "tables_truncated (state_add_table st db tbl) \<longleftrightarrow> tables_truncated st \<or>
      full_name db tbl \<notin> set (table_entries st) \<and> \<not> table_fits st db tbl"
proof -
  have seen: "(tables_len st > 0 \<and> length (full_name db tbl) < STATE_TABLES_BUF \<and> has_table (tables_text st) db tbl)
      \<longleftrightarrow> full_name db tbl \<in> set (table_entries st)"
    using entry_in_buffer [OF assms(1), of "full_name db tbl"] by (auto simp: table_entries_def has_table_iff)
  show "table_entries (state_add_table st db tbl) =
      (if table_fits st db tbl then insert_entry (table_entries st) (full_name db tbl) else table_entries st)"
    unfolding state_add_table_cases seen insert_entry_def
    using table_entries_append [OF assms(1) _ assms(2)] by auto
  have "tables_truncated (append_table st db tbl) = tables_truncated st"
    by (simp add: append_table_def append_text_def)
  then show "tables_truncated (state_add_table st db tbl) \<longleftrightarrow> tables_truncated st \<or>
      full_name db tbl \<notin> set (table_entries st) \<and> \<not> table_fits st db tbl"
    unfolding state_add_table_cases seen by auto
qed

text \<open>
  What the event handlers rely on: a recorder of names keeps the first occurrence of every name in
  order, and admits with \<open>full\<close> when it had to drop one.
\<close>

locale table_recorder =
  fixes inv :: "'s \<Rightarrow> bool"
    and add :: "'s \<Rightarrow> 't \<Rightarrow> 's"
    and entries :: "'s \<Rightarrow> string list"
    and full :: "'s \<Rightarrow> bool"
    and name :: "'t \<Rightarrow> string"
    and ok :: "'t \<Rightarrow> bool"
  assumes inv_add: "inv s \<Longrightarrow> inv (add s t)"
    and add_entries: "inv s \<Longrightarrow> ok t \<Longrightarrow>
      entries (add s t) = insert_entry (entries s) (name t) \<or> entries (add s t) = entries s \<and> full (add s t)"
    and full_add: "inv s \<Longrightarrow> full s \<Longrightarrow> full (add s t)"
begin

definition add_all :: "'t list \<Rightarrow> 's \<Rightarrow> 's" where
  "add_all ts s = fold (\<lambda>t s. add s t) ts s"

lemma add_all_simps [simp]: "add_all [] s = s" "add_all (t # ts) s = add_all ts (add s t)"
  by (simp_all add: add_all_def)

lemma inv_add_all: "inv s \<Longrightarrow> inv (add_all ts s)"
  by (induction ts arbitrary: s) (simp_all add: inv_add)

lemma full_add_all: "inv s \<Longrightarrow> full s \<Longrightarrow> full (add_all ts s)"
  by (induction ts arbitrary: s) (simp_all add: inv_add full_add)

lemma add_all_exact:
  "inv s \<Longrightarrow> list_all ok ts \<Longrightarrow> \<not> full (add_all ts s) \<Longrightarrow>
   entries (add_all ts s) = foldl insert_entry (entries s) (map name ts)"
proof (induction ts arbitrary: s)
  case (Cons t ts)
  then have "\<not> full (add s t)" using full_add_all [of "add s t" ts] inv_add by auto
  then show ?case using Cons add_entries [of s t] inv_add by auto
qed simp

lemma add_all_sound:
  "inv s \<Longrightarrow> list_all ok ts \<Longrightarrow> distinct (entries s) \<Longrightarrow>
   distinct (entries (add_all ts s)) \<and> set (entries (add_all ts s)) \<subseteq> set (entries s) \<union> name ` set ts"
proof (induction ts arbitrary: s)
  case (Cons t ts)
  have "distinct (entries (add s t)) \<and> set (entries (add s t)) \<subseteq> insert (name t) (set (entries s))"
    using add_entries [of s t] Cons.prems by (auto simp: insert_entry_def split: if_splits)
  then show ?case using Cons.IH [of "add s t"] Cons.prems inv_add by auto
qed simp

end

lemma foldl_insert_entry: "set (foldl insert_entry es xs) = set es \<union> set xs"
  by (induction xs arbitrary: es) (auto simp: insert_entry_def)

text \<open>All table events of a statement, in order.\<close>

definition add_tables :: "(string \<times> string) list \<Rightarrow> StatementState \<Rightarrow> StatementState" where
  "add_tables ts st = fold (\<lambda>(db, tbl) st. state_add_table st db tbl) ts st"

definition plain_table :: "string \<times> string \<Rightarrow> bool" where
  "plain_table t \<longleftrightarrow> CHR '','' \<notin> set (full_name (fst t) (snd t))"

interpretation recorder: table_recorder state_inv "\<lambda>st (db, tbl). state_add_table st db tbl" table_entries
  tables_truncated "\<lambda>(db, tbl). full_name db tbl" plain_table
proof
  fix st :: StatementState and t :: "string \<times> string"
  obtain db tbl where t: "t = (db, tbl)" by (cases t)
  assume inv: "state_inv st"
  show "state_inv (case t of (db, tbl) \<Rightarrow> state_add_table st db tbl)"
    by (simp add: t state_inv_add_table inv)
  show "tables_truncated st \<Longrightarrow> tables_truncated (case t of (db, tbl) \<Rightarrow> state_add_table st db tbl)"
    by (simp add: t state_add_table_cases append_table_def append_text_def)
  assume "plain_table t"
  then show "table_entries (case t of (db, tbl) \<Rightarrow> state_add_table st db tbl) =
        insert_entry (table_entries st) (case t of (db, tbl) \<Rightarrow> full_name db tbl) \<or>
      table_entries (case t of (db, tbl) \<Rightarrow> state_add_table st db tbl) = table_entries st \<and>
        tables_truncated (case t of (db, tbl) \<Rightarrow> state_add_table st db tbl)"
    using add_table_entries [OF inv, of db tbl] by (auto simp: t plain_table_def insert_entry_def)
qed

lemma add_tables_all: "add_tables ts st = recorder.add_all ts st"
  by (induction ts arbitrary: st) (auto simp: add_tables_def)

text \<open>Room for every name is enough for none to be dropped.\<close>

lemma add_tables_room:
  "state_inv st \<Longrightarrow> list_all plain_table ts \<Longrightarrow>
   tables_len st + sum_list (map (\<lambda>(db, tbl). length (full_name db tbl) + 1) ts) < STATE_TABLES_BUF \<Longrightarrow>
   tables_truncated (add_tables ts st) = tables_truncated st"
proof (induction ts arbitrary: st)
  case (Cons t ts)
  obtain db tbl where t: "t = (db, tbl)" by (cases t)
  have fits: "table_fits st db tbl" using Cons.prems(3) by (auto simp: t table_fits_def)
  have "tables_len (state_add_table st db tbl) \<le> tables_len st + length (full_name db tbl) + 1"
    by (simp add: state_add_table_cases append_table_def)
  moreover have "tables_truncated (state_add_table st db tbl) = tables_truncated st"
    using add_table_entries(2) [OF Cons.prems(1), of db tbl] fits Cons.prems(2) by (auto simp: t plain_table_def)
  ultimately show ?case
    using Cons.IH [of "state_add_table st db tbl"] Cons.prems
    by (auto simp: t add_tables_def state_inv_add_table)
qed (simp add: add_tables_def)

section \<open>Where a tracked schema comes from\<close>

lemma use_name_statement:
  assumes "list_all (\<lambda>c. is_space c \<or> c = CHR ''('') s" and "length kw = 3" and "hd kw = CHR ''U'' \<or> hd kw = CHR ''u''"
    and "list_all is_space ws" and "name \<noteq> []"
  shows "list_all name_byte name \<Longrightarrow> rest = [] \<or> \<not> name_byte (hd rest) \<Longrightarrow>
      use_name (s @ kw @ ws @ name @ rest) = Some name"
    and "CHR 0x60 \<notin> set name \<Longrightarrow>
      use_name (s @ kw @ ws @ CHR 0x60 # name @ CHR 0x60 # rest) = Some name"
proof -
  have lead: "dropWhile (\<lambda>c. is_space c \<or> c = CHR ''('') (s @ kw @ t) = kw @ t" for t
    using assms(1,2,3) by (cases kw) (auto simp: dropWhile_append2 list_all_iff is_space_def)
  have blank: "dropWhile is_space (ws @ c # t) = c # t" if "\<not> is_space c" for c t
    using assms(4) that by (auto simp: dropWhile_append2 list_all_iff)
  show "use_name (s @ kw @ ws @ name @ rest) = Some name"
    if name: "list_all name_byte name" and rest: "rest = [] \<or> \<not> name_byte (hd rest)"
  proof -
    obtain c r where c: "name = c # r" using assms(5) by (cases name) auto
    then have "\<not> is_space c" "c \<noteq> CHR 0x60" using name by (auto simp: name_byte_def is_space_def char_class)
    moreover have "takeWhile name_byte (name @ rest) = name"
      using name rest by (cases rest) (auto simp: takeWhile_append2 list_all_iff)
    ultimately show ?thesis
      using assms(2) blank [of c "r @ rest"] by (simp add: use_name_def lead c Let_def)
  qed
  have "\<not> is_space CHR 0x60" by (simp add: is_space_def)
  then show "use_name (s @ kw @ ws @ CHR 0x60 # name @ CHR 0x60 # rest) = Some name" if "CHR 0x60 \<notin> set name"
    using assms(2,5) blank [of "CHR 0x60" "name @ CHR 0x60 # rest"] takeWhile_sep [OF that, of rest]
    by (simp add: use_name_def lead Let_def)
qed

lemma kw_upper_U: "kw_upper c = CHR ''U'' \<Longrightarrow> c = CHR ''U'' \<or> c = CHR ''u''"
proof -
  have "\<forall>c. kw_upper c = CHR ''U'' \<longrightarrow> c = CHR ''U'' \<or> c = CHR ''u''" by code_simp
  then show "kw_upper c = CHR ''U'' \<Longrightarrow> c = CHR ''U'' \<or> c = CHR ''u''" by blast
qed

lemma kw_upper_letter: "is_upper (kw_upper c) \<Longrightarrow> kw_byte c \<and> \<not> is_digit c"
proof -
  have "\<forall>c. is_upper (kw_upper c) \<longrightarrow> kw_byte c \<and> \<not> is_digit c" by code_simp
  then show "is_upper (kw_upper c) \<Longrightarrow> kw_byte c \<and> \<not> is_digit c" by blast
qed

lemma separator_bytes: "list_all (\<lambda>c. is_space c \<or> c = CHR ''('') s \<Longrightarrow> separator_run s"
  by (induction s) (auto intro: separator_run.intros)

lemma keyword_USE:
  assumes "map kw_upper kw = ''USE''"
  shows "length kw = 3" "hd kw = CHR ''U'' \<or> hd kw = CHR ''u''" "list_all kw_byte kw" "kw \<noteq> []" "\<not> is_digit (hd kw)"
proof -
  obtain a b c where kw: "kw = [a, b, c]" "kw_upper a = CHR ''U''" "kw_upper b = CHR ''S''" "kw_upper c = CHR ''E''"
    using assms by (auto simp: map_eq_Cons_conv)
  have "is_upper CHR ''U''" "is_upper CHR ''S''" "is_upper CHR ''E''" by (simp_all add: is_upper_def)
  then show "length kw = 3" "hd kw = CHR ''U'' \<or> hd kw = CHR ''u''" "list_all kw_byte kw" "kw \<noteq> []" "\<not> is_digit (hd kw)"
    using kw kw_upper_U [of a] kw_upper_letter [of a] kw_upper_letter [of b] kw_upper_letter [of c] by auto
qed

text \<open>The two ways to write a schema name: bare, or between back ticks.\<close>

definition schema_ref :: "string \<Rightarrow> string \<Rightarrow> string \<Rightarrow> bool" where
  "schema_ref name txt rest \<longleftrightarrow>
     txt = name \<and> list_all name_byte name \<and> (rest = [] \<or> \<not> name_byte (hd rest)) \<or>
     txt = CHR 0x60 # name @ [CHR 0x60] \<and> CHR 0x60 \<notin> set name"

text \<open>The tables of a statement, from its beginning on.\<close>

lemma recorded_tables:
  fixes st :: StatementState and ts :: "(string \<times> string) list" and with_start :: bool and now :: u64
  assumes "state_inv st" and "list_all plain_table ts"
  defines "st' \<equiv> add_tables ts (state_begin_statement st with_start now)"
  shows "distinct (table_entries st') \<and> set (table_entries st') \<subseteq> (\<lambda>(db, tbl). full_name db tbl) ` set ts \<and>
    (\<not> tables_truncated st' \<longrightarrow>
       table_entries st' = foldl insert_entry [] (map (\<lambda>(db, tbl). full_name db tbl) ts) \<and>
       set (table_entries st') = (\<lambda>(db, tbl). full_name db tbl) ` set ts) \<and>
    (sum_list (map (\<lambda>(db, tbl). length (full_name db tbl) + 1) ts) < STATE_TABLES_BUF \<longrightarrow> \<not> tables_truncated st')"
proof -
  let ?st = "state_begin_statement st with_start now"
  have inv: "state_inv ?st" by (rule state_inv_begin [OF assms(1)])
  have empty: "table_entries ?st = []" "\<not> tables_truncated ?st" "tables_len ?st = 0"
    by (simp_all add: table_entries_def state_begin_statement_def)
  show ?thesis
    using recorder.add_all_sound [OF inv assms(2)] recorder.add_all_exact [OF inv assms(2)]
      add_tables_room [OF inv assms(2)]
    by (auto simp: st'_def add_tables_all empty foldl_insert_entry)
qed

section \<open>Properties\<close>

text \<open>
  (C29) No operation on a connection's state ever writes past its two arrays: starting from the zeroed
  element of the map, whatever statements, table events, schema changes and resets follow, the
  arrays keep their sizes, the recorded lengths stay below them and the schema stays terminated.
\<close>

theorem state_operations_safe:
  assumes "state_inv st"
  shows "state_inv zero_state \<and> state_inv (state_begin_statement st with_start now) \<and>
    state_inv (state_add_table st db tbl) \<and> state_inv (track_current_db st event) \<and>
    state_inv (state_reset st) \<and> length (db_text (set_current_db st db)) \<le> STATE_CURRENT_DB_BUF - 1"
  using assms
  by (simp add: state_inv_zero state_inv_begin state_inv_add_table state_inv_track_current_db state_inv_reset
      db_text_set_current_db)

theorem state_operations_safe_witness:
  "state_inv (state_add_table zero_state (replicate 4000 CHR ''x'') ''t'')"
  using state_operations_safe [OF state_inv_zero] by blast

text \<open>
  (C30) The tables of a statement.  Between \<open>state_begin_statement\<close> and the end of the statement the text
  holds the names of the table events without duplicates and none but theirs; unless
  \<open>tables_truncated\<close> is raised it holds all of them, in the order of their first events, and it is not
  raised when the names with their separators fit the array.  (Names are assumed free of commas.)
\<close>

theorem statement_tables:
  fixes st :: StatementState and ts :: "(string \<times> string) list" and with_start :: bool and now :: u64
  assumes "state_inv st" and "list_all plain_table ts"
  defines "st' \<equiv> add_tables ts (state_begin_statement st with_start now)"
  shows "distinct (table_entries st') \<and> set (table_entries st') \<subseteq> (\<lambda>(db, tbl). full_name db tbl) ` set ts \<and>
    (\<not> tables_truncated st' \<longrightarrow>
       table_entries st' = foldl insert_entry [] (map (\<lambda>(db, tbl). full_name db tbl) ts) \<and>
       set (table_entries st') = (\<lambda>(db, tbl). full_name db tbl) ` set ts) \<and>
    (sum_list (map (\<lambda>(db, tbl). length (full_name db tbl) + 1) ts) < STATE_TABLES_BUF \<longrightarrow> \<not> tables_truncated st')"
  unfolding st'_def using assms(1,2) by (rule recorded_tables)

theorem statement_tables_witness:
  "table_entries (add_tables [(''shop'', ''a''), (''crm'', ''b''), (''shop'', ''a'')] (state_begin_statement zero_state True 5)) =
     [''shop.a'', ''crm.b'']"
proof -
  let ?ts = "[(''shop'', ''a''), (''crm'', ''b''), (''shop'', ''a'')]"
  have plain: "list_all plain_table ?ts" by (simp add: plain_table_def full_name_def)
  have "sum_list (map (\<lambda>(db, tbl). length (full_name db tbl) + 1) ?ts) < STATE_TABLES_BUF"
    by (simp add: full_name_def STATE_TABLES_BUF_def)
  then show ?thesis
    using statement_tables [OF state_inv_zero plain, of True 5] by (simp add: insert_entry_def full_name_def)
qed

text \<open>
  A statement \<open>USE name\<close>, in any letter case, behind white space and parentheses, with the name
  bare or between back ticks, makes \<open>name\<close> (cut to the 191 bytes the array holds) the tracked schema,
  and leaves everything else of the state alone.
\<close>

lemma track_use_statement:
  assumes "state_inv st" and "general_command event = ''Query''"
    and "general_query event = s @ kw @ ws @ txt @ rest"
    and "list_all (\<lambda>c. is_space c \<or> c = CHR ''('') s" and "map kw_upper kw = ''USE''"
    and "list_all is_space ws" and "ws \<noteq> []" and "name \<noteq> []" and "schema_ref name txt rest"
  shows "track_current_db st event = set_current_db st name \<and>
    db_text (track_current_db st event) = take 191 name"
proof -
  have "extract_command (s @ kw @ ws @ txt @ rest) 8 = Some ''USE''"
    using assms(6,7) keyword_USE [OF assms(5)] assms(5) kw_byte_not_sep
    by (subst extract_keyword [OF separator_bytes [OF assms(4)]]) (cases ws; force)+
  moreover have "use_name (s @ kw @ ws @ txt @ rest) = Some name"
    using assms(9) use_name_statement [OF assms(4) keyword_USE(1,2) [OF assms(5)] assms(6,8)]
    by (auto simp: schema_ref_def)
  ultimately have "track_current_db st event = set_current_db st name"
    using assms(2,3) keyword_USE(4) [OF assms(5)] by (simp add: track_current_db_def general_command_is_def)
  then show ?thesis using db_text_set_current_db [OF assms(1)] by (simp add: STATE_CURRENT_DB_BUF_def)
qed

definition query_event :: "string \<Rightarrow> 32 word \<Rightarrow> mysql_event_general" where
  "query_event query err = \<lparr>general_command = ''Query'', general_query = query, general_thread_id = 7,
     general_user = ''root'', general_host = ''localhost'', general_error_code = err\<rparr>"

lemma track_use_statement_witness:
  "db_text (track_current_db zero_state (query_event '' (use   shop2;'' 0)) = ''shop2'' \<and>
   db_text (track_current_db zero_state (query_event (''USE '' @ CHR 0x60 # ''my db'' @ [CHR 0x60]) 0)) = ''my db''"
proof
  have "list_all (\<lambda>c. is_space c \<or> c = CHR ''('') '' ('' \<and> map kw_upper ''use'' = ''USE'' \<and> list_all is_space ''   '' \<and>
      schema_ref ''shop2'' ''shop2'' '';''"
    by code_simp
  then show "db_text (track_current_db zero_state (query_event '' (use   shop2;'' 0)) = ''shop2''"
    using track_use_statement [OF state_inv_zero, of "query_event '' (use   shop2;'' 0" "'' (''" "''use''" "''   ''"
        "''shop2''" "'';''" "''shop2''"]
    by (simp add: query_event_def db_text_set_current_db [OF state_inv_zero] STATE_CURRENT_DB_BUF_def)
  have "map kw_upper ''USE'' = ''USE'' \<and> list_all is_space '' '' \<and>
      schema_ref ''my db'' (CHR 0x60 # ''my db'' @ [CHR 0x60]) []"
    by code_simp
  then show "db_text (track_current_db zero_state (query_event (''USE '' @ CHR 0x60 # ''my db'' @ [CHR 0x60]) 0)) = ''my db''"
    using track_use_statement [OF state_inv_zero, of "query_event (''USE '' @ CHR 0x60 # ''my db'' @ [CHR 0x60]) 0" "[]"
        "''USE''" "'' ''" "CHR 0x60 # ''my db'' @ [CHR 0x60]" "[]" "''my db''"]
    by (simp add: query_event_def db_text_set_current_db [OF state_inv_zero] STATE_CURRENT_DB_BUF_def)
qed


text \<open>
  The state map.  A connection's entry is found as it was last stored, a connection seen for the
  first time gets the zeroed state, an entry is gone after the disconnect, and neither operation
  touches another connection.
\<close>

lemma state_map_laws:
  "fst (get_state (m(thd \<mapsto> st)) thd) = st \<and>
   fst (get_state (forget_state m thd) thd) = zero_state \<and>
   snd (get_state m thd) thd = Some (fst (get_state m thd)) \<and>
   (thd' \<noteq> thd \<longrightarrow> snd (get_state m thd) thd' = m thd' \<and> forget_state m thd thd' = m thd') \<and>
   dom (forget_state m thd) = dom m - {thd}"
  by (auto simp: get_state_def forget_state_def split: option.splits)

lemma state_map_laws_witness:
  "snd (get_state (Map.empty(3 \<mapsto> zero_state)) 5) (3 :: thd) = Some zero_state"
  using state_map_laws [where thd = 5 and thd' = 3 and m = "Map.empty(3 \<mapsto> zero_state)"] by simp

end
