(* ===== verification/Output_Escape.thy ===== *)
theory Output_Escape
  imports Trace_Prelude
begin

text \<open>
  Output escaping of \<open>core/filter_engine.cc\<close>: \<open>json_escape_append\<close> for the FILE writer and
  \<open>sql_escape_append\<close> for the TABLE writer.

  What a consumer does with the text is outside the repository, so it is a parameter here: the
  locale \<open>json_string_reader\<close> states the string rules of RFC 8259 that matter for the output, the
  locale \<open>sql_string_lexer\<close> the rules of a MySQL string literal when \<open>NO_BACKSLASH_ESCAPES\<close> is off.
  Both are shown to satisfy the contract \<open>escaped_literal\<close> with the escapers of the model, where
  the round trip is proved once.  \<open>json_read\<close> and \<open>sql_read\<close> are concrete readers that satisfy the
  two sets of rules.
\<close>

section \<open>The escapers\<close>

definition hexdig :: string where
  "hexdig = ''0123456789abcdef''"

text \<open>One round of the \<open>switch\<close> of \<open>json_escape_append\<close>.\<close>

definition json_escape_char :: "char \<Rightarrow> string" where
  "json_escape_char c =
     (if c = CHR 0x22 then [CHR 0x5C, CHR 0x22]
      else if c = CHR 0x5C then [CHR 0x5C, CHR 0x5C]
      else if c = CHR 0x08 then [CHR 0x5C, CHR ''b'']
      else if c = CHR 0x0C then [CHR 0x5C, CHR ''f'']
      else if c = CHR 0x0A then [CHR 0x5C, CHR ''n'']
      else if c = CHR 0x0D then [CHR 0x5C, CHR ''r'']
      else if c = CHR 0x09 then [CHR 0x5C, CHR ''t'']
      else if (of_char c :: nat) < 0x20 then
        [CHR 0x5C, CHR ''u'', CHR ''0'', CHR ''0'',
         hexdig ! (of_char c div 16 mod 16), hexdig ! (of_char c mod 16)]
      else [c])"

definition json_escape_append :: "string \<Rightarrow> string \<Rightarrow> string" where
  "json_escape_append out src = foldl (\<lambda>o' c. o' @ json_escape_char c) out src"

text \<open>One round of the \<open>switch\<close> of \<open>sql_escape_append\<close>; \<open>'\032'\<close> is octal, the byte 0x1A.\<close>

definition sql_escape_char :: "char \<Rightarrow> string" where
  "sql_escape_char c =
     (if c = CHR 0x27 then [CHR 0x5C, CHR 0x27]
      else if c = CHR 0x5C then [CHR 0x5C, CHR 0x5C]
      else if c = CHR 0x00 then [CHR 0x5C, CHR ''0'']
      else if c = CHR 0x0A then [CHR 0x5C, CHR ''n'']
      else if c = CHR 0x0D then [CHR 0x5C, CHR ''r'']
      else if c = CHR 0x1A then [CHR 0x5C, CHR ''Z'']
      else [c])"

definition sql_escape_append :: "string \<Rightarrow> string \<Rightarrow> string" where
  "sql_escape_append out src = foldl (\<lambda>o' c. o' @ sql_escape_char c) out src"

lemma foldl_append: "foldl (\<lambda>o' c. o' @ f c) out src = out @ concat (map f src)"
  by (induction src arbitrary: out) simp_all

lemma json_escape_append_eq: "json_escape_append out src = out @ concat (map json_escape_char src)"
  by (simp add: json_escape_append_def foldl_append)

lemma sql_escape_append_eq: "sql_escape_append out src = out @ concat (map sql_escape_char src)"
  by (simp add: sql_escape_append_def foldl_append)

section \<open>Literals that read back\<close>

locale escaped_literal =
  fixes esc :: "char \<Rightarrow> string"
    and read :: "string \<Rightarrow> (string \<times> string) option"
    and quote :: char
    and ends :: "string \<Rightarrow> bool"
  assumes read_esc: "read (esc c @ rest) = map_option (apfst (Cons c)) (read rest)"
    and read_close: "ends rest \<Longrightarrow> read (quote # rest) = Some ([], rest)"
begin

lemma read_escaped:
  "ends rest \<Longrightarrow> read (concat (map esc s) @ quote # rest) = Some (s, rest)"
  by (induction s) (simp_all add: read_esc read_close)

text \<open>Two texts with the same escaped form are the same text.\<close>

lemma escape_injective:
  "ends [] \<Longrightarrow> concat (map esc s) = concat (map esc t) \<Longrightarrow> s = t"
  by (metis read_escaped option.inject prod.inject)

end

locale json_string_reader =
  fixes read :: "string \<Rightarrow> (string \<times> string) option"
  assumes json_close: "read (CHR 0x22 # rest) = Some ([], rest)"
    and json_plain: "c \<noteq> CHR 0x22 \<Longrightarrow> c \<noteq> CHR 0x5C \<Longrightarrow> (0x20 :: nat) \<le> of_char c \<Longrightarrow>
      read (c # rest) = map_option (apfst (Cons c)) (read rest)"
    and json_short: "(e, c) \<in> set (zip [CHR 0x22, CHR 0x5C, CHR ''b'', CHR ''f'', CHR ''n'', CHR ''r'', CHR ''t'']
        [CHR 0x22, CHR 0x5C, CHR 0x08, CHR 0x0C, CHR 0x0A, CHR 0x0D, CHR 0x09]) \<Longrightarrow>
      read (CHR 0x5C # e # rest) = map_option (apfst (Cons c)) (read rest)"
    and json_unicode: "h < 8 \<Longrightarrow> l < 16 \<Longrightarrow>
      read ([CHR 0x5C, CHR ''u'', CHR ''0'', CHR ''0'', hexdig ! h, hexdig ! l] @ rest) =
        map_option (apfst (Cons (char_of (16 * h + l)))) (read rest)"

sublocale json_string_reader \<subseteq> json: escaped_literal json_escape_char read "CHR 0x22" "\<lambda>_. True"
proof
  fix c rest
  have "(of_char c :: nat) div 16 mod 16 = of_char c div 16"
    using of_char_less [of c] by (intro mod_less) linarith
  then have "char_of (16 * (of_char c div 16 mod 16) + of_char c mod 16 :: nat) = c"
    by (simp only: mult_div_mod_eq char_of_char)
  then show "read (json_escape_char c @ rest) = map_option (apfst (Cons c)) (read rest)"
    using json_unicode [of "of_char c div 16 mod 16" "of_char c mod 16" rest]
    by (auto simp: json_escape_char_def json_short json_plain)
qed (rule json_close)

locale sql_string_lexer =
  fixes scan :: "string \<Rightarrow> (string \<times> string) option"
  assumes sql_close: "rest = [] \<or> hd rest \<noteq> CHR 0x27 \<Longrightarrow> scan (CHR 0x27 # rest) = Some ([], rest)"
    and sql_plain: "c \<noteq> CHR 0x27 \<Longrightarrow> c \<noteq> CHR 0x5C \<Longrightarrow>
      scan (c # rest) = map_option (apfst (Cons c)) (scan rest)"
    and sql_backslash: "(e, c) \<in> set (zip [CHR ''0'', CHR 0x27, CHR 0x22, CHR ''b'', CHR ''n'', CHR ''r'', CHR ''t'', CHR ''Z'', CHR 0x5C]
        [CHR 0x00, CHR 0x27, CHR 0x22, CHR 0x08, CHR 0x0A, CHR 0x0D, CHR 0x09, CHR 0x1A, CHR 0x5C]) \<Longrightarrow>
      scan (CHR 0x5C # e # rest) = map_option (apfst (Cons c)) (scan rest)"

sublocale sql_string_lexer \<subseteq> sql: escaped_literal sql_escape_char scan "CHR 0x27" "\<lambda>rest. rest = [] \<or> hd rest \<noteq> CHR 0x27"
  by unfold_locales (auto simp: sql_escape_char_def sql_backslash sql_plain sql_close)

context json_string_reader
begin

lemma read_json_escape: "read (json_escape_append [] s @ CHR 0x22 # rest) = Some (s, rest)"
  using json.read_escaped by (simp add: json_escape_append_eq)

end

context sql_string_lexer
begin

lemma scan_sql_escape:
  "rest = [] \<or> hd rest \<noteq> CHR 0x27 \<Longrightarrow> scan (sql_escape_append [] s @ CHR 0x27 # rest) = Some (s, rest)"
  using sql.read_escaped [of rest s] by (simp add: sql_escape_append_eq)

end

section \<open>Concrete readers\<close>

text \<open>The value of a lower-case hexadecimal digit, as a position in \<^const>\<open>hexdig\<close>.\<close>

definition hex_val :: "char \<Rightarrow> nat option" where
  "hex_val c = (if c \<in> set hexdig then Some (length (takeWhile (\<lambda>d. d \<noteq> c) hexdig)) else None)"

fun json_read :: "string \<Rightarrow> (string \<times> string) option" where
  "json_read [] = None"
| "json_read (c # s) =
     (if c = CHR 0x22 then Some ([], s)
      else if c = CHR 0x5C then
        (case s of
           [] \<Rightarrow> None
         | e # s1 \<Rightarrow>
             (case map_of (zip [CHR 0x22, CHR 0x5C, CHR ''/'', CHR ''b'', CHR ''f'', CHR ''n'', CHR ''r'', CHR ''t'']
                 [CHR 0x22, CHR 0x5C, CHR ''/'', CHR 0x08, CHR 0x0C, CHR 0x0A, CHR 0x0D, CHR 0x09]) e of
                Some d \<Rightarrow> map_option (apfst (Cons d)) (json_read s1)
              | None \<Rightarrow>
                  (case s1 of
                     z1 # z2 # h # l # s2 \<Rightarrow>
                       if e = CHR ''u'' \<and> z1 = CHR ''0'' \<and> z2 = CHR ''0'' then
                         (case (hex_val h, hex_val l) of
                            (Some vh, Some vl) \<Rightarrow>
                              map_option (apfst (Cons (char_of (16 * vh + vl)))) (json_read s2)
                          | _ \<Rightarrow> None)
                       else None
                   | _ \<Rightarrow> None)))
      else if (of_char c :: nat) < 0x20 then None
      else map_option (apfst (Cons c)) (json_read s))"

fun sql_read :: "string \<Rightarrow> (string \<times> string) option" where
  "sql_read [] = None"
| "sql_read (c # s) =
     (if c = CHR 0x27 then
        (case s of
           [] \<Rightarrow> Some ([], [])
         | d # s1 \<Rightarrow> if d = CHR 0x27 then map_option (apfst (Cons CHR 0x27)) (sql_read s1) else Some ([], s))
      else if c = CHR 0x5C then
        (case s of
           [] \<Rightarrow> None
         | e # s1 \<Rightarrow>
             map_option (apfst (Cons
               (case map_of (zip [CHR ''0'', CHR ''b'', CHR ''n'', CHR ''r'', CHR ''t'', CHR ''Z'']
                   [CHR 0x00, CHR 0x08, CHR 0x0A, CHR 0x0D, CHR 0x09, CHR 0x1A]) e of
                  Some d \<Rightarrow> d | None \<Rightarrow> e))) (sql_read s1))
      else map_option (apfst (Cons c)) (sql_read s))"

lemma hex_val_nth: "i < 16 \<Longrightarrow> hex_val (hexdig ! i) = Some i"
proof -
  assume "i < 16"
  moreover have "list_all (\<lambda>i. hex_val (hexdig ! i) = Some i) [0..<16]" by code_simp
  ultimately show ?thesis by (simp add: list_all_iff)
qed

interpretation json_reader: json_string_reader json_read
proof
  fix h l :: nat and rest
  assume "h < 8" "l < 16"
  then show "json_read ([CHR 0x5C, CHR ''u'', CHR ''0'', CHR ''0'', hexdig ! h, hexdig ! l] @ rest) =
      map_option (apfst (Cons (char_of (16 * h + l)))) (json_read rest)"
    by (simp add: hex_val_nth)
qed auto

interpretation sql_reader: sql_string_lexer sql_read
  by unfold_locales (auto split: list.split)

section \<open>Properties of the escapers\<close>

text \<open>Injection safety of the TABLE writer's escaping.  Whatever bytes \<open>s\<close> holds, a lexer that
  follows the rules of a backslash-escaped SQL string literal reads the escaped text back as \<open>s\<close>
  and stops exactly at the quote the writer appended: no traced text can close the literal early.\<close>

lemma sql_escape_no_breakout:
  assumes "sql_string_lexer scan" and "rest = [] \<or> hd rest \<noteq> CHR 0x27"
  shows "scan (sql_escape_append [] s @ CHR 0x27 # rest) = Some (s, rest)"
  using assms by (rule sql_string_lexer.scan_sql_escape)

lemma sql_escape_no_breakout_witness:
  "sql_read (sql_escape_append [] (CHR 0x27 # '' OR 1=1 -- '') @ CHR 0x27 # '')'') =
     Some (CHR 0x27 # '' OR 1=1 -- '', '')'')"
  by (rule sql_escape_no_breakout [OF sql_reader.sql_string_lexer_axioms]) simp

text \<open>A reader of JSON strings (RFC 8259) recovers the logged bytes exactly from the FILE
  writer's escaping and stops at the quote the writer appended.\<close>

lemma json_escape_roundtrip:
  assumes "json_string_reader read"
  shows "read (json_escape_append [] s @ CHR 0x22 # rest) = Some (s, rest)"
  using assms by (rule json_string_reader.read_json_escape)

lemma json_escape_roundtrip_witness:
  "json_read (json_escape_append [] [CHR ''a'', CHR 0x22, CHR 0x0A, CHR 0x01] @ CHR 0x22 # ''}'') =
     Some ([CHR ''a'', CHR 0x22, CHR 0x0A, CHR 0x01], ''}'')"
  by (rule json_escape_roundtrip [OF json_reader.json_string_reader_axioms])

text \<open>Escaped text has no control byte; in particular no line feed.\<close>

lemma hexdig_printable: "i < 16 \<Longrightarrow> (0x20 :: nat) \<le> of_char (hexdig ! i)"
proof -
  assume "i < 16"
  moreover have "list_all (\<lambda>i. (0x20 :: nat) \<le> of_char (hexdig ! i)) [0..<16]" by code_simp
  ultimately show ?thesis by (simp add: list_all_iff)
qed

lemma json_escape_char_printable: "d \<in> set (json_escape_char c) \<Longrightarrow> (0x20 :: nat) \<le> of_char d"
  by (auto simp: json_escape_char_def hexdig_printable split: if_splits)

text \<open>Everything \<open>json_escape_append\<close> adds is free of control bytes (so of raw newlines), and
  it only appends: the text already in \<open>*out\<close> is kept.  This is what makes one line of the log one
  event.\<close>

lemma json_escape_no_control:
  "\<exists>added. json_escape_append out s = out @ added \<and> list_all (\<lambda>d. (0x20 :: nat) \<le> of_char d) added"
  by (auto simp: json_escape_append_eq list_all_iff dest: json_escape_char_printable)

end
