(* ===== verification/Plugin_Output.thy ===== *)
theory Plugin_Output
  imports Statement_State Output_Escape
begin

text \<open>
  The text of a log event, as \<open>handle_status_event\<close> of \<open>src/selective_trace_mysql.cc\<close> assembles it:
  the timestamp, the duration, the JSON line of the FILE writer and the \<open>INSERT\<close> of the TABLE writer.
  \<open>snprintf\<close> cuts its result to the size of the buffer, as in C.

  Durations are doubles in the code.  A nonnegative double is kept here as the pair \<open>(m, k)\<close> of the
  value \<open>m / 2 ^ k\<close>; conversion, division and \<open>%.3f\<close> round to nearest, ties to even, as IEEE 754 and
  the C library do.
\<close>

section \<open>Formatting\<close>

definition snprintf :: "nat \<Rightarrow> string \<Rightarrow> string" where
  "snprintf buf_size s = take (buf_size - 1) s"

text \<open>\<open>%lu\<close> and \<open>%llu\<close>, \<open>%d\<close>, and \<open>%0wd\<close>.\<close>

definition fmt_u64 :: "u64 \<Rightarrow> string" where
  "fmt_u64 n = dec_of_nat (unat n)"

definition fmt_int :: "int \<Rightarrow> string" where
  "fmt_int i = (if i < 0 then CHR ''-'' # dec_of_nat (nat (- i)) else dec_of_nat (nat i))"

definition fmt_int0 :: "nat \<Rightarrow> int \<Rightarrow> string" where
  "fmt_int0 w i =
     (if i < 0 then let d = dec_of_nat (nat (- i)) in CHR ''-'' # replicate (w - 1 - length d) CHR ''0'' @ d
      else let d = dec_of_nat (nat i) in replicate (w - length d) CHR ''0'' @ d)"

record tm =
  tm_year :: int
  tm_mon :: int
  tm_mday :: int
  tm_hour :: int
  tm_min :: int
  tm_sec :: int

definition fmt_ts :: "tm \<Rightarrow> int \<Rightarrow> string" where
  "fmt_ts t tv_usec = snprintf 40
     (fmt_int0 4 (tm_year t + 1900) @ ''-'' @ fmt_int0 2 (tm_mon t + 1) @ ''-'' @ fmt_int0 2 (tm_mday t) @ '' '' @
      fmt_int0 2 (tm_hour t) @ '':'' @ fmt_int0 2 (tm_min t) @ '':'' @ fmt_int0 2 (tm_sec t) @ ''.'' @
      fmt_int0 3 (tv_usec div 1000))"

type_synonym double = "int \<times> nat"

text \<open>The quotient rounded to nearest, ties to even.\<close>

definition div_even :: "int \<Rightarrow> int \<Rightarrow> int" where
  "div_even n d =
     (let q = n div d; r = n mod d in
      if 2 * r < d then q else if 2 * r > d then q + 1 else if even q then q else q + 1)"

text \<open>\<open>(double) n\<close> for a 64-bit \<open>n\<close>: 53 significant bits are kept.\<close>

fun excess_bits :: "nat \<Rightarrow> int \<Rightarrow> nat" where
  "excess_bits 0 n = 0"
| "excess_bits (Suc fuel) n = (if n < 2 ^ 53 then 0 else Suc (excess_bits fuel (n div 2)))"

definition double_of_u64 :: "u64 \<Rightarrow> int" where
  "double_of_u64 w = (let n = uint w; k = excess_bits 11 n in div_even n (2 ^ k) * 2 ^ k)"

text \<open>\<open>x / 1e6\<close>: the least scale that gives 53 significant bits.\<close>

fun scale_bits :: "nat \<Rightarrow> int \<Rightarrow> int \<Rightarrow> nat" where
  "scale_bits 0 n d = 0"
| "scale_bits (Suc fuel) n d = (if 2 ^ 52 * d \<le> n then 0 else Suc (scale_bits fuel (2 * n) d))"

definition double_div :: "int \<Rightarrow> int \<Rightarrow> double" where
  "double_div n d = (if n = 0 then (0, 0) else let k = scale_bits 80 n d in (div_even (n * 2 ^ k) d, k))"

definition elapsed_ms :: "u64 \<Rightarrow> u64 \<Rightarrow> double" where
  "elapsed_ms now start = double_div (double_of_u64 (now - start)) 1000000"

text \<open>\<open>d < (double) n\<close>, and \<open>%.3f\<close>.\<close>

definition double_less :: "double \<Rightarrow> u32 \<Rightarrow> bool" where
  "double_less d n \<longleftrightarrow> fst d < uint n * 2 ^ snd d"

definition thousandths :: "double \<Rightarrow> int" where
  "thousandths d = div_even (fst d * 1000) (2 ^ snd d)"

definition fmt_f3 :: "double \<Rightarrow> string" where
  "fmt_f3 d = fmt_int (thousandths d div 1000) @ ''.'' @ fmt_int0 3 (thousandths d mod 1000)"

section \<open>The two formats\<close>

text \<open>The values the assembly reads: all of one event.  \<open>duration\<close> is absent where the code holds \<open>-1\<close>.\<close>

record log_event =
  le_ts :: string
  le_conn_id :: u64
  le_seq :: u64
  le_user_host :: string
  le_db :: string
  le_have_tables :: bool
  le_tables :: string
  le_truncated :: bool
  le_command :: string
  le_duration :: "double option"
  le_error_code :: int
  le_query :: string

text \<open>The loop over the comma separated table text.\<close>

function table_items :: "string \<Rightarrow> string list" where
  "table_items [] = []"
| "table_items (c # s) =
     takeWhile (\<lambda>d. d \<noteq> CHR '','') (c # s) #
     (case dropWhile (\<lambda>d. d \<noteq> CHR '','') (c # s) of [] \<Rightarrow> [] | _ # r \<Rightarrow> table_items r)"
  by pat_completeness auto
termination table_items
  by (relation "measure length") (auto dest: length_dropWhile_Cons split: if_splits)

declare table_items.simps(2) [simp del]

definition json_item :: "string \<Rightarrow> string" where
  "json_item s = CHR 0x22 # json_escape_append [] s @ [CHR 0x22]"

definition json_line :: "log_event \<Rightarrow> string" where
  "json_line e =
     ''{\"ts\":\"'' @ le_ts e @
     snprintf 64 (''\",\"conn_id\":'' @ fmt_u64 (le_conn_id e) @ '',\"query_seq\":'' @ fmt_u64 (le_seq e)) @
     '',\"user\":\"'' @ json_escape_append [] (le_user_host e) @
     ''\",\"db\":\"'' @ json_escape_append [] (le_db e) @
     ''\",\"tables\":['' @
     (if le_have_tables e then join_with CHR '','' (map json_item (table_items (le_tables e))) else []) @
     '']'' @
     (if le_have_tables e \<and> le_truncated e then '',\"tables_truncated\":true'' else []) @
     '',\"command\":\"'' @ le_command e @
     snprintf 64 (case le_duration e of
        Some d \<Rightarrow> ''\",\"duration_ms\":'' @ fmt_f3 d
      | None \<Rightarrow> ''\",\"duration_ms\":null'') @
     snprintf 64 ('',\"error_code\":'' @ fmt_int (le_error_code e) @ '',\"query\":\"'') @
     json_escape_append [] (le_query e) @ ''\"}'' @ [CHR 0x0A]"

definition insert_columns :: string where
  "insert_columns =
     ''('' @ join_with CHR '','' (map (\<lambda>c. CHR 0x60 # c @ [CHR 0x60])
       [''ts'', ''conn_id'', ''query_id'', ''user'', ''db'', ''tables_involved'', ''command'', ''duration_ms'',
        ''error_code'', ''query'']) @ '')''"

definition insert_sql :: "log_event \<Rightarrow> string" where
  "insert_sql e =
     ''INSERT INTO mysql.selective_trace_events '' @ insert_columns @ '' VALUES ('' @ [CHR 0x27] @
     le_ts e @
     snprintf 64 (CHR 0x27 # '','' @ fmt_u64 (le_conn_id e) @ '','' @ fmt_u64 (le_seq e) @ '','' @ [CHR 0x27]) @
     sql_escape_append [] (le_user_host e) @ [CHR 0x27, CHR '','', CHR 0x27] @
     sql_escape_append [] (le_db e) @ [CHR 0x27, CHR '','', CHR 0x27] @
     (if le_have_tables e
      then sql_escape_append [] (le_tables e) @ (if le_truncated e then '',...'' else []) else []) @
     [CHR 0x27, CHR '','', CHR 0x27] @ le_command e @ [CHR 0x27, CHR '',''] @
     snprintf 64 (case le_duration e of Some d \<Rightarrow> fmt_f3 d | None \<Rightarrow> ''NULL'') @
     snprintf 64 ('','' @ fmt_int (le_error_code e) @ '','' @ [CHR 0x27]) @
     sql_escape_append [] (le_query e) @ CHR 0x27 # '')''"

section \<open>What the pieces are made of\<close>

lemma snprintf_id: "length s < n \<Longrightarrow> snprintf n s = s"
  by (simp add: snprintf_def)

lemma length_dec_of_nat: "n < 10 ^ k \<Longrightarrow> 0 < k \<Longrightarrow> length (dec_of_nat n) \<le> k"
proof (induction n arbitrary: k rule: dec_of_nat.induct)
  case (1 n)
  show ?case
  proof (cases "n < 10")
    case True
    then show ?thesis using 1(3) by (subst dec_of_nat.simps) simp
  next
    case False
    obtain j where j: "k = Suc j" using 1(3) by (cases k) auto
    have "0 < j" using False 1(2) by (cases j) (auto simp: j)
    moreover have "n div 10 < 10 ^ j" using 1(2) by (simp add: j less_mult_imp_div_less)
    ultimately show ?thesis using 1(1) [OF False, of j] False by (subst dec_of_nat.simps) (simp add: j)
  qed
qed

lemma length_fmt_u64: "length (fmt_u64 n) \<le> 20"
proof -
  have "unat n < 2 ^ LENGTH(64)" by (rule unsigned_less)
  then have "unat n < 10 ^ 20" by simp
  then show ?thesis unfolding fmt_u64_def by (rule length_dec_of_nat) simp
qed

lemma fmt_u64_digits: "list_all is_digit (fmt_u64 n)"
  by (auto simp: fmt_u64_def list_all_iff dec_of_nat_digits)

definition number_byte :: "char \<Rightarrow> bool" where
  "number_byte c \<longleftrightarrow> is_digit c \<or> c = CHR ''-'' \<or> c = CHR ''.''"

lemma digits_number: "list_all is_digit s \<Longrightarrow> list_all number_byte s"
  by (auto simp: list_all_iff number_byte_def)

lemma dec_number [simp]: "list_all number_byte (dec_of_nat n)"
  by (auto simp: list_all_iff number_byte_def dest: dec_of_nat_digits)

lemma zeros_number [simp]: "list_all number_byte (replicate n CHR ''0'')"
  by (simp add: list_all_iff number_byte_def is_digit_def)

lemma sign_number [simp]: "number_byte CHR ''-''" "number_byte CHR ''.''"
  by (simp_all add: number_byte_def)

lemma fmt_int_number [simp]: "list_all number_byte (fmt_int i)"
  by (simp add: fmt_int_def)

lemma fmt_int0_number [simp]: "list_all number_byte (fmt_int0 w i)"
  by (simp add: fmt_int0_def Let_def)

lemma fmt_f3_number [simp]: "list_all number_byte (fmt_f3 d)"
  by (simp add: fmt_f3_def)

lemma length_fmt_int: "\<bar>i\<bar> < 10 ^ k \<Longrightarrow> 0 < k \<Longrightarrow> length (fmt_int i) \<le> k + 1"
proof -
  assume i: "\<bar>i\<bar> < 10 ^ k" and k: "0 < k"
  have "nat \<bar>i\<bar> < 10 ^ k" using i by (simp add: nat_less_iff)
  from length_dec_of_nat [OF this k] show ?thesis by (auto simp: fmt_int_def abs_if split: if_splits)
qed

lemma length_fmt_int0_3: "0 \<le> i \<Longrightarrow> i < 1000 \<Longrightarrow> length (fmt_int0 3 i) = 3"
  using length_dec_of_nat [of "nat i" 3] by (simp add: fmt_int0_def Let_def nat_less_iff)

definition duration_ok :: "double \<Rightarrow> bool" where
  "duration_ok d \<longleftrightarrow> 0 \<le> thousandths d \<and> thousandths d < 10 ^ 20"

lemma length_fmt_f3: "duration_ok d \<Longrightarrow> length (fmt_f3 d) \<le> 22"
proof -
  assume d: "duration_ok d"
  then have "thousandths d div 1000 < 10 ^ 17" "0 \<le> thousandths d div 1000"
    by (simp_all add: duration_ok_def pos_imp_zdiv_nonneg_iff) linarith
  then have "\<bar>thousandths d div 1000\<bar> < 10 ^ 17" by simp
  then have "length (fmt_int (thousandths d div 1000)) \<le> 18" using length_fmt_int [of _ 17] by fastforce
  then show ?thesis using length_fmt_int0_3 [of "thousandths d mod 1000"] by (simp add: fmt_f3_def)
qed

text \<open>Bytes that neither format escapes.\<close>

definition plain_byte :: "char \<Rightarrow> bool" where
  "plain_byte c \<longleftrightarrow> is_digit c \<or> is_upper c \<or> c = CHR ''_'' \<or> c = CHR ''-'' \<or> c = CHR '':'' \<or> c = CHR '' '' \<or> c = CHR ''.''"

lemma plain_byte_escapes:
  "plain_byte c \<Longrightarrow> json_escape_char c = [c] \<and> sql_escape_char c = [c] \<and> c \<noteq> CHR 0x0A"
proof -
  have "\<forall>c. plain_byte c \<longrightarrow> json_escape_char c = [c] \<and> sql_escape_char c = [c] \<and> c \<noteq> CHR 0x0A" by code_simp
  then show "plain_byte c \<Longrightarrow> json_escape_char c = [c] \<and> sql_escape_char c = [c] \<and> c \<noteq> CHR 0x0A" by blast
qed

lemma plain_escapes:
  "list_all plain_byte s \<Longrightarrow> json_escape_append [] s = s \<and> sql_escape_append [] s = s"
  by (induction s) (simp_all add: json_escape_append_eq sql_escape_append_eq plain_byte_escapes)

lemma number_plain: "list_all number_byte s \<Longrightarrow> list_all plain_byte s"
  by (auto simp: list_all_iff number_byte_def plain_byte_def)

lemma fmt_ts_plain: "list_all plain_byte (fmt_ts t u)"
proof -
  have "list_all plain_byte (fmt_int0 w i)" for w i by (rule number_plain) simp
  moreover have "list_all P (take n s)" if "list_all P s" for P :: "char \<Rightarrow> bool" and n s
    using that set_take_subset by (fastforce simp: list_all_iff)
  ultimately show ?thesis by (simp add: fmt_ts_def snprintf_def plain_byte_def)
qed

lemma kw_text_plain: "kw_text s \<Longrightarrow> list_all plain_byte s"
  by (auto simp: kw_text_def list_all_iff plain_byte_def)

section \<open>Reading a JSON line back\<close>

text \<open>A reader for the lines of the log, over a reader \<open>read\<close> of JSON strings that starts behind the
  opening quote: it checks the keys and the punctuation and returns the values.\<close>

fun strip :: "string \<Rightarrow> string \<Rightarrow> string option" where
  "strip [] s = Some s"
| "strip (p # ps) [] = None"
| "strip (p # ps) (c # s) = (if p = c then strip ps s else None)"

lemma strip_append [simp]: "strip p (p @ s) = Some s"
  by (induction p) simp_all

type_synonym string_reader = "string \<Rightarrow> (string \<times> string) option"

fun read_items :: "string_reader \<Rightarrow> nat \<Rightarrow> string \<Rightarrow> (string list \<times> string) option" where
  "read_items read 0 s = None"
| "read_items read (Suc n) s =
     (case read s of
        None \<Rightarrow> None
      | Some (x, r) \<Rightarrow>
          (case strip [CHR '','', CHR 0x22] r of
             Some r' \<Rightarrow> map_option (apfst (Cons x)) (read_items read n r')
           | None \<Rightarrow> map_option (Pair [x]) (strip '']'' r)))"

definition read_array :: "string_reader \<Rightarrow> string \<Rightarrow> (string list \<times> string) option" where
  "read_array read s =
     (case strip [CHR 0x22] s of
        Some r \<Rightarrow> read_items read (length r) r
      | None \<Rightarrow> map_option (Pair []) (strip '']'' s))"

definition read_number :: "string \<Rightarrow> string \<times> string" where
  "read_number s = (takeWhile (\<lambda>c. c \<noteq> CHR '','') s, dropWhile (\<lambda>c. c \<noteq> CHR '','') s)"

record json_fields =
  jf_ts :: string
  jf_conn_id :: string
  jf_seq :: string
  jf_user :: string
  jf_db :: string
  jf_tables :: "string list"
  jf_truncated :: bool
  jf_command :: string
  jf_duration :: string
  jf_error_code :: string
  jf_query :: string

definition read_line :: "string_reader \<Rightarrow> string \<Rightarrow> json_fields option" where
  "read_line read line =
     Option.bind (strip ''{\"ts\":\"'' line) (\<lambda>s. Option.bind (read s) (\<lambda>(ts, s).
     Option.bind (strip '',\"conn_id\":'' s) (\<lambda>s. let (conn, s) = read_number s in
     Option.bind (strip '',\"query_seq\":'' s) (\<lambda>s. let (sq, s) = read_number s in
     Option.bind (strip '',\"user\":\"'' s) (\<lambda>s. Option.bind (read s) (\<lambda>(user, s).
     Option.bind (strip '',\"db\":\"'' s) (\<lambda>s. Option.bind (read s) (\<lambda>(db, s).
     Option.bind (strip '',\"tables\":['' s) (\<lambda>s. Option.bind (read_array read s) (\<lambda>(tbls, s).
     let (trunc, s) = (case strip '',\"tables_truncated\":true'' s of Some s' \<Rightarrow> (True, s') | None \<Rightarrow> (False, s)) in
     Option.bind (strip '',\"command\":\"'' s) (\<lambda>s. Option.bind (read s) (\<lambda>(cmd, s).
     Option.bind (strip '',\"duration_ms\":'' s) (\<lambda>s. let (dur, s) = read_number s in
     Option.bind (strip '',\"error_code\":'' s) (\<lambda>s. let (err, s) = read_number s in
     Option.bind (strip '',\"query\":\"'' s) (\<lambda>s. Option.bind (read s) (\<lambda>(query, s).
     if s = CHR ''}'' # [CHR 0x0A]
     then Some \<lparr>jf_ts = ts, jf_conn_id = conn, jf_seq = sq, jf_user = user, jf_db = db, jf_tables = tbls,
                jf_truncated = trunc, jf_command = cmd, jf_duration = dur, jf_error_code = err, jf_query = query\<rparr>
     else None))))))))))))))))"

lemma read_number_sep: "CHR '','' \<notin> set n \<Longrightarrow> read_number (n @ CHR '','' # s) = (n, CHR '','' # s)"
  by (simp add: read_number_def takeWhile_sep dropWhile_sep)

lemma number_no_comma: "list_all number_byte s \<Longrightarrow> CHR '','' \<notin> set s"
  by (auto simp: list_all_iff number_byte_def is_digit_def)

context json_string_reader
begin

lemma read_plain: "list_all plain_byte s \<Longrightarrow> read (s @ CHR 0x22 # rest) = Some (s, rest)"
  using read_json_escape [of s rest] plain_escapes [of s] by simp

lemma read_items_join:
  "xs \<noteq> [] \<Longrightarrow> length xs \<le> n \<Longrightarrow>
   read_items read n (tl (join_with CHR '','' (map json_item xs)) @ CHR '']'' # rest) = Some (xs, rest)"
proof (induction xs arbitrary: n)
  case (Cons x xs)
  obtain m where n: "n = Suc m" using Cons.prems(2) by (cases n) auto
  show ?case
  proof (cases xs)
    case Nil
    then show ?thesis by (simp add: n json_item_def read_json_escape)
  next
    case ys: (Cons y ys)
    define J where "J = tl (join_with CHR '','' (map json_item xs))"
    have "join_with CHR '','' (map json_item xs) = CHR 0x22 # J"
      by (cases ys) (simp_all add: ys json_item_def J_def)
    then have "join_with CHR '','' (map json_item (x # xs)) = json_item x @ CHR '','' # CHR 0x22 # J"
      using ys by (simp add: join_with_Cons)
    moreover have "read_items read m (J @ CHR '']'' # rest) = Some (xs, rest)"
      using Cons.IH [of m] Cons.prems(2) ys by (simp add: n J_def)
    ultimately show ?thesis by (simp add: n json_item_def [of x] read_json_escape del: join_with.simps list.map)
  qed
qed simp

lemma length_join_items: "length xs \<le> length (join_with CHR '','' (map json_item xs))"
  by (induction xs rule: induct_list012) (simp_all add: json_item_def)

lemma read_array_join:
  "read_array read (join_with CHR '','' (map json_item xs) @ CHR '']'' # rest) = Some (xs, rest)"
proof (cases xs)
  case Nil
  then show ?thesis by (simp add: read_array_def)
next
  case (Cons x ys)
  define J where "J = tl (join_with CHR '','' (map json_item xs))"
  have j: "join_with CHR '','' (map json_item xs) = CHR 0x22 # J"
    by (cases ys) (simp_all add: Cons json_item_def J_def)
  then have "length xs \<le> length (J @ CHR '']'' # rest)" using length_join_items [of xs] by simp
  then have "read_items read (length (J @ CHR '']'' # rest)) (J @ CHR '']'' # rest) = Some (xs, rest)"
    unfolding J_def using Cons by (intro read_items_join) auto
  then show ?thesis unfolding j by (simp add: read_array_def)
qed

end

text \<open>Events whose numbers fit the buffers of 64 bytes.\<close>

definition printable :: "log_event \<Rightarrow> bool" where
  "printable e \<longleftrightarrow> list_all plain_byte (le_ts e) \<and> kw_text (le_command e) \<and> unat (le_conn_id e) < 10 ^ 18 \<and>
     \<bar>le_error_code e\<bar> < 10 ^ 10 \<and> (\<forall>d. le_duration e = Some d \<longrightarrow> duration_ok d)"

definition duration_text :: "log_event \<Rightarrow> string \<Rightarrow> string" where
  "duration_text e absent = (case le_duration e of Some d \<Rightarrow> fmt_f3 d | None \<Rightarrow> absent)"

lemma length_numbers:
  assumes "printable e"
  shows "length (fmt_u64 (le_conn_id e)) + length (fmt_u64 (le_seq e)) \<le> 38" "length (fmt_int (le_error_code e)) \<le> 11"
    "length absent \<le> 22 \<Longrightarrow> length (duration_text e absent) \<le> 22"
proof -
  have "length (fmt_u64 (le_conn_id e)) \<le> 18"
    unfolding fmt_u64_def using assms by (intro length_dec_of_nat) (simp_all add: printable_def)
  then show "length (fmt_u64 (le_conn_id e)) + length (fmt_u64 (le_seq e)) \<le> 38"
    using length_fmt_u64 [of "le_seq e"] by simp
  show "length (fmt_int (le_error_code e)) \<le> 11"
    using length_fmt_int [of "le_error_code e" 10] assms by (simp add: printable_def)
  show "length absent \<le> 22 \<Longrightarrow> length (duration_text e absent) \<le> 22"
    using assms by (auto simp: printable_def duration_text_def length_fmt_f3 split: option.split)
qed

lemma json_line_eq:
  assumes "printable e"
  shows "json_line e =
     ''{\"ts\":\"'' @ le_ts e @ ''\",\"conn_id\":'' @ fmt_u64 (le_conn_id e) @ '',\"query_seq\":'' @ fmt_u64 (le_seq e) @
     '',\"user\":\"'' @ json_escape_append [] (le_user_host e) @
     ''\",\"db\":\"'' @ json_escape_append [] (le_db e) @
     ''\",\"tables\":['' @
     join_with CHR '','' (map json_item (if le_have_tables e then table_items (le_tables e) else [])) @ '']'' @
     (if le_have_tables e \<and> le_truncated e then '',\"tables_truncated\":true'' else []) @
     '',\"command\":\"'' @ le_command e @ ''\",\"duration_ms\":'' @ duration_text e ''null'' @
     '',\"error_code\":'' @ fmt_int (le_error_code e) @ '',\"query\":\"'' @
     json_escape_append [] (le_query e) @ ''\"}'' @ [CHR 0x0A]"
proof -
  note len = length_numbers [OF assms]
  have a: "snprintf 64 (''\",\"conn_id\":'' @ fmt_u64 (le_conn_id e) @ '',\"query_seq\":'' @ fmt_u64 (le_seq e)) =
      ''\",\"conn_id\":'' @ fmt_u64 (le_conn_id e) @ '',\"query_seq\":'' @ fmt_u64 (le_seq e)"
    using len(1) by (intro snprintf_id) simp
  have b: "snprintf 64 (case le_duration e of Some d \<Rightarrow> ''\",\"duration_ms\":'' @ fmt_f3 d | None \<Rightarrow> ''\",\"duration_ms\":null'') =
      ''\",\"duration_ms\":'' @ duration_text e ''null''"
    using len(3) [of "''null''"] by (subst snprintf_id) (auto simp: duration_text_def split: option.splits)
  have c: "snprintf 64 ('',\"error_code\":'' @ fmt_int (le_error_code e) @ '',\"query\":\"'') =
      '',\"error_code\":'' @ fmt_int (le_error_code e) @ '',\"query\":\"''"
    using len(2) by (intro snprintf_id) simp
  show ?thesis unfolding json_line_def a b c by simp
qed

context json_string_reader
begin

lemma read_json_line:
  assumes "printable e"
  shows "read_line read (json_line e) = Some
    \<lparr>jf_ts = le_ts e, jf_conn_id = fmt_u64 (le_conn_id e), jf_seq = fmt_u64 (le_seq e), jf_user = le_user_host e,
     jf_db = le_db e, jf_tables = (if le_have_tables e then table_items (le_tables e) else []),
     jf_truncated = (le_have_tables e \<and> le_truncated e), jf_command = le_command e,
     jf_duration = duration_text e ''null'', jf_error_code = fmt_int (le_error_code e), jf_query = le_query e\<rparr>"
proof -
  have num: "CHR '','' \<notin> set (fmt_u64 n)" for n
    by (rule number_no_comma [OF digits_number [OF fmt_u64_digits]])
  have err: "CHR '','' \<notin> set (fmt_int i)" for i by (rule number_no_comma) simp
  have dur: "CHR '','' \<notin> set (duration_text e ''null'')"
    by (auto simp: duration_text_def number_no_comma split: option.split)
  have ts: "list_all plain_byte (le_ts e)" and cmd: "list_all plain_byte (le_command e)"
    using assms kw_text_plain by (auto simp: printable_def)
  show ?thesis
    unfolding json_line_eq [OF assms] read_line_def
    by (simp add: read_plain [OF ts] read_plain [OF cmd] read_number_sep num err dur read_json_escape read_array_join)
qed

end

section \<open>Reading an INSERT back\<close>

record insert_values =
  iv_ts :: string
  iv_conn_id :: string
  iv_query_id :: string
  iv_user :: string
  iv_db :: string
  iv_tables :: string
  iv_command :: string
  iv_duration :: string
  iv_error_code :: string
  iv_query :: string

text \<open>A reader of the statement, over a scanner of SQL string literals that starts behind the opening
  quote: the fixed text, then ten values, then the end of the statement.\<close>

definition read_insert :: "string_reader \<Rightarrow> string \<Rightarrow> insert_values option" where
  "read_insert scan sql =
     Option.bind (strip (''INSERT INTO mysql.selective_trace_events '' @ insert_columns @ '' VALUES ('' @ [CHR 0x27]) sql) (\<lambda>s.
     Option.bind (scan s) (\<lambda>(ts, s).
     Option.bind (strip '','' s) (\<lambda>s. let (conn, s) = read_number s in
     Option.bind (strip '','' s) (\<lambda>s. let (sq, s) = read_number s in
     Option.bind (strip ('','' @ [CHR 0x27]) s) (\<lambda>s. Option.bind (scan s) (\<lambda>(user, s).
     Option.bind (strip ('','' @ [CHR 0x27]) s) (\<lambda>s. Option.bind (scan s) (\<lambda>(db, s).
     Option.bind (strip ('','' @ [CHR 0x27]) s) (\<lambda>s. Option.bind (scan s) (\<lambda>(tbls, s).
     Option.bind (strip ('','' @ [CHR 0x27]) s) (\<lambda>s. Option.bind (scan s) (\<lambda>(cmd, s).
     Option.bind (strip '','' s) (\<lambda>s. let (dur, s) = read_number s in
     Option.bind (strip '','' s) (\<lambda>s. let (err, s) = read_number s in
     Option.bind (strip ('','' @ [CHR 0x27]) s) (\<lambda>s. Option.bind (scan s) (\<lambda>(query, s).
     if s = '')''
     then Some \<lparr>iv_ts = ts, iv_conn_id = conn, iv_query_id = sq, iv_user = user, iv_db = db, iv_tables = tbls,
                iv_command = cmd, iv_duration = dur, iv_error_code = err, iv_query = query\<rparr>
     else None))))))))))))))))"

lemma insert_sql_eq:
  assumes "printable e"
  shows "insert_sql e =
     (''INSERT INTO mysql.selective_trace_events '' @ insert_columns @ '' VALUES ('' @ [CHR 0x27]) @
     le_ts e @ CHR 0x27 # CHR '','' # fmt_u64 (le_conn_id e) @ CHR '','' # fmt_u64 (le_seq e) @ CHR '','' # CHR 0x27 #
     sql_escape_append [] (le_user_host e) @ CHR 0x27 # CHR '','' # CHR 0x27 #
     sql_escape_append [] (le_db e) @ CHR 0x27 # CHR '','' # CHR 0x27 #
     (if le_have_tables e
      then sql_escape_append [] (le_tables e) @ (if le_truncated e then '',...'' else []) else []) @
     CHR 0x27 # CHR '','' # CHR 0x27 # le_command e @ CHR 0x27 # CHR '','' # duration_text e ''NULL'' @
     CHR '','' # fmt_int (le_error_code e) @ CHR '','' # CHR 0x27 #
     sql_escape_append [] (le_query e) @ CHR 0x27 # '')''"
proof -
  note len = length_numbers [OF assms]
  have a: "snprintf 64 (CHR 0x27 # '','' @ fmt_u64 (le_conn_id e) @ '','' @ fmt_u64 (le_seq e) @ '','' @ [CHR 0x27]) =
      CHR 0x27 # '','' @ fmt_u64 (le_conn_id e) @ '','' @ fmt_u64 (le_seq e) @ '','' @ [CHR 0x27]"
    using len(1) by (intro snprintf_id) simp
  have b: "snprintf 64 (case le_duration e of Some d \<Rightarrow> fmt_f3 d | None \<Rightarrow> ''NULL'') = duration_text e ''NULL''"
    using len(3) [of "''NULL''"] by (subst snprintf_id) (auto simp: duration_text_def split: option.splits)
  have c: "snprintf 64 ('','' @ fmt_int (le_error_code e) @ '','' @ [CHR 0x27]) =
      '','' @ fmt_int (le_error_code e) @ '','' @ [CHR 0x27]"
    using len(2) by (intro snprintf_id) simp
  show ?thesis unfolding insert_sql_def a b c by simp
qed

lemma dots_escape: "sql_escape_append [] s @ '',...'' = sql_escape_append [] (s @ '',...'')"
  by (simp add: sql_escape_append_eq sql_escape_char_def)

context sql_string_lexer
begin

lemma scan_plain:
  "list_all plain_byte s \<Longrightarrow> rest = [] \<or> hd rest \<noteq> CHR 0x27 \<Longrightarrow> scan (s @ CHR 0x27 # rest) = Some (s, rest)"
  using scan_sql_escape [of rest s] plain_escapes [of s] by simp

lemma read_insert_sql:
  assumes "printable e"
  shows "read_insert scan (insert_sql e) = Some
    \<lparr>iv_ts = le_ts e, iv_conn_id = fmt_u64 (le_conn_id e), iv_query_id = fmt_u64 (le_seq e), iv_user = le_user_host e,
     iv_db = le_db e, iv_tables = (if le_have_tables e then le_tables e @ (if le_truncated e then '',...'' else []) else []),
     iv_command = le_command e, iv_duration = duration_text e ''NULL'',
     iv_error_code = fmt_int (le_error_code e), iv_query = le_query e\<rparr>"
proof -
  have num: "CHR '','' \<notin> set (fmt_u64 n)" for n
    by (rule number_no_comma [OF digits_number [OF fmt_u64_digits]])
  have err: "CHR '','' \<notin> set (fmt_int i)" for i by (rule number_no_comma) simp
  have dur: "CHR '','' \<notin> set (duration_text e ''NULL'')"
    by (auto simp: duration_text_def number_no_comma split: option.split)
  have ts: "list_all plain_byte (le_ts e)" and cmd: "list_all plain_byte (le_command e)"
    using assms kw_text_plain by (auto simp: printable_def)
  have tbls: "(if le_have_tables e then sql_escape_append [] (le_tables e) @ (if le_truncated e then '',...'' else []) else []) =
      sql_escape_append [] (if le_have_tables e then le_tables e @ (if le_truncated e then '',...'' else []) else [])"
    by (simp add: dots_escape sql_escape_append_eq [of "[]" "[]"])
  show ?thesis
    unfolding insert_sql_eq [OF assms] read_insert_def tbls strip_append
    by (simp add: scan_plain [OF ts] scan_plain [OF cmd] read_number_sep num err dur scan_sql_escape)
qed

end

section \<open>Durations\<close>

lemma div_even_error:
  assumes "0 < d"
  shows "2 * \<bar>div_even n d * d - n\<bar> \<le> d"
proof -
  define q r where "q = n div d" and "r = n mod d"
  have n: "n = q * d + r" "0 \<le> r" "r < d" using assms by (simp_all add: q_def r_def)
  have "div_even n d = q \<and> 2 * r \<le> d \<or> div_even n d = q + 1 \<and> d \<le> 2 * r"
    by (auto simp: div_even_def Let_def q_def r_def)
  then show ?thesis
  proof
    assume "div_even n d = q \<and> 2 * r \<le> d"
    then show ?thesis using n by simp
  next
    assume "div_even n d = q + 1 \<and> d \<le> 2 * r"
    then show ?thesis using n by (simp add: distrib_right)
  qed
qed

lemma div_even_nonneg: "0 \<le> n \<Longrightarrow> 0 < d \<Longrightarrow> 0 \<le> div_even n d"
  by (simp add: div_even_def Let_def pos_imp_zdiv_nonneg_iff)

lemma scale_bits_gt: "0 \<le> n \<Longrightarrow> n * 2 ^ m < 2 ^ 52 * d \<Longrightarrow> m < fuel \<Longrightarrow> m < scale_bits fuel n d"
proof (induction m arbitrary: n fuel)
  case 0
  then show ?case by (cases fuel) auto
next
  case (Suc m)
  obtain f where f: "fuel = Suc f" using Suc.prems(3) by (cases fuel) auto
  have "(1 :: int) \<le> 2 ^ Suc m" by (rule one_le_power) simp
  then have "n * 1 \<le> n * 2 ^ Suc m" using Suc.prems(1) by (rule mult_left_mono)
  then have "n < 2 ^ 52 * d" using Suc.prems(2) by linarith
  moreover have "m < scale_bits f (2 * n) d" using Suc f by (simp add: mult.assoc mult.left_commute)
  ultimately show ?case by (simp add: f)
qed

text \<open>The printed thousandths, in terms of the value before the division.\<close>

lemma thousandths_error:
  assumes "0 \<le> n"
  shows "\<exists>k. (n = 0 \<or> k = scale_bits 80 n 1000000) \<and>
    \<bar>1000 * thousandths (double_div n 1000000) - n\<bar> * 2 ^ k \<le> 500 * 2 ^ k + 500000"
proof (cases "n = 0")
  case True
  then show ?thesis by (intro exI [of _ 0]) (simp add: double_div_def thousandths_def div_even_def)
next
  case False
  define k where "k = scale_bits 80 n 1000000"
  define m where "m = div_even (n * 2 ^ k) 1000000"
  define t where "t = div_even (m * 1000) (2 ^ k)"
  have e1: "2 * \<bar>m * 1000000 - n * 2 ^ k\<bar> \<le> 1000000" unfolding m_def by (rule div_even_error) simp
  have e2: "2 * \<bar>t * 2 ^ k - m * 1000\<bar> \<le> 2 ^ k" unfolding t_def by (rule div_even_error) simp
  have sum: "(1000 * t - n) * 2 ^ k = 1000 * (t * 2 ^ k - m * 1000) + (m * 1000000 - n * 2 ^ k)"
    by (simp add: algebra_simps)
  have add: "\<bar>1000 * x + y\<bar> \<le> 500 * p + 500000" if "2 * \<bar>y\<bar> \<le> 1000000" "2 * \<bar>x\<bar> \<le> p" for x y p :: int
    using that by linarith
  have "\<bar>(1000 * t - n) * 2 ^ k\<bar> \<le> 500 * 2 ^ k + 500000" unfolding sum by (rule add [OF e1 e2])
  then have "\<bar>1000 * t - n\<bar> * 2 ^ k \<le> 500 * 2 ^ k + 500000" by (simp add: abs_mult)
  moreover have "thousandths (double_div n 1000000) = t"
    using False by (simp add: thousandths_def double_div_def t_def m_def k_def Let_def)
  ultimately show ?thesis using k_def by (intro exI [of _ k]) simp
qed

lemma double_of_u64_bounds: "0 \<le> double_of_u64 w \<and> double_of_u64 w \<le> 2 ^ 65"
proof -
  have ex: "excess_bits f n \<le> f" for f n by (induction f n rule: excess_bits.induct) auto
  define k where "k = excess_bits 11 (uint w)"
  define x where "x = div_even (uint w) (2 ^ k) * 2 ^ k"
  have "(2 :: int) ^ k \<le> 2 ^ 11" unfolding k_def by (rule power_increasing [OF ex]) simp
  moreover have "uint w < 2 ^ LENGTH(64)" by (rule unsigned_less)
  moreover have "2 * \<bar>x - uint w\<bar> \<le> 2 ^ k" unfolding x_def by (rule div_even_error) simp
  moreover have "0 \<le> div_even (uint w) (2 ^ k)" by (rule div_even_nonneg) simp_all
  moreover have "0 \<le> x" unfolding x_def by (intro mult_nonneg_nonneg calculation(4)) simp
  ultimately have "0 \<le> x \<and> x \<le> 2 ^ 65" by (simp add: abs_if split: if_splits)
  then show ?thesis by (simp add: double_of_u64_def Let_def k_def [symmetric] x_def)
qed

lemma elapsed_ms_ok: "duration_ok (elapsed_ms now start)"
proof -
  define n where "n = double_of_u64 (now - start)"
  have n: "0 \<le> n" "n \<le> 2 ^ 65" using double_of_u64_bounds by (simp_all add: n_def)
  obtain k :: nat where "\<bar>1000 * thousandths (double_div n 1000000) - n\<bar> * 2 ^ k \<le> 500 * 2 ^ k + 500000"
    using thousandths_error [OF n(1)] by blast
  also have "\<dots> \<le> 500500 * 2 ^ k" by simp
  finally have "\<bar>1000 * thousandths (double_div n 1000000) - n\<bar> \<le> 500500" by simp
  moreover have "0 \<le> thousandths (double_div n 1000000)"
    unfolding thousandths_def double_div_def using n(1) by (auto simp: Let_def intro!: div_even_nonneg mult_nonneg_nonneg)
  ultimately show ?thesis using n by (simp add: duration_ok_def elapsed_ms_def n_def [symmetric])
qed

lemma double_of_u64_exact: "uint w < 2 ^ 53 \<Longrightarrow> double_of_u64 w = uint w"
proof -
  assume "uint w < 2 ^ 53"
  then have "excess_bits (Suc 10) (uint w) = 0" by (simp only: excess_bits.simps if_True)
  then have "excess_bits 11 (uint w) = 0" by (simp only: eval_nat_numeral BitM.simps)
  then show ?thesis by (simp add: double_of_u64_def div_even_def)
qed

text \<open>Every byte of a line but its last is printable.\<close>

lemma json_escape_printable: "c \<in> set (json_escape_append [] s) \<Longrightarrow> c \<noteq> CHR 0x0A"
  by (auto simp: json_escape_append_eq dest: json_escape_char_printable)

lemma json_item_printable: "c \<in> set (json_item s) \<Longrightarrow> c \<noteq> CHR 0x0A"
  by (auto simp: json_item_def dest: json_escape_printable)

lemma number_printable: "list_all number_byte s \<Longrightarrow> CHR 0x0A \<notin> set s"
  by (auto simp: list_all_iff number_byte_def is_digit_def)

section \<open>Properties\<close>

text \<open>
  A JSON line reads back.  Any reader that follows RFC 8259 on string literals finds in the line
  of an event, behind the keys the plugin documents, exactly the values that went in: the bytes of
  user, schema, query and every table name, whatever they hold, and the numbers in decimal.
\<close>

lemma json_line_roundtrip:
  assumes "json_string_reader read" and "printable e"
  shows "read_line read (json_line e) = Some
    \<lparr>jf_ts = le_ts e, jf_conn_id = fmt_u64 (le_conn_id e), jf_seq = fmt_u64 (le_seq e), jf_user = le_user_host e,
     jf_db = le_db e, jf_tables = (if le_have_tables e then table_items (le_tables e) else []),
     jf_truncated = (le_have_tables e \<and> le_truncated e), jf_command = le_command e,
     jf_duration = duration_text e ''null'', jf_error_code = fmt_int (le_error_code e), jf_query = le_query e\<rparr>"
  using assms by (rule json_string_reader.read_json_line)

definition sample_event :: log_event where
  "sample_event = \<lparr>le_ts = ''2026-08-06 01:02:03.045'', le_conn_id = 12, le_seq = 3, le_user_host = ''root@h'',
     le_db = [CHR 0x22, CHR 0x27], le_have_tables = True, le_tables = ''a.b,c.d'', le_truncated = True,
     le_command = ''SELECT'', le_duration = None, le_error_code = - 3, le_query = [CHR 0x5C, CHR 0x0A, CHR 0x27]\<rparr>"

lemma sample_printable: "printable sample_event"
  by (simp add: printable_def sample_event_def plain_byte_def kw_text_def is_digit_def is_upper_def)

lemma json_line_roundtrip_witness:
  "\<exists>f. read_line json_read (json_line sample_event) = Some f \<and> jf_query f = [CHR 0x5C, CHR 0x0A, CHR 0x27] \<and>
     jf_db f = [CHR 0x22, CHR 0x27] \<and> jf_tables f = table_items ''a.b,c.d''"
  using json_line_roundtrip [OF json_reader.json_string_reader_axioms sample_printable]
  by (simp add: sample_event_def)

text \<open>
  One event, one line: the JSON text of an event ends with a newline and has no other one, whatever
  bytes the traced statement, the names and the schema hold.
\<close>

lemma json_line_single:
  assumes "printable e"
  shows "\<exists>body. json_line e = body @ [CHR 0x0A] \<and> CHR 0x0A \<notin> set body"
proof -
  have ts: "CHR 0x0A \<notin> set (le_ts e)" and cmd: "CHR 0x0A \<notin> set (le_command e)"
    using assms kw_text_plain plain_byte_escapes by (auto simp: printable_def list_all_iff)
  have num: "CHR 0x0A \<notin> set (fmt_u64 n)" for n by (rule number_printable [OF digits_number [OF fmt_u64_digits]])
  have err: "CHR 0x0A \<notin> set (fmt_int i)" for i by (rule number_printable) simp
  have dur: "CHR 0x0A \<notin> set (duration_text e ''null'')"
    by (auto simp: duration_text_def number_printable split: option.split)
  have items: "CHR 0x0A \<notin> set (join_with CHR '','' (map json_item xs))" for xs
    by (auto dest!: set_join_with json_item_printable)
  have esc: "CHR 0x0A \<notin> set (json_escape_append [] s)" for s by (auto dest: json_escape_printable)
  show ?thesis
    unfolding json_line_eq [OF assms] append_assoc [symmetric]
    by (intro exI conjI, rule refl) (simp only: set_append Un_iff list.set insert_iff empty_iff, simp add: ts cmd num err dur items esc)
qed

lemma json_line_single_witness:
  "\<exists>body. json_line sample_event = body @ [CHR 0x0A] \<and> CHR 0x0A \<notin> set body"
  by (rule json_line_single [OF sample_printable])

text \<open>
  The INSERT of an event is one statement with the ten values of the event: a scanner of SQL
  literals under the pinned \<open>sql_mode\<close> (backslash escapes on) reads back exactly the text of user, schema,
  tables, command and query, and finds the end of the statement right behind the last literal, so
  nothing in a traced query can add to the statement.
\<close>

lemma insert_sql_roundtrip:
  assumes "sql_string_lexer scan" and "printable e"
  shows "read_insert scan (insert_sql e) = Some
    \<lparr>iv_ts = le_ts e, iv_conn_id = fmt_u64 (le_conn_id e), iv_query_id = fmt_u64 (le_seq e), iv_user = le_user_host e,
     iv_db = le_db e, iv_tables = (if le_have_tables e then le_tables e @ (if le_truncated e then '',...'' else []) else []),
     iv_command = le_command e, iv_duration = duration_text e ''NULL'',
     iv_error_code = fmt_int (le_error_code e), iv_query = le_query e\<rparr>"
  using assms by (rule sql_string_lexer.read_insert_sql)

lemma insert_sql_roundtrip_witness:
  "\<exists>v. read_insert sql_read (insert_sql sample_event) = Some v \<and> iv_query v = [CHR 0x5C, CHR 0x0A, CHR 0x27] \<and>
     iv_tables v = ''a.b,c.d,...''"
  using insert_sql_roundtrip [OF sql_reader.sql_string_lexer_axioms sample_printable]
  by (simp add: sample_event_def)



end
