(* ===== verification/Filter_Parser.thy ===== *)
theory Filter_Parser
  imports Filter_Rules
begin

text \<open>
  The parser of the operator's filter lists, \<open>core/filter_engine.cc\<close>: trimming and tokenising
  (\<open>clean_token\<close>, \<open>strip_ticks\<close>, \<open>split_csv\<close>), command qualifiers (\<open>parse_cmd_qualifier\<close>,
  \<open>split_cmd_qualifier\<close>), and the two entry points \<open>parse_filter_lists\<close> and
  \<open>parse_connection_list\<close>.

  A parse returns \<open>Inl tok\<close> where the code stores the offending token in \<open>*error\<close> and returns
  false, leaving \<open>*out\<close> untouched, and \<open>Inr out'\<close> where it returns true.  A \<open>const char *\<close>
  argument is an option (\<open>None\<close> is \<open>NULL\<close>); the end of the list stands for the terminating NUL,
  and a NUL byte inside ends the scan as in the code.
\<close>

section \<open>Tokens\<close>

definition trim_right :: "string \<Rightarrow> string" where
  "trim_right s = rev (dropWhile is_space (rev s))"

definition trim :: "string \<Rightarrow> string" where
  "trim s = trim_right (dropWhile is_space s)"

definition clean_token :: "string \<Rightarrow> string" where
  "clean_token raw = map ascii_lower (trim raw)"

definition strip_ticks :: "string \<Rightarrow> string" where
  "strip_ticks part =
     (if length part \<ge> 2 \<and> part ! 0 = CHR 0x60 \<and> part ! (length part - 1) = CHR 0x60
      then take (length part - 2) (drop 1 part) else part)"

definition flush_token :: "string \<Rightarrow> string list" where
  "flush_token cur = (let t = clean_token cur in if t = [] then [] else [t])"

fun split_csv_loop :: "string \<Rightarrow> string \<Rightarrow> string list" where
  "split_csv_loop cur [] = flush_token cur"
| "split_csv_loop cur (c # p) =
     (if c = CHR '','' \<or> c = CHR 0x00 then
        flush_token cur @ (if c = CHR 0x00 then [] else split_csv_loop [] p)
      else split_csv_loop (cur @ [c]) p)"

definition split_csv :: "string option \<Rightarrow> string list" where
  "split_csv csv = (case csv of None \<Rightarrow> [] | Some s \<Rightarrow> split_csv_loop [] s)"

section \<open>Command qualifiers\<close>

function parse_quals :: "string \<Rightarrow> u32 \<Rightarrow> u32 option" where
  "parse_quals quals cmds =
     (case map_of cmd_tokens (trim (takeWhile (\<lambda>c. c \<noteq> CHR ''|'') quals)) of
        None \<Rightarrow> None
      | Some m \<Rightarrow>
          (case dropWhile (\<lambda>c. c \<noteq> CHR ''|'') quals of
             [] \<Rightarrow> if cmds OR m \<noteq> 0 then Some (cmds OR m) else None
           | _ # rest \<Rightarrow> parse_quals rest (cmds OR m)))"
  by pat_completeness auto
termination
  by (relation "measure (length \<circ> fst)") (auto intro: length_dropWhile_Cons)

declare parse_quals.simps [simp del]

definition parse_cmd_qualifier :: "string \<Rightarrow> u32 option" where
  "parse_cmd_qualifier quals = parse_quals quals 0"

definition split_cmd_qualifier :: "string \<Rightarrow> (string \<times> u32) option" where
  "split_cmd_qualifier token =
     (if CHR '':'' \<notin> set token then Some (token, CMD_ALL)
      else
        let name = trim_right (takeWhile (\<lambda>c. c \<noteq> CHR '':'') token);
            quals = tl (dropWhile (\<lambda>c. c \<noteq> CHR '':'') token)
        in map_option (\<lambda>cmds. (name, cmds)) (parse_cmd_qualifier quals))"

section \<open>Schema and table lists\<close>

text \<open>The body of the first loop of \<open>parse_filter_lists\<close>: one schema token.\<close>

definition parse_schema_token :: "string \<Rightarrow> (string \<times> u32) option" where
  "parse_schema_token tok =
     (case split_cmd_qualifier tok of
        None \<Rightarrow> None
      | Some (name, cmds) \<Rightarrow>
          let schema = strip_ticks name in
          if schema = [] \<or> CHR ''.'' \<in> set schema then None else Some (schema, cmds))"

text \<open>The body of the second loop: one table token, either \<open>schema.*\<close> or \<open>schema.table\<close>.\<close>

datatype table_target = WildcardSchema string | QualifiedTable string

definition parse_table_token :: "string \<Rightarrow> (table_target \<times> u32) option" where
  "parse_table_token raw =
     (case split_cmd_qualifier raw of
        None \<Rightarrow> None
      | Some (tok, cmds) \<Rightarrow>
          let before_dot = takeWhile (\<lambda>c. c \<noteq> CHR ''.'') tok;
              after_dot = tl (dropWhile (\<lambda>c. c \<noteq> CHR ''.'') tok)
          in if CHR ''.'' \<notin> set tok \<or> before_dot = [] \<or> after_dot = [] \<or> CHR ''.'' \<in> set after_dot
             then None
             else
               let schema = strip_ticks before_dot; table = strip_ticks after_dot in
               if schema = [] \<or> table = [] then None
               else if table = ''*'' then Some (WildcardSchema schema, cmds)
               else Some (QualifiedTable (schema @ ''.'' @ table), cmds))"

fun parse_schemas :: "string list \<Rightarrow> FilterEntry list \<Rightarrow> string + FilterEntry list" where
  "parse_schemas [] es = Inr es"
| "parse_schemas (tok # toks) es =
     (case parse_schema_token tok of
        None \<Rightarrow> Inl tok
      | Some (schema, cmds) \<Rightarrow> parse_schemas toks (add_entry es schema cmds))"

fun parse_tables ::
  "string list \<Rightarrow> FilterEntry list \<Rightarrow> FilterEntry list \<Rightarrow> string + (FilterEntry list \<times> FilterEntry list)"
where
  "parse_tables [] ws ts = Inr (ws, ts)"
| "parse_tables (tok # toks) ws ts =
     (case parse_table_token tok of
        None \<Rightarrow> Inl tok
      | Some (WildcardSchema s, cmds) \<Rightarrow> parse_tables toks (add_entry ws s cmds) ts
      | Some (QualifiedTable n, cmds) \<Rightarrow> parse_tables toks ws (add_entry ts n cmds))"

definition parse_filter_lists ::
  "string option \<Rightarrow> string option \<Rightarrow> FilterRules \<Rightarrow> string + FilterRules"
where
  "parse_filter_lists schemas_csv tables_csv out =
     (case parse_schemas (split_csv schemas_csv) [] of
        Inl bad \<Rightarrow> Inl bad
      | Inr ss \<Rightarrow>
          (case parse_tables (split_csv tables_csv) [] [] of
             Inl bad \<Rightarrow> Inl bad
           | Inr (ws, ts) \<Rightarrow> Inr (out\<lparr>schemas := ss, wildcard_schemas := ws, tables := ts\<rparr>)))"

section \<open>Connection lists\<close>

text \<open>The digit loop \<open>v= v * 10ULL + (c - '0')\<close>, wrapping at 64 bits.\<close>

fun conn_value :: "u64 \<Rightarrow> string \<Rightarrow> u64 option" where
  "conn_value v [] = Some v"
| "conn_value v (c # cs) =
     (if c < CHR ''0'' \<or> CHR ''9'' < c then None else conn_value (v * 10 + of_nat (digit_val c)) cs)"

fun parse_conn_tokens :: "string list \<Rightarrow> u64 list \<Rightarrow> string + u64 list" where
  "parse_conn_tokens [] ids = Inr ids"
| "parse_conn_tokens (tok # toks) ids =
     (if tok = [] then parse_conn_tokens toks ids
      else (case conn_value 0 tok of
              None \<Rightarrow> Inl tok
            | Some v \<Rightarrow> parse_conn_tokens toks (ids @ [v])))"

text \<open>\<open>std::sort\<close> is \<^const>\<open>sort\<close>, \<open>std::unique\<close> with \<open>erase\<close> is \<^const>\<open>remdups_adj\<close>.\<close>

definition parse_connection_list :: "string option \<Rightarrow> FilterRules \<Rightarrow> string + FilterRules" where
  "parse_connection_list conns_csv out =
     (case parse_conn_tokens (split_csv conns_csv) [] of
        Inl bad \<Rightarrow> Inl bad
      | Inr ids \<Rightarrow> Inr (out\<lparr>connections := remdups_adj (sort ids)\<rparr>))"

section \<open>Tokens are folded, and splitting is splitting\<close>

lemma fold_case_fixed: "fold_case s = s \<longleftrightarrow> (\<forall>c \<in> set s. ascii_lower c = c)"
  by (metis map_idI map_eq_conv list.map_ident)

lemma set_trim_right: "set (trim_right s) \<subseteq> set s"
  using set_dropWhileD by (fastforce simp: trim_right_def)

lemma set_trim: "set (trim s) \<subseteq> set s"
  using set_trim_right set_dropWhileD by (fastforce simp: trim_def)

lemma set_strip_ticks: "set (strip_ticks s) \<subseteq> set s"
  by (auto simp: strip_ticks_def dest!: in_set_takeD in_set_dropD)

lemma clean_token_folded: "fold_case (clean_token s) = clean_token s"
  by (simp add: clean_token_def)

lemma flush_token_eq: "flush_token cur = filter (\<lambda>t. t \<noteq> []) [clean_token cur]"
  by (simp add: flush_token_def Let_def)

text \<open>Splitting at commas up to the terminating NUL, then cleaning, then dropping empty tokens.\<close>

lemma split_csv_loop_eq:
  "split_csv_loop cur s =
     filter (\<lambda>t. t \<noteq> [])
       (map clean_token
         (case split_on CHR '','' (takeWhile (\<lambda>c. c \<noteq> CHR 0x00) s) of
            [] \<Rightarrow> [] | x # xs \<Rightarrow> (cur @ x) # xs))"
  by (induction cur s rule: split_csv_loop.induct) (auto simp: flush_token_eq split: list.splits)

lemma split_csv_Some:
  "split_csv (Some s) =
     filter (\<lambda>t. t \<noteq> []) (map clean_token (split_on CHR '','' (takeWhile (\<lambda>c. c \<noteq> CHR 0x00) s)))"
  by (simp add: split_csv_def split_csv_loop_eq split: list.splits)

lemma split_csv_token: "tok \<in> set (split_csv csv) \<Longrightarrow> fold_case tok = tok \<and> tok \<noteq> []"
  by (cases csv) (auto simp: split_csv_Some clean_token_folded split_csv_def [of None])

section \<open>Qualifiers\<close>

text \<open>The loop over the bars is a fold over the pieces between them.\<close>

lemma parse_quals_split:
  "parse_quals quals cmds =
     (let ms = map (map_of cmd_tokens \<circ> trim) (split_on CHR ''|'' quals)
      in if None \<in> set ms then None else Some (cmds OR or_list (map the ms)))"
proof (induction quals cmds rule: parse_quals.induct)
  case (1 quals cmds)
  let ?tok = "takeWhile (\<lambda>c. c \<noteq> CHR ''|'') quals" and ?rest = "dropWhile (\<lambda>c. c \<noteq> CHR ''|'') quals"
  note unfold = parse_quals.simps [of quals cmds] takeWhile_split_on [of "CHR ''|''" quals]
  show ?case
  proof (cases "map_of cmd_tokens (trim ?tok)")
    case None
    then show ?thesis by (simp add: unfold Let_def)
  next
    case (Some m)
    then have m: "cmds OR m \<noteq> 0" by (auto simp: or_eq_0_iff dest: cmd_tokens_nonzero)
    show ?thesis
    proof (cases ?rest)
      case Nil
      then show ?thesis using Some m by (simp add: unfold Let_def del: dropWhile_eq_Nil_conv)
    next
      case (Cons x r)
      then show ?thesis using Some "1.IH" [OF Some Cons] by (simp add: unfold Let_def or.assoc)
    qed
  qed
qed

lemma parse_cmd_qualifier_split:
  "parse_cmd_qualifier quals =
     (let ms = map (map_of cmd_tokens \<circ> trim) (split_on CHR ''|'' quals)
      in if None \<in> set ms then None else Some (or_list (map the ms)))"
  by (simp add: parse_cmd_qualifier_def parse_quals_split Let_def)

lemma parse_cmd_qualifier_nonzero:
  assumes "parse_cmd_qualifier quals = Some m"
  shows "m \<noteq> 0"
proof (cases "split_on CHR ''|'' quals")
  case (Cons t ts)
  with assms obtain b where "map_of cmd_tokens (trim t) = Some b"
    by (auto simp: parse_cmd_qualifier_split Let_def split: if_splits) (metis not_None_eq)
  with Cons assms show ?thesis
    by (auto simp: parse_cmd_qualifier_split Let_def or_eq_0_iff split: if_splits dest: cmd_tokens_nonzero)
qed simp

lemma split_cmd_qualifier_Some:
  assumes "split_cmd_qualifier tok = Some (n, c)"
  shows "set n \<subseteq> set tok \<and> c \<noteq> 0"
proof (cases "CHR '':'' \<in> set tok")
  case True
  then show ?thesis
    using assms set_trim_right set_takeWhileD
    by (fastforce simp: split_cmd_qualifier_def Let_def dest: parse_cmd_qualifier_nonzero)
next
  case False
  then show ?thesis
    using assms by (auto simp: split_cmd_qualifier_def CMD_ALL_def)
qed

section \<open>The schema and table loops\<close>

lemma parse_schema_token_Some:
  assumes "parse_schema_token tok = Some (n, c)"
  shows "set n \<subseteq> set tok" "n \<noteq> []" "CHR ''.'' \<notin> set n" "c \<noteq> 0"
  using assms split_cmd_qualifier_Some [of tok] set_strip_ticks
  by (fastforce simp: parse_schema_token_def Let_def split: option.splits prod.splits if_splits)+

lemma tl_dropWhile_subset: "set (tl (dropWhile P s)) \<subseteq> set s"
  by (metis list.sel(2) list.set_sel(2) set_dropWhileD subsetI)

lemma parse_table_token_Wildcard:
  assumes "parse_table_token tok = Some (WildcardSchema n, c)"
  shows "set n \<subseteq> set tok" "n \<noteq> []" "CHR ''.'' \<notin> set n" "c \<noteq> 0"
  using assms split_cmd_qualifier_Some [of tok] set_strip_ticks set_takeWhileD
  by (fastforce simp: parse_table_token_def Let_def split: option.splits prod.splits if_splits)+

lemma parse_table_token_Qualified:
  assumes "parse_table_token tok = Some (QualifiedTable n, c)"
  obtains s t where "n = s @ CHR ''.'' # t" "s \<noteq> []" "t \<noteq> []" "t \<noteq> ''*''"
    "CHR ''.'' \<notin> set s" "CHR ''.'' \<notin> set t" "set s \<subseteq> set tok" "set t \<subseteq> set tok" "c \<noteq> 0"
proof -
  obtain nm where q: "split_cmd_qualifier tok = Some (nm, c)"
    using assms by (auto simp: parse_table_token_def Let_def split: option.splits if_splits)
  let ?s = "strip_ticks (takeWhile (\<lambda>c. c \<noteq> CHR ''.'') nm)"
  let ?t = "strip_ticks (tl (dropWhile (\<lambda>c. c \<noteq> CHR ''.'') nm))"
  have shape: "n = ?s @ CHR ''.'' # ?t" "?s \<noteq> []" "?t \<noteq> []" "?t \<noteq> ''*''"
      "CHR ''.'' \<notin> set (tl (dropWhile (\<lambda>c. c \<noteq> CHR ''.'') nm))"
    using assms q by (auto simp: parse_table_token_def Let_def split: if_splits)
  have sub: "set ?s \<subseteq> set (takeWhile (\<lambda>c. c \<noteq> CHR ''.'') nm)"
      "set ?t \<subseteq> set (tl (dropWhile (\<lambda>c. c \<noteq> CHR ''.'') nm))"
    by (rule set_strip_ticks)+
  then have dots: "CHR ''.'' \<notin> set ?s" "CHR ''.'' \<notin> set ?t"
    using shape(5) by (auto dest: set_takeWhileD)
  have "set ?s \<subseteq> set nm" "set ?t \<subseteq> set nm"
    using sub tl_dropWhile_subset [of "\<lambda>c. c \<noteq> CHR ''.''" nm] by (auto dest: set_takeWhileD)
  with shape(1-4) dots split_cmd_qualifier_Some [OF q] show thesis
    by (intro that [of ?s ?t]) auto
qed

text \<open>Both loops fail at the first token that does not parse, and otherwise insert every entry.\<close>

definition first_bad :: "(string \<Rightarrow> 'a option) \<Rightarrow> string list \<Rightarrow> string option" where
  "first_bad parse toks = List.find (\<lambda>t. parse t = None) toks"

definition schema_entries :: "string list \<Rightarrow> (string \<times> u32) list" where
  "schema_entries toks = List.map_filter parse_schema_token toks"

definition wildcard_entries :: "string list \<Rightarrow> (string \<times> u32) list" where
  "wildcard_entries toks = [(s, c). Some (WildcardSchema s, c) \<leftarrow> map parse_table_token toks]"

definition table_entries :: "string list \<Rightarrow> (string \<times> u32) list" where
  "table_entries toks = [(n, c). Some (QualifiedTable n, c) \<leftarrow> map parse_table_token toks]"

abbreviation add_entries :: "(string \<times> u32) list \<Rightarrow> FilterEntry list \<Rightarrow> FilterEntry list" where
  "add_entries es l \<equiv> fold (\<lambda>e t. add_entry t (fst e) (snd e)) es l"

lemma parse_schemas_eq:
  "parse_schemas toks es =
     (case first_bad parse_schema_token toks of
        Some bad \<Rightarrow> Inl bad | None \<Rightarrow> Inr (add_entries (schema_entries toks) es))"
  by (induction toks es rule: parse_schemas.induct)
     (auto simp: first_bad_def schema_entries_def map_filter_simps split: option.splits)

lemma parse_tables_eq:
  "parse_tables toks ws ts =
     (case first_bad parse_table_token toks of
        Some bad \<Rightarrow> Inl bad
      | None \<Rightarrow> Inr (add_entries (wildcard_entries toks) ws, add_entries (table_entries toks) ts))"
  by (induction toks ws ts rule: parse_tables.induct)
     (auto simp: first_bad_def wildcard_entries_def table_entries_def
       split: option.splits table_target.splits)

lemma parse_filter_lists_eq:
  "parse_filter_lists sc tc out =
     (case first_bad parse_schema_token (split_csv sc) of
        Some bad \<Rightarrow> Inl bad
      | None \<Rightarrow>
          (case first_bad parse_table_token (split_csv tc) of
             Some bad \<Rightarrow> Inl bad
           | None \<Rightarrow> Inr (out\<lparr>schemas := add_entries (schema_entries (split_csv sc)) [],
                              wildcard_schemas := add_entries (wildcard_entries (split_csv tc)) [],
                              tables := add_entries (table_entries (split_csv tc)) []\<rparr>)))"
  by (simp add: parse_filter_lists_def parse_schemas_eq parse_tables_eq split: option.split)

section \<open>Well-formed rules\<close>

text \<open>
  What the matchers may rely on: folded, non-empty, pairwise distinct names, no empty masks,
  schema names without a dot, table names of the form \<open>schema.table\<close> with the table part not
  \<open>*\<close>, and a strictly sorted list of connection ids.
\<close>

definition wf_schema_name :: "string \<Rightarrow> bool" where
  "wf_schema_name n \<longleftrightarrow> n \<noteq> [] \<and> fold_case n = n \<and> CHR ''.'' \<notin> set n"

definition wf_table_name :: "string \<Rightarrow> bool" where
  "wf_table_name n \<longleftrightarrow> fold_case n = n \<and>
     (case split_on CHR ''.'' n of [s, t] \<Rightarrow> s \<noteq> [] \<and> t \<noteq> [] \<and> t \<noteq> ''*'' | _ \<Rightarrow> False)"

definition wf_entries :: "(string \<Rightarrow> bool) \<Rightarrow> FilterEntry list \<Rightarrow> bool" where
  "wf_entries ok es \<longleftrightarrow> distinct (map fe_name es) \<and> list_all (\<lambda>e. ok (fe_name e) \<and> fe_cmds e \<noteq> 0) es"

definition wf_rules :: "FilterRules \<Rightarrow> bool" where
  "wf_rules r \<longleftrightarrow> wf_entries wf_schema_name (schemas r) \<and>
     wf_entries wf_schema_name (wildcard_schemas r) \<and> wf_entries wf_table_name (tables r) \<and>
     sorted_wrt (<) (connections r)"

lemma add_entry_name_mem: "fold_case n = n \<Longrightarrow> e \<in> set (add_entry es n c) \<Longrightarrow> fe_name e \<in> insert n (fe_name ` set es)"
proof -
  assume n: "fold_case n = n" and e: "e \<in> set (add_entry es n c)"
  then have "fe_name e \<in> set (map fe_name (add_entry es n c))" by simp
  also have "\<dots> \<subseteq> insert n (fe_name ` set es)" by (subst add_entry_names [OF n]) auto
  finally show ?thesis .
qed

lemma wf_entries_add:
  assumes "wf_entries ok es" "ok n" "fold_case n = n" "c \<noteq> 0"
  shows "wf_entries ok (add_entry es n c)"
proof -
  have "distinct (map fe_name (add_entry es n c))"
    using assms(1) by (simp add: add_entry_names [OF assms(3)] wf_entries_def)
  moreover have "ok (fe_name e) \<and> fe_cmds e \<noteq> 0" if "e \<in> set (add_entry es n c)" for e
    using assms add_entry_name_mem [OF assms(3) that] add_entry_nonzero [OF assms(4) _ that]
    by (auto simp: wf_entries_def list_all_iff)
  ultimately show ?thesis by (simp add: wf_entries_def list_all_iff)
qed

lemma wf_entries_fold:
  "(\<And>e. e \<in> set new \<Longrightarrow> ok (fst e) \<and> fold_case (fst e) = fst e \<and> snd e \<noteq> 0) \<Longrightarrow>
   wf_entries ok es \<Longrightarrow> wf_entries ok (add_entries new es)"
  by (induction new arbitrary: es) (simp_all add: wf_entries_add)

lemma wf_entries_Nil [simp]: "wf_entries ok []"
  by (simp add: wf_entries_def)

lemma folded_subset: "set n \<subseteq> set tok \<Longrightarrow> fold_case tok = tok \<Longrightarrow> fold_case n = n"
  by (auto simp: fold_case_fixed)

lemma entries_mem:
  "(n, c) \<in> set (schema_entries toks) \<longleftrightarrow> (\<exists>t \<in> set toks. parse_schema_token t = Some (n, c))"
  "(n, c) \<in> set (wildcard_entries toks) \<longleftrightarrow>
     (\<exists>t \<in> set toks. parse_table_token t = Some (WildcardSchema n, c))"
  "(n, c) \<in> set (table_entries toks) \<longleftrightarrow>
     (\<exists>t \<in> set toks. parse_table_token t = Some (QualifiedTable n, c))"
  by (force simp: schema_entries_def List.map_filter_def,
      force simp: wildcard_entries_def split: option.splits table_target.splits,
      force simp: table_entries_def split: option.splits table_target.splits)

lemma schema_entries_wf:
  "(n, c) \<in> set (schema_entries (split_csv csv)) \<Longrightarrow> wf_schema_name n \<and> fold_case n = n \<and> c \<noteq> 0"
  using parse_schema_token_Some folded_subset split_csv_token
  by (simp add: entries_mem wf_schema_name_def) metis

lemma wildcard_entries_wf:
  "(n, c) \<in> set (wildcard_entries (split_csv csv)) \<Longrightarrow> wf_schema_name n \<and> fold_case n = n \<and> c \<noteq> 0"
  using parse_table_token_Wildcard folded_subset split_csv_token
  by (simp add: entries_mem wf_schema_name_def) metis

lemma table_entries_wf:
  assumes "(n, c) \<in> set (table_entries (split_csv csv))"
  shows "wf_table_name n \<and> fold_case n = n \<and> c \<noteq> 0"
proof -
  obtain tok where tok: "tok \<in> set (split_csv csv)" "parse_table_token tok = Some (QualifiedTable n, c)"
    using assms by (auto simp: entries_mem)
  obtain s t where st: "n = s @ CHR ''.'' # t" "s \<noteq> []" "t \<noteq> []" "t \<noteq> ''*''"
      "CHR ''.'' \<notin> set s" "CHR ''.'' \<notin> set t" "set s \<subseteq> set tok" "set t \<subseteq> set tok" "c \<noteq> 0"
    by (rule parse_table_token_Qualified [OF tok(2)])
  moreover have "fold_case s = s" "fold_case t = t"
    using split_csv_token [OF tok(1)] st(7,8) by (auto intro: folded_subset)
  moreover have "ascii_lower CHR ''.'' = CHR ''.''" by code_simp
  ultimately show ?thesis
    by (simp add: wf_table_name_def split_on_append_sep split_on_no_sep)
qed

lemma parse_filter_lists_Inr:
  assumes "parse_filter_lists sc tc out = Inr r"
  shows "r = out\<lparr>schemas := add_entries (schema_entries (split_csv sc)) [],
              wildcard_schemas := add_entries (wildcard_entries (split_csv tc)) [],
              tables := add_entries (table_entries (split_csv tc)) []\<rparr>"
  using assms by (simp add: parse_filter_lists_eq split: option.splits)

lemma parse_filter_lists_wf:
  assumes "parse_filter_lists sc tc out = Inr r" and "wf_rules out"
  shows "wf_rules r"
proof -
  have "wf_entries wf_schema_name (add_entries (schema_entries (split_csv sc)) [])"
    by (rule wf_entries_fold) (auto dest: schema_entries_wf)
  moreover have "wf_entries wf_schema_name (add_entries (wildcard_entries (split_csv tc)) [])"
    by (rule wf_entries_fold) (auto dest: wildcard_entries_wf)
  moreover have "wf_entries wf_table_name (add_entries (table_entries (split_csv tc)) [])"
    by (rule wf_entries_fold) (auto dest: table_entries_wf)
  ultimately show ?thesis
    using assms parse_filter_lists_Inr [OF assms(1)] by (simp add: wf_rules_def)
qed

lemma wf_empty_rules: "wf_rules empty_rules"
  by (simp add: wf_rules_def empty_rules_def)

section \<open>Connection ids\<close>

lemma conn_value_eq:
  "conn_value (of_nat a) s =
     (if list_all is_digit s then Some (of_nat (foldl (\<lambda>v c. v * 10 + digit_val c) a s)) else None)"
proof (induction s arbitrary: a)
  case (Cons c s)
  show ?case
    using Cons [of "a * 10 + digit_val c"] by (auto simp: is_digit_def not_less)
qed simp

lemma conn_value_0: "conn_value 0 s = (if list_all is_digit s then Some (of_nat (dec_val s)) else None)"
  using conn_value_eq [of 0 s] by (simp add: dec_val_def)

definition conn_token :: "string \<Rightarrow> u64 option" where
  "conn_token tok = (if list_all is_digit tok then Some (of_nat (dec_val tok)) else None)"

lemma parse_conn_tokens_eq:
  "[] \<notin> set toks \<Longrightarrow> parse_conn_tokens toks ids =
     (case first_bad conn_token toks of
        Some bad \<Rightarrow> Inl bad | None \<Rightarrow> Inr (ids @ map (\<lambda>t. of_nat (dec_val t)) toks))"
  by (induction toks ids rule: parse_conn_tokens.induct)
     (auto simp: conn_value_0 conn_token_def first_bad_def split: option.splits if_splits)

lemma sorted_wrt_remdups_adj_sort: "sorted_wrt (<) (remdups_adj (sort (xs :: 'a::linorder list)))"
proof -
  have "sorted ys \<Longrightarrow> sorted_wrt (<) (remdups_adj ys)" for ys :: "'a list"
    by (induction ys rule: remdups_adj.induct) (auto simp: order.order_iff_strict)
  then show ?thesis by simp
qed

lemma parse_connection_list_eq:
  "parse_connection_list csv out =
     (case first_bad conn_token (split_csv csv) of
        Some bad \<Rightarrow> Inl bad
      | None \<Rightarrow> Inr (out\<lparr>connections := remdups_adj (sort (map (\<lambda>t. of_nat (dec_val t)) (split_csv csv)))\<rparr>))"
proof -
  have "[] \<notin> set (split_csv csv)" using split_csv_token [of "[]" csv] by blast
  then show ?thesis
    by (simp add: parse_connection_list_def parse_conn_tokens_eq split: option.split)
qed

lemma parse_connection_list_wf:
  "parse_connection_list csv out = Inr r \<Longrightarrow> wf_rules out \<Longrightarrow> wf_rules r"
  by (auto simp: parse_connection_list_eq wf_rules_def sorted_wrt_remdups_adj_sort split: option.splits)

section \<open>Lookups in parsed rules\<close>

lemma match_schema_lists:
  assumes "parse_filter_lists sc tc out = Inr r" and "d \<noteq> []"
  shows "match_schema r (Some d) =
     or_list (map snd (filter (\<lambda>e. fst e = fold_case d)
       (schema_entries (split_csv sc) @ wildcard_entries (split_csv tc))))"
proof -
  have "or_matching (\<lambda>n. ci_eq n d) (add_entries (schema_entries (split_csv sc)) []) 0 =
      or_list (map snd (filter (\<lambda>e. fst e = fold_case d) (schema_entries (split_csv sc))))"
    by (rule by_schema.mask_fold) (metis schema_entries_wf prod.collapse)
  moreover have "or_matching (\<lambda>n. ci_eq n d) (add_entries (wildcard_entries (split_csv tc)) []) 0 =
      or_list (map snd (filter (\<lambda>e. fst e = fold_case d) (wildcard_entries (split_csv tc))))"
    by (rule by_schema.mask_fold) (metis wildcard_entries_wf prod.collapse)
  ultimately show ?thesis
    using parse_filter_lists_Inr [OF assms(1)] assms(2) by (simp add: match_schema_unfold)
qed

lemma match_table_lists:
  assumes "parse_filter_lists sc tc out = Inr r" and "d \<noteq> []" and "t \<noteq> []"
  shows "match_table r (Some d) (Some t) =
     or_list (map snd (filter (\<lambda>e. fst e = fold_case d) (wildcard_entries (split_csv tc)))) OR
     or_list (map snd (filter (\<lambda>e. fst e = fold_case d @ CHR ''.'' # fold_case t)
       (table_entries (split_csv tc))))"
proof -
  have "or_matching (\<lambda>n. ci_eq n d) (add_entries (wildcard_entries (split_csv tc)) []) 0 =
      or_list (map snd (filter (\<lambda>e. fst e = fold_case d) (wildcard_entries (split_csv tc))))"
    by (rule by_schema.mask_fold) (metis wildcard_entries_wf prod.collapse)
  moreover have "or_matching (\<lambda>n. ci_eq_qualified n d t) (add_entries (table_entries (split_csv tc)) []) 0 =
      or_list (map snd (filter (\<lambda>e. fst e = fold_case d @ CHR ''.'' # fold_case t)
        (table_entries (split_csv tc))))"
    using by_table.mask_fold [of "table_entries (split_csv tc)" "(d, t)"] table_entries_wf
    by (metis (no_types, lifting) case_prod_conv prod.collapse filter_cong)
  ultimately show ?thesis
    using parse_filter_lists_Inr [OF assms(1)] assms(2,3) by (simp add: match_table_unfold)
qed

lemma match_connection_list:
  assumes "parse_connection_list csv out = Inr r"
  shows "match_connection r conn_id \<longleftrightarrow> conn_id \<in> (\<lambda>t. of_nat (dec_val t)) ` set (split_csv csv)"
proof -
  have conns: "connections r = remdups_adj (sort (map (\<lambda>t. of_nat (dec_val t)) (split_csv csv)))"
    using assms by (auto simp: parse_connection_list_eq split: option.splits)
  then have "sorted (connections r)" by (simp add: sorted_remdups_adj)
  then show ?thesis by (simp add: match_connection_def binary_search_iff conns)
qed

section \<open>Properties of the parser\<close>

text \<open>Rules built the way \<open>rebuild_rules_locked\<close> builds them, by \<open>parse_filter_lists\<close> into a
  fresh rule set and then \<open>parse_connection_list\<close>, are well formed: folded, non-empty and distinct
  names, no empty command mask, dot-free schemas, \<open>schema.table\<close> entries with no \<open>*\<close> left as an
  exact table, and a strictly increasing connection list.\<close>

lemma parsed_rules_wf:
  assumes "parse_filter_lists sc tc empty_rules = Inr r" and "parse_connection_list cc r = Inr r'"
  shows "wf_rules r'"
  using assms parse_filter_lists_wf parse_connection_list_wf wf_empty_rules by metis

lemma parsed_rules_wf_witness:
  "\<exists>r r'. parse_filter_lists (Some ''vendas:insert|update, rh'') (Some ''app.pedidos:delete, logs.*:dml'')
        empty_rules = Inr r \<and> parse_connection_list (Some ''42, 7'') r = Inr r' \<and> wf_rules r'"
proof -
  let ?r = "\<lparr>schemas = [\<lparr>fe_name = ''vendas'', fe_cmds = 6\<rparr>, \<lparr>fe_name = ''rh'', fe_cmds = CMD_ALL\<rparr>],
      wildcard_schemas = [\<lparr>fe_name = ''logs'', fe_cmds = CMD_DML\<rparr>],
      tables = [\<lparr>fe_name = ''app.pedidos'', fe_cmds = 8\<rparr>], connections = []\<rparr>"
  have 1: "parse_filter_lists (Some ''vendas:insert|update, rh'')
      (Some ''app.pedidos:delete, logs.*:dml'') empty_rules = Inr ?r"
    by code_simp
  have 2: "parse_connection_list (Some ''42, 7'') ?r = Inr (?r\<lparr>connections := [7, 42]\<rparr>)"
    by code_simp
  show ?thesis using 1 2 parsed_rules_wf [OF 1 2] by blast
qed

text \<open>(C31) \<open>parse_filter_lists\<close> succeeds exactly when every token of both lists parses, and
  otherwise reports the first offending token, schemas before tables; on success only the three
  entry lists of \<open>*out\<close> change, so the connection ids survive.\<close>

theorem parse_filter_lists_outcome:
  "parse_filter_lists sc tc out =
     (case first_bad parse_schema_token (split_csv sc) of
        Some bad \<Rightarrow> Inl bad
      | None \<Rightarrow>
          (case first_bad parse_table_token (split_csv tc) of
             Some bad \<Rightarrow> Inl bad
           | None \<Rightarrow> Inr \<lparr>schemas = add_entries (schema_entries (split_csv sc)) [],
                           wildcard_schemas = add_entries (wildcard_entries (split_csv tc)) [],
                           tables = add_entries (table_entries (split_csv tc)) [],
                           connections = connections out\<rparr>))"
  by (cases out) (simp add: parse_filter_lists_eq split: option.split)

text \<open>A schema lookup in parsed rules returns the union of the command masks of exactly those
  schema tokens and \<open>schema.*\<close> tokens whose name is the case-folded database name: merging
  duplicates, their order and the operator's letter case are invisible.\<close>

lemma match_schema_parsed:
  assumes "parse_filter_lists sc tc out = Inr r" and "d \<noteq> []"
  shows "match_schema r (Some d) =
     or_list (map snd (filter (\<lambda>e. fst e = fold_case d)
       (schema_entries (split_csv sc) @ wildcard_entries (split_csv tc))))"
  using assms by (rule match_schema_lists)

lemma match_schema_parsed_witness:
  "match_schema \<lparr>schemas = [\<lparr>fe_name = ''app'', fe_cmds = 3\<rparr>], wildcard_schemas =
       [\<lparr>fe_name = ''app'', fe_cmds = 8\<rparr>], tables = [], connections = []\<rparr> (Some ''APP'') =
     or_list (map snd (filter (\<lambda>e. fst e = fold_case ''APP'')
       (schema_entries (split_csv (Some ''app:select, APP:insert'')) @
        wildcard_entries (split_csv (Some ''App.*:delete'')))))"
proof -
  have "parse_filter_lists (Some ''app:select, APP:insert'') (Some ''App.*:delete'') empty_rules =
      Inr \<lparr>schemas = [\<lparr>fe_name = ''app'', fe_cmds = 3\<rparr>], wildcard_schemas =
       [\<lparr>fe_name = ''app'', fe_cmds = 8\<rparr>], tables = [], connections = []\<rparr>"
    by code_simp
  then show ?thesis by (rule match_schema_parsed) simp
qed

text \<open>A table lookup in parsed rules returns the union of the masks of the \<open>schema.*\<close> tokens
  of its schema and of the \<open>schema.table\<close> tokens that name exactly this pair, so there is no
  confusion across the dot.\<close>

lemma match_table_parsed:
  assumes "parse_filter_lists sc tc out = Inr r" and "d \<noteq> []" and "t \<noteq> []"
  shows "match_table r (Some d) (Some t) =
     or_list (map snd (filter (\<lambda>e. fst e = fold_case d) (wildcard_entries (split_csv tc)))) OR
     or_list (map snd (filter (\<lambda>e. fst e = fold_case d @ CHR ''.'' # fold_case t)
       (table_entries (split_csv tc))))"
  using assms by (rule match_table_lists)

lemma match_table_parsed_witness:
  "match_table \<lparr>schemas = [], wildcard_schemas = [\<lparr>fe_name = ''logs'', fe_cmds = 1\<rparr>],
       tables = [\<lparr>fe_name = ''logs.important'', fe_cmds = 2\<rparr>], connections = []\<rparr>
     (Some ''Logs'') (Some ''IMPORTANT'') =
     or_list (map snd (filter (\<lambda>e. fst e = fold_case ''Logs'')
       (wildcard_entries (split_csv (Some ''logs.*:select, logs.important:insert''))))) OR
     or_list (map snd (filter (\<lambda>e. fst e = fold_case ''Logs'' @ CHR ''.'' # fold_case ''IMPORTANT'')
       (table_entries (split_csv (Some ''logs.*:select, logs.important:insert'')))))"
proof -
  have "parse_filter_lists None (Some ''logs.*:select, logs.important:insert'') empty_rules =
      Inr \<lparr>schemas = [], wildcard_schemas = [\<lparr>fe_name = ''logs'', fe_cmds = 1\<rparr>],
       tables = [\<lparr>fe_name = ''logs.important'', fe_cmds = 2\<rparr>], connections = []\<rparr>"
    by code_simp
  then show ?thesis by (rule match_table_parsed) simp_all
qed

text \<open>A connection filter that parses matches exactly the ids written in the list, each read as
  a decimal number modulo \<open>2^64\<close>: the binary search over the sorted, de-duplicated vector finds
  every listed id and no other.\<close>

lemma match_connection_parsed:
  assumes "parse_connection_list csv out = Inr r"
  shows "match_connection r conn_id \<longleftrightarrow> conn_id \<in> (\<lambda>t. of_nat (dec_val t)) ` set (split_csv csv)"
  using assms by (rule match_connection_list)

lemma match_connection_parsed_witness:
  "match_connection \<lparr>schemas = [], wildcard_schemas = [], tables = [], connections = [7, 42, 100]\<rparr> 42 \<longleftrightarrow>
     (42 :: u64) \<in> (\<lambda>t. of_nat (dec_val t)) ` set (split_csv (Some ''42, 7, 42, 100 , 7''))"
proof -
  have "parse_connection_list (Some ''42, 7, 42, 100 , 7'') empty_rules =
      Inr \<lparr>schemas = [], wildcard_schemas = [], tables = [], connections = [7, 42, 100]\<rparr>"
    by code_simp
  then show ?thesis by (rule match_connection_parsed)
qed

text \<open>Bytes an entry can be printed with: nothing the tokeniser or the qualifier syntax reads.\<close>

definition plain_ident :: "string \<Rightarrow> bool" where
  "plain_ident n \<longleftrightarrow> n \<noteq> [] \<and>
     list_all (\<lambda>c. ascii_lower c = c \<and> \<not> is_space c \<and> c \<noteq> CHR '','' \<and> c \<noteq> CHR '':'' \<and> c \<noteq> CHR ''.'' \<and>
       c \<noteq> CHR 0x60 \<and> c \<noteq> CHR 0x00) n"

lemma trim_no_space: "list_all (\<lambda>c. \<not> is_space c) s \<Longrightarrow> trim s = s"
proof -
  assume "list_all (\<lambda>c. \<not> is_space c) s"
  then have "dropWhile is_space s = s" "dropWhile is_space (rev s) = rev s"
    by (auto simp: dropWhile_eq_self_iff list_all_iff hd_rev)
  then show ?thesis by (simp add: trim_def trim_right_def)
qed

text \<open>A list of clean tokens joined by commas splits back into those tokens.\<close>

lemma split_csv_join:
  assumes "\<And>t. t \<in> set toks \<Longrightarrow> t \<noteq> [] \<and>
     list_all (\<lambda>c. ascii_lower c = c \<and> \<not> is_space c \<and> c \<noteq> CHR '','' \<and> c \<noteq> CHR 0x00) t"
  shows "split_csv (Some (join_with CHR '','' toks)) = toks"
proof (cases "toks = []")
  case True
  have "clean_token [] = []" by code_simp
  then show ?thesis using True by (simp add: split_csv_Some)
next
  case False
  have "c \<noteq> CHR 0x00" if "c \<in> set (join_with CHR '','' toks)" for c
    using set_join_with [OF that]
  proof
    assume "\<exists>t \<in> set toks. c \<in> set t"
    then obtain t where "t \<in> set toks" "c \<in> set t" by blast
    then show ?thesis using assms [of t] by (simp add: list_all_iff)
  qed simp
  then have nul: "takeWhile (\<lambda>c. c \<noteq> CHR 0x00) (join_with CHR '','' toks) = join_with CHR '','' toks"
    by (simp add: takeWhile_eq_all_conv)
  have commas: "split_on CHR '','' (join_with CHR '','' toks) = toks"
    using assms False by (intro split_on_join_with) (auto simp: list_all_iff)
  have clean: "clean_token t = t" if "t \<in> set toks" for t
    using assms [OF that] by (simp add: clean_token_def trim_no_space list_all_iff map_idI)
  show ?thesis
    unfolding split_csv_Some nul commas using assms clean by (simp add: map_idI filter_id_conv)
qed

lemma digit_byte:
  "is_digit c \<Longrightarrow> ascii_lower c = c \<and> \<not> is_space c \<and> c \<noteq> CHR '','' \<and> c \<noteq> CHR 0x00"
  by (auto simp: is_digit_def is_space_def ascii_lower_def char_order)

text \<open>Printing connection ids in decimal and parsing them back gives the same set of ids, for
  every 64-bit id.\<close>

lemma connection_list_roundtrip:
  "parse_connection_list (Some (join_with CHR '','' (map (dec_of_nat \<circ> unat) ids))) out =
     Inr (out\<lparr>connections := sorted_list_of_set (set ids)\<rparr>)"
proof -
  let ?toks = "map (dec_of_nat \<circ> unat) ids"
  have split: "split_csv (Some (join_with CHR '','' ?toks)) = ?toks"
    by (rule split_csv_join) (auto simp: list_all_iff dest!: dec_of_nat_digits digit_byte)
  have good: "first_bad conn_token ?toks = None"
    by (auto simp: first_bad_def find_None_iff conn_token_def list_all_iff dest: dec_of_nat_digits)
  have "map (\<lambda>t. of_nat (dec_val t)) ?toks = ids" by (simp add: comp_def)
  moreover have "remdups_adj (sort ids) = sorted_list_of_set (set ids)"
    using sorted_wrt_remdups_adj_sort [of ids]
    by (intro strict_sorted_equal) (simp_all add: strict_sorted_iff)
  ultimately show ?thesis by (simp add: parse_connection_list_eq split good)
qed

text \<open>One printed schema entry: the name, a colon and the qualifier tokens between bars.\<close>

definition print_entry :: "string \<times> (string \<times> u32) list \<Rightarrow> string" where
  "print_entry e = fst e @ CHR '':'' # join_with CHR ''|'' (map fst (snd e))"

definition printable_entry :: "string \<times> (string \<times> u32) list \<Rightarrow> bool" where
  "printable_entry e \<longleftrightarrow> plain_ident (fst e) \<and> snd e \<noteq> [] \<and> list_all (\<lambda>q. q \<in> set cmd_tokens) (snd e)"

lemma cmd_tokens_plain:
  "list_all (\<lambda>q. plain_ident (fst q) \<and> CHR ''|'' \<notin> set (fst q) \<and> map_of cmd_tokens (fst q) = Some (snd q))
     cmd_tokens"
  by code_simp

lemma cmd_token_mem:
  "q \<in> set cmd_tokens \<Longrightarrow>
   plain_ident (fst q) \<and> CHR ''|'' \<notin> set (fst q) \<and> map_of cmd_tokens (fst q) = Some (snd q)"
  using cmd_tokens_plain by (simp add: list_all_iff)

lemma plain_ident_trim: "plain_ident n \<Longrightarrow> trim n = n"
  by (rule trim_no_space) (simp add: plain_ident_def list_all_iff)

lemma parse_printed_quals:
  assumes "qs \<noteq> []" and "list_all (\<lambda>q. q \<in> set cmd_tokens) qs"
  shows "parse_cmd_qualifier (join_with CHR ''|'' (map fst qs)) = Some (or_list (map snd qs))"
proof -
  have mem: "q \<in> set cmd_tokens" if "q \<in> set qs" for q using assms(2) that by (simp add: list_all_iff)
  have "split_on CHR ''|'' (join_with CHR ''|'' (map fst qs)) = map fst qs"
    using assms(1) mem cmd_token_mem by (intro split_on_join_with) auto
  moreover have "map (map_of cmd_tokens \<circ> trim) (map fst qs) = map (Some \<circ> snd) qs"
    using mem cmd_token_mem plain_ident_trim by (auto simp: comp_def)
  ultimately show ?thesis
    by (simp only: parse_cmd_qualifier_split Let_def) (auto simp: comp_def)
qed

lemma strip_ticks_plain: "plain_ident n \<Longrightarrow> strip_ticks n = n"
  by (cases n) (auto simp: plain_ident_def strip_ticks_def)

lemma parse_schema_token_print:
  assumes "printable_entry e"
  shows "parse_schema_token (print_entry e) = Some (fst e, or_list (map snd (snd e)))"
proof -
  obtain n qs where e: "e = (n, qs)" by (cases e)
  have n: "plain_ident n" using assms by (simp add: printable_entry_def e)
  then have colon: "CHR '':'' \<notin> set n" by (auto simp: plain_ident_def list_all_iff)
  have "trim_right n = n"
    using plain_ident_trim [OF n] n by (cases n) (auto simp: trim_def plain_ident_def)
  then have "split_cmd_qualifier (print_entry e) = Some (n, or_list (map snd qs))"
    using colon parse_printed_quals [of qs] assms
    by (simp add: split_cmd_qualifier_def print_entry_def e printable_entry_def Let_def
        takeWhile_sep dropWhile_sep)
  then show ?thesis
    using n strip_ticks_plain [OF n] by (auto simp: parse_schema_token_def e plain_ident_def list_all_iff)
qed

lemma print_entry_bytes:
  assumes "printable_entry e"
  shows "print_entry e \<noteq> [] \<and>
    list_all (\<lambda>c. ascii_lower c = c \<and> \<not> is_space c \<and> c \<noteq> CHR '','' \<and> c \<noteq> CHR 0x00) (print_entry e)"
proof -
  have sep: "ascii_lower d = d \<and> \<not> is_space d \<and> d \<noteq> CHR '','' \<and> d \<noteq> CHR 0x00"
    if "d = CHR '':'' \<or> d = CHR ''|''" for d
    using that by (auto simp: ascii_lower_def is_space_def)
  have "ascii_lower c = c \<and> \<not> is_space c \<and> c \<noteq> CHR '','' \<and> c \<noteq> CHR 0x00"
    if "c \<in> set (join_with CHR ''|'' (map fst (snd e)))" for c
    using set_join_with [OF that]
  proof
    assume "\<exists>t \<in> set (map fst (snd e)). c \<in> set t"
    then obtain q where q: "q \<in> set (snd e)" "c \<in> set (fst q)" by auto
    then have "plain_ident (fst q)"
      using assms cmd_token_mem by (auto simp: printable_entry_def list_all_iff)
    then show ?thesis using q(2) by (auto simp: plain_ident_def list_all_iff)
  qed (simp add: sep)
  then show ?thesis
    using assms sep by (auto simp: print_entry_def printable_entry_def plain_ident_def list_all_iff)
qed

text \<open>(C32) A schema filter written out entry by entry, each with its qualifier tokens between bars,
  parses back: the parse succeeds, and every entry comes back with its name and the union of the
  masks its tokens stand for.\<close>

theorem schema_list_roundtrip:
  assumes "list_all printable_entry es"
  shows "parse_filter_lists (Some (join_with CHR '','' (map print_entry es))) None out =
     Inr (out\<lparr>schemas := add_entries (map (\<lambda>(n, qs). (n, or_list (map snd qs))) es) [],
              wildcard_schemas := [], tables := []\<rparr>)"
proof -
  let ?toks = "map print_entry es"
  have toks_eq: "split_csv (Some (join_with CHR '','' ?toks)) = ?toks"
  proof (rule split_csv_join)
    fix t assume "t \<in> set ?toks"
    then obtain e where "e \<in> set es" "t = print_entry e" by auto
    then show "t \<noteq> [] \<and>
        list_all (\<lambda>c. ascii_lower c = c \<and> \<not> is_space c \<and> c \<noteq> CHR '','' \<and> c \<noteq> CHR 0x00) t"
      using assms print_entry_bytes [of e] by (simp add: list_all_iff [of printable_entry])
  qed
  have parse: "map parse_schema_token ?toks = map (Some \<circ> (\<lambda>(n, qs). (n, or_list (map snd qs)))) es"
    using assms by (auto simp: list_all_iff parse_schema_token_print)
  then have "first_bad parse_schema_token ?toks = None"
    by (auto simp: first_bad_def find_None_iff)
  moreover have "schema_entries ?toks = map (\<lambda>(n, qs). (n, or_list (map snd qs))) es"
    using parse by (simp add: schema_entries_def map_filter_def comp_def)
  ultimately show ?thesis
    by (simp only: parse_filter_lists_eq toks_eq)
       (simp add: split_csv_def first_bad_def wildcard_entries_def table_entries_def)
qed

theorem schema_list_roundtrip_witness:
  "parse_filter_lists (Some (join_with CHR '','' (map print_entry
       [(''vendas'', [(''insert'', CMD_INSERT), (''ddl'', CMD_DDL)]), (''rh'', [(''all'', CMD_ALL)])])))
     None empty_rules =
   Inr (empty_rules\<lparr>schemas := add_entries (map (\<lambda>(n, qs). (n, or_list (map snd qs)))
       [(''vendas'', [(''insert'', CMD_INSERT), (''ddl'', CMD_DDL)]), (''rh'', [(''all'', CMD_ALL)])]) [],
     wildcard_schemas := [], tables := []\<rparr>)"
proof -
  have "list_all printable_entry
      [(''vendas'', [(''insert'', CMD_INSERT), (''ddl'', CMD_DDL)]), (''rh'', [(''all'', CMD_ALL)])]"
    by code_simp
  then show ?thesis by (rule schema_list_roundtrip)
qed

end
