(* ===== verification/File_Writer.thy ===== *)
theory File_Writer
  imports Trace_Prelude
begin

text \<open>
  The FILE writer of \<open>src/log_writer_file_mysql.cc\<close>: \<open>open_locked\<close>, \<open>file_writer_reopen\<close>,
  \<open>file_writer_close\<close>, \<open>file_writer_write\<close> and \<open>file_writer_failures\<close>, each as the critical section it
  runs under \<open>log_lock\<close>.

  The C library is a parameter: what \<open>fopen\<close> and \<open>fwrite\<close> answer is an arbitrary function of the
  calls made so far (newest first, the call being answered at the head), so the theorems hold for
  every behaviour of the file system.
\<close>

datatype io_call = Fopen string | Fclose string | Fwrite string string | Fflush string | Log_stderr string

record stdio =
  fopen_ok :: "io_call list \<Rightarrow> bool"
  fwrite_count :: "io_call list \<Rightarrow> nat"

text \<open>The static variables of the file; an open \<open>FILE *\<close> is named by the path it was opened with.\<close>

record file_writer =
  log_fp :: "string option"
  write_failures :: u64
  open_failed_logged :: bool
  io_calls :: "io_call list"

definition file_writer_init :: file_writer where
  "file_writer_init = \<lparr>log_fp = None, write_failures = 0, open_failed_logged = False, io_calls = []\<rparr>"

definition open_locked :: "stdio \<Rightarrow> string option \<Rightarrow> file_writer \<Rightarrow> bool \<times> file_writer" where
  "open_locked io path w =
     (if path = None \<or> path = Some [] then (False, w)
      else let p = the path; calls = Fopen p # io_calls w in
        if \<not> fopen_ok io calls then
          (False, w\<lparr>log_fp := None, open_failed_logged := True, write_failures := write_failures w + 1,
                    io_calls := (if open_failed_logged w then calls else Log_stderr p # calls)\<rparr>)
        else (True, w\<lparr>log_fp := Some p, open_failed_logged := False, io_calls := calls\<rparr>))"

definition file_writer_close :: "file_writer \<Rightarrow> file_writer" where
  "file_writer_close w =
     (case log_fp w of
        Some p \<Rightarrow> w\<lparr>log_fp := None, io_calls := Fclose p # io_calls w\<rparr>
      | None \<Rightarrow> w)"

text \<open>The destruction of the lock leaves no trace in the model.\<close>

definition file_writer_deinit :: "file_writer \<Rightarrow> file_writer" where
  [simp]: "file_writer_deinit w = file_writer_close w"

definition file_writer_reopen :: "stdio \<Rightarrow> string option \<Rightarrow> file_writer \<Rightarrow> bool \<times> file_writer" where
  "file_writer_reopen io path w =
     (let w1 = (case log_fp w of
                  Some p \<Rightarrow> w\<lparr>log_fp := None, io_calls := Fclose p # io_calls w\<rparr>
                | None \<Rightarrow> w)
      in open_locked io path w1)"

definition file_writer_write :: "stdio \<Rightarrow> string \<Rightarrow> string option \<Rightarrow> file_writer \<Rightarrow> bool \<times> file_writer" where
  "file_writer_write io line path w =
     (let (opened, w1) = (if log_fp w = None then open_locked io path w else (True, w)) in
      if \<not> opened then (False, w1)
      else (case log_fp w1 of
              None \<Rightarrow> (False, w1)
            | Some p \<Rightarrow>
                let calls = Fwrite p line # io_calls w1 in
                if fwrite_count io calls = length line
                then (True, w1\<lparr>io_calls := Fflush p # calls\<rparr>)
                else (False, w1\<lparr>write_failures := write_failures w1 + 1, io_calls := calls\<rparr>)))"

definition file_writer_failures :: "file_writer \<Rightarrow> u64" where
  "file_writer_failures w = write_failures w"

text \<open>The calls of the rest of the plugin, one after the other in the order of \<open>log_lock\<close>.\<close>

datatype file_op = Write string "string option" | Reopen "string option" | Close

fun file_step :: "stdio \<Rightarrow> file_op \<Rightarrow> file_writer \<Rightarrow> bool \<times> file_writer" where
  "file_step io (Write line path) w = file_writer_write io line path w"
| "file_step io (Reopen path) w = file_writer_reopen io path w"
| "file_step io Close w = (True, file_writer_close w)"

fun run_file :: "stdio \<Rightarrow> file_op list \<Rightarrow> file_writer \<Rightarrow> bool list \<times> file_writer" where
  "run_file io [] w = ([], w)"
| "run_file io (op # ops) w =
     (let (r, w1) = file_step io op w; (rs, w2) = run_file io ops w1 in (r # rs, w2))"

section \<open>What the calls amount to\<close>

text \<open>The lines that were accepted whole, oldest first, and the failed calls.\<close>

fun delivered :: "stdio \<Rightarrow> io_call list \<Rightarrow> string list" where
  "delivered io [] = []"
| "delivered io (c # cs) = delivered io cs @
     (case c of Fwrite p line \<Rightarrow> if fwrite_count io (c # cs) = length line then [line] else [] | _ \<Rightarrow> [])"

fun io_failures :: "stdio \<Rightarrow> io_call list \<Rightarrow> nat" where
  "io_failures io [] = 0"
| "io_failures io (c # cs) = io_failures io cs +
     (case c of
        Fopen p \<Rightarrow> if fopen_ok io (c # cs) then 0 else 1
      | Fwrite p line \<Rightarrow> if fwrite_count io (c # cs) = length line then 0 else 1
      | _ \<Rightarrow> 0)"

fun opens_ok :: "stdio \<Rightarrow> io_call list \<Rightarrow> nat" where
  "opens_ok io [] = 0"
| "opens_ok io (c # cs) = opens_ok io cs + (case c of Fopen p \<Rightarrow> if fopen_ok io (c # cs) then 1 else 0 | _ \<Rightarrow> 0)"

definition messages :: "io_call list \<Rightarrow> nat" where
  "messages cs = length (filter (\<lambda>c. case c of Log_stderr _ \<Rightarrow> True | _ \<Rightarrow> False) cs)"

lemma messages_simps [simp]:
  "messages [] = 0" "messages (Log_stderr p # cs) = Suc (messages cs)" "messages (Fopen p # cs) = messages cs"
  "messages (Fwrite p l # cs) = messages cs" "messages (Fflush p # cs) = messages cs"
  "messages (Fclose p # cs) = messages cs"
  by (simp_all add: messages_def)

text \<open>The handle that is open after the calls: the last one opened and not closed.\<close>

fun open_path :: "stdio \<Rightarrow> io_call list \<Rightarrow> string option" where
  "open_path io [] = None"
| "open_path io (c # cs) =
     (case c of Fopen p \<Rightarrow> if fopen_ok io (c # cs) then Some p else None
      | Fclose p \<Rightarrow> None | _ \<Rightarrow> open_path io cs)"

text \<open>Every byte goes to the handle that is open, and no handle is closed twice or dropped open.\<close>

fun io_wf :: "stdio \<Rightarrow> io_call list \<Rightarrow> bool" where
  "io_wf io [] = True"
| "io_wf io (c # cs) = (io_wf io cs \<and>
     (case c of
        Fopen p \<Rightarrow> open_path io cs = None \<and> p \<noteq> []
      | Fclose p \<Rightarrow> open_path io cs = Some p
      | Fwrite p line \<Rightarrow> open_path io cs = Some p
      | Fflush p \<Rightarrow> open_path io cs = Some p
      | Log_stderr p \<Rightarrow> True))"

definition file_inv :: "stdio \<Rightarrow> file_writer \<Rightarrow> bool" where
  "file_inv io w \<longleftrightarrow> io_wf io (io_calls w) \<and> open_path io (io_calls w) = log_fp w \<and>
     write_failures w = of_nat (io_failures io (io_calls w)) \<and>
     messages (io_calls w) \<le> opens_ok io (io_calls w) + (if open_failed_logged w then 1 else 0)"

lemma file_inv_init: "file_inv io file_writer_init"
  by (simp add: file_inv_def file_writer_init_def)

lemma open_locked_inv: "file_inv io w \<Longrightarrow> log_fp w = None \<Longrightarrow> file_inv io (snd (open_locked io path w))"
  by (auto simp: file_inv_def open_locked_def Let_def)

lemma open_locked_fp: "log_fp w = None \<Longrightarrow> fst (open_locked io path w) \<longleftrightarrow> log_fp (snd (open_locked io path w)) \<noteq> None"
  by (auto simp: open_locked_def Let_def)

lemma file_writer_close_inv: "file_inv io w \<Longrightarrow> file_inv io (file_writer_close w)"
  by (auto simp: file_inv_def file_writer_close_def split: option.split)

lemma file_writer_close_fp [simp]: "log_fp (file_writer_close w) = None"
  by (simp add: file_writer_close_def split: option.split)

lemma file_writer_reopen_eq: "file_writer_reopen io path w = open_locked io path (file_writer_close w)"
  by (simp add: file_writer_reopen_def file_writer_close_def)

lemma file_writer_reopen_inv: "file_inv io w \<Longrightarrow> file_inv io (snd (file_writer_reopen io path w))"
  by (simp add: file_writer_reopen_eq open_locked_inv file_writer_close_inv)

lemma put_line_inv:
  assumes "file_inv io w" and "log_fp w = Some p"
  shows "fwrite_count io (Fwrite p line # io_calls w) = length line \<Longrightarrow>
      file_inv io (w\<lparr>io_calls := Fflush p # Fwrite p line # io_calls w\<rparr>)"
    and "fwrite_count io (Fwrite p line # io_calls w) \<noteq> length line \<Longrightarrow>
      file_inv io (w\<lparr>write_failures := write_failures w + 1, io_calls := Fwrite p line # io_calls w\<rparr>)"
  using assms by (auto simp: file_inv_def)

text \<open>The writer with its file open, by the lazy open if need be, and the call on it.\<close>

definition write_ready :: "stdio \<Rightarrow> string option \<Rightarrow> file_writer \<Rightarrow> file_writer" where
  "write_ready io path w = (if log_fp w = None then snd (open_locked io path w) else w)"

lemma write_ready_inv: "file_inv io w \<Longrightarrow> file_inv io (write_ready io path w)"
  by (simp add: write_ready_def open_locked_inv)

lemma file_writer_write_eq:
  "file_writer_write io line path w =
     (let w1 = write_ready io path w in
      case log_fp w1 of
        None \<Rightarrow> (False, w1)
      | Some p \<Rightarrow>
          if fwrite_count io (Fwrite p line # io_calls w1) = length line
          then (True, w1\<lparr>io_calls := Fflush p # Fwrite p line # io_calls w1\<rparr>)
          else (False, w1\<lparr>write_failures := write_failures w1 + 1, io_calls := Fwrite p line # io_calls w1\<rparr>))"
  using open_locked_fp [of w io path]
  by (auto simp: file_writer_write_def write_ready_def Let_def split_beta split: option.splits)

lemma file_writer_write_inv: "file_inv io w \<Longrightarrow> file_inv io (snd (file_writer_write io line path w))"
  by (auto simp: file_writer_write_eq Let_def write_ready_inv put_line_inv split: option.split)

lemma file_step_inv: "file_inv io w \<Longrightarrow> file_inv io (snd (file_step io op w))"
  by (cases op) (simp_all add: file_writer_write_inv file_writer_reopen_inv file_writer_close_inv)

lemma run_file_inv: "file_inv io w \<Longrightarrow> file_inv io (snd (run_file io ops w))"
  by (induction ops arbitrary: w) (simp_all add: split_beta file_step_inv)

lemma delivered_open_locked [simp]:
  "delivered io (io_calls (snd (open_locked io path w))) = delivered io (io_calls w)"
  by (simp add: open_locked_def Let_def)

lemma delivered_close [simp]: "delivered io (io_calls (file_writer_close w)) = delivered io (io_calls w)"
  by (simp add: file_writer_close_def split: option.split)

lemma delivered_write:
  "delivered io (io_calls (snd (file_writer_write io line path w))) =
     delivered io (io_calls w) @ (if fst (file_writer_write io line path w) then [line] else [])"
proof -
  have "delivered io (io_calls (write_ready io path w)) = delivered io (io_calls w)"
    by (simp add: write_ready_def)
  then show ?thesis by (simp add: file_writer_write_eq Let_def split: option.split)
qed

text \<open>The lines of the writes that were answered with \<open>true\<close>.\<close>

fun accepted :: "file_op list \<Rightarrow> bool list \<Rightarrow> string list" where
  "accepted (Write line path # ops) (r # rs) = (if r then [line] else []) @ accepted ops rs"
| "accepted (op # ops) (r # rs) = accepted ops rs"
| "accepted _ _ = []"

lemma delivered_run_file:
  "delivered io (io_calls (snd (run_file io ops w))) = delivered io (io_calls w) @ accepted ops (fst (run_file io ops w))"
proof (induction ops arbitrary: w)
  case (Cons op ops)
  then show ?case
    by (cases op) (simp_all add: split_beta delivered_write file_writer_reopen_eq)
qed simp

section \<open>Properties\<close>


text \<open>
  A file that cannot be opened does not flood the server's error log: however often the plugin
  tries, there is at most one message more than there were successful opens.
\<close>

lemma open_failures_do_not_flood:
  "messages (io_calls (snd (run_file io ops file_writer_init))) \<le>
     opens_ok io (io_calls (snd (run_file io ops file_writer_init))) + 1"
  using run_file_inv [OF file_inv_init, of io ops] by (simp add: file_inv_def split: if_splits)

text \<open>
  \<open>file_writer_write\<close> with an empty path and no open file returns \<open>false\<close> and changes nothing: the
  event is lost without being counted as a failed write, although \<open>file_writer_failures\<close> is declared as
  the total of failed writes and opens.
\<close>

lemma empty_path_uncounted:
  "log_fp w = None \<Longrightarrow> file_writer_write io line (Some []) w = (False, w)"
  by (simp add: file_writer_write_def open_locked_def)

lemma empty_path_uncounted_witness:
  "file_writer_write \<lparr>fopen_ok = \<lambda>_. True, fwrite_count = \<lambda>_. 0\<rparr> ''{}'' (Some []) file_writer_init =
     (False, file_writer_init)"
  by (rule empty_path_uncounted) (simp add: file_writer_init_def)

end
