(* ===== verification/Recycle_Policy.thy ===== *)
theory Recycle_Policy
  imports Trace_Prelude
begin

text \<open>
  The connection-recycling counter of \<open>src/writer_recycle_policy.h\<close>: the class
  \<open>WriterRecyclePolicy\<close> with its counters at the 64 bits of \<open>unsigned long\<close>.  The abstract
  counter below keeps only the number of inserts since the connection was last closed.
\<close>

record WriterRecyclePolicy =
  since_recycle :: u64
  recycles :: u64
  threshold :: u64

definition WRITER_RECONNECT_EVERY_N_INSERTS :: u64 where
  "WRITER_RECONNECT_EVERY_N_INSERTS = 20000"

definition new_policy :: "u64 \<Rightarrow> WriterRecyclePolicy" where
  "new_policy t = \<lparr>since_recycle = 0, recycles = 0, threshold = t\<rparr>"

definition note_insert :: "WriterRecyclePolicy \<Rightarrow> bool \<times> WriterRecyclePolicy" where
  "note_insert p =
     (if threshold p = 0 then (False, p)
      else let p1 = p\<lparr>since_recycle := since_recycle p + 1\<rparr> in
        if since_recycle p1 < threshold p1 then (False, p1)
        else (True, p1\<lparr>since_recycle := 0, recycles := recycles p1 + 1\<rparr>))"

definition note_connection_reset :: "WriterRecyclePolicy \<Rightarrow> WriterRecyclePolicy" where
  "note_connection_reset p = p\<lparr>since_recycle := 0\<rparr>"

text \<open>The calls the writer thread makes, and the answers it gets to its inserts.\<close>

datatype policy_call = Insert | Reset

fun policy_step :: "policy_call \<Rightarrow> WriterRecyclePolicy \<Rightarrow> bool list \<times> WriterRecyclePolicy" where
  "policy_step Insert p = (let (r, p1) = note_insert p in ([r], p1))"
| "policy_step Reset p = ([], note_connection_reset p)"

fun run_policy :: "policy_call list \<Rightarrow> WriterRecyclePolicy \<Rightarrow> bool list \<times> WriterRecyclePolicy" where
  "run_policy [] p = ([], p)"
| "run_policy (c # calls) p =
     (let (r, p1) = policy_step c p; (rs, p2) = run_policy calls p1 in (r @ rs, p2))"

lemma threshold_note_insert [simp]: "threshold (snd (note_insert p)) = threshold p"
  by (simp add: note_insert_def Let_def)

lemma threshold_note_connection_reset [simp]: "threshold (note_connection_reset p) = threshold p"
  by (simp add: note_connection_reset_def)

lemma threshold_policy_step [simp]: "threshold (snd (policy_step c p)) = threshold p"
  by (cases c) (simp_all add: split_beta)

lemma threshold_run_policy [simp]: "threshold (snd (run_policy calls p)) = threshold p"
  by (induction calls arbitrary: p) (simp_all add: split_beta)

lemma run_policy_append:
  "run_policy (xs @ ys) p =
     (fst (run_policy xs p) @ fst (run_policy ys (snd (run_policy xs p))),
      snd (run_policy ys (snd (run_policy xs p))))"
  by (induction xs arbitrary: p) (simp_all add: split_beta)

section \<open>The counter stays below the threshold\<close>

definition policy_inv :: "WriterRecyclePolicy \<Rightarrow> bool" where
  "policy_inv p \<longleftrightarrow> threshold p \<noteq> 0 \<and> since_recycle p < threshold p"

lemma policy_inv_new: "t \<noteq> 0 \<Longrightarrow> policy_inv (new_policy t)"
  by (simp add: policy_inv_def new_policy_def word_gt_0)

lemma policy_inv_note_insert: "policy_inv p \<Longrightarrow> policy_inv (snd (note_insert p))"
  by (auto simp: policy_inv_def note_insert_def Let_def word_gt_0)

lemma policy_inv_note_connection_reset: "policy_inv p \<Longrightarrow> policy_inv (note_connection_reset p)"
  by (auto simp: policy_inv_def note_connection_reset_def word_gt_0)

lemma policy_inv_step: "policy_inv p \<Longrightarrow> policy_inv (snd (policy_step c p))"
  by (cases c) (simp_all add: split_beta policy_inv_note_insert policy_inv_note_connection_reset)

lemma policy_inv_run: "policy_inv p \<Longrightarrow> policy_inv (snd (run_policy calls p))"
  by (induction calls arbitrary: p) (simp_all add: split_beta policy_inv_step)

text \<open>The increment does not wrap around, so one call is a step of a counter over the naturals.\<close>

lemma unat_since_Suc:
  assumes "policy_inv p"
  shows "unat (since_recycle p + 1) = unat (since_recycle p) + 1"
proof -
  have "unat (threshold p) < 2 ^ LENGTH(64)" by (rule unsigned_less)
  then have "unat (since_recycle p) + 1 < 2 ^ 64"
    using assms by (simp add: policy_inv_def word_less_nat_alt)
  then show ?thesis by (simp add: unat_word_ariths)
qed

lemma note_insert_nat:
  assumes "policy_inv p"
  shows "fst (note_insert p) \<longleftrightarrow> unat (since_recycle p) + 1 = unat (threshold p)"
    and "unat (since_recycle (snd (note_insert p))) = (unat (since_recycle p) + 1) mod unat (threshold p)"
    and "recycles (snd (note_insert p)) = recycles p + (if fst (note_insert p) then 1 else 0)"
proof -
  have lt: "unat (since_recycle p) < unat (threshold p)"
    using assms by (simp add: policy_inv_def word_less_nat_alt)
  note step = note_insert_def Let_def word_less_nat_alt unat_since_Suc [OF assms]
  have nz: "threshold p \<noteq> 0" using assms by (simp add: policy_inv_def)
  show "fst (note_insert p) \<longleftrightarrow> unat (since_recycle p) + 1 = unat (threshold p)"
    using lt nz by (auto simp: step)
  show "unat (since_recycle (snd (note_insert p))) = (unat (since_recycle p) + 1) mod unat (threshold p)"
    using lt nz by (auto simp: step not_less le_Suc_eq)
  show "recycles (snd (note_insert p)) = recycles p + (if fst (note_insert p) then 1 else 0)"
    by (auto simp: note_insert_def Let_def)
qed

section \<open>The answers to a run of inserts\<close>

lemma Suc_mod_zero: "s < t \<Longrightarrow> s + 1 = t \<longleftrightarrow> t dvd Suc s" for s t :: nat
  by (metis Suc_eq_plus1 Suc_lessI dvd_refl mod_less mod_0_imp_dvd nat_neq_iff nat_dvd_not_less zero_less_Suc)

lemma run_inserts:
  assumes "policy_inv p"
  defines "t \<equiv> unat (threshold p)" and "s \<equiv> unat (since_recycle p)"
  shows "fst (run_policy (replicate n Insert) p) = map (\<lambda>k. t dvd s + k) [1..<Suc n] \<and>
    unat (since_recycle (snd (run_policy (replicate n Insert) p))) = (s + n) mod t \<and>
    recycles (snd (run_policy (replicate n Insert) p)) = recycles p + of_nat ((s + n) div t)"
proof (induction n)
  case 0
  have "s < t" using assms by (simp add: policy_inv_def word_less_nat_alt)
  then show ?case by (simp add: s_def)
next
  case (Suc n)
  define q where "q = snd (run_policy (replicate n Insert) p)"
  have q: "policy_inv q" "threshold q = threshold p"
    using assms(1) by (simp_all add: q_def policy_inv_run)
  have since: "unat (since_recycle q) = (s + n) mod t" using Suc by (simp add: q_def)
  have t: "0 < t" using assms(1) by (simp add: t_def policy_inv_def unat_gt_0)
  have "fst (note_insert q) \<longleftrightarrow> t dvd s + Suc n"
    using note_insert_nat(1) [OF q(1)] Suc_mod_zero [of "(s + n) mod t" t] t q(2)
    by (simp add: since t_def [symmetric] dvd_eq_mod_eq_0 mod_Suc_eq)
  moreover have "unat (since_recycle (snd (note_insert q))) = (s + Suc n) mod t"
    using note_insert_nat(2) [OF q(1)] q(2) by (simp add: since t_def [symmetric] mod_Suc_eq)
  moreover have "of_nat ((s + Suc n) div t) = (of_nat ((s + n) div t) :: u64) + (if t dvd s + Suc n then 1 else 0)"
    by (simp add: div_Suc dvd_eq_mod_eq_0)
  moreover have "replicate (Suc n) Insert = replicate n Insert @ [Insert]"
    by (simp add: replicate_append_same)
  ultimately show ?case
    using Suc note_insert_nat(3) [OF q(1)]
    by (simp add: run_policy_append q_def [symmetric] split_beta del: replicate.simps)
qed

lemma policy_inv_history: "t \<noteq> 0 \<Longrightarrow> policy_inv (snd (run_policy calls (new_policy t)))"
  by (rule policy_inv_run [OF policy_inv_new])

lemma since_fresh:
  "calls = [] \<or> last calls = Reset \<Longrightarrow> since_recycle (snd (run_policy calls (new_policy t))) = 0"
  by (cases calls rule: rev_cases)
    (auto simp: new_policy_def run_policy_append note_connection_reset_def)

lemma threshold_new [simp]: "threshold (new_policy t) = t"
  by (simp add: new_policy_def)

section \<open>Properties\<close>

text \<open>
  On a connection that starts fresh (the writer's first, or one opened after a reset at any point
  of any history of calls) the \<open>k\<close>-th insert is answered with \<open>true\<close> exactly when the threshold divides
  \<open>k\<close>; the counter holds the remainder, and the recycle count has grown by the quotient, modulo 2 ^ 64.
\<close>

lemma recycle_period:
  assumes "t \<noteq> 0" and "calls = [] \<or> last calls = Reset"
  defines "p \<equiv> snd (run_policy calls (new_policy t))"
  shows "fst (run_policy (replicate n Insert) p) = map (\<lambda>k. unat t dvd k) [1..<Suc n] \<and>
    unat (since_recycle (snd (run_policy (replicate n Insert) p))) = n mod unat t \<and>
    recycles (snd (run_policy (replicate n Insert) p)) = recycles p + of_nat (n div unat t)"
  using run_inserts [OF policy_inv_history [OF assms(1)], of n calls] since_fresh [OF assms(2), of t]
  by (simp add: p_def)

lemma recycle_period_witness:
  "fst (run_policy (replicate 7 Insert) (snd (run_policy [Insert, Insert, Reset] (new_policy 3)))) =
     map (\<lambda>k. unat (3 :: u64) dvd k) [1..<Suc 7] \<and>
   fst (run_policy (replicate 7 Insert) (snd (run_policy [Insert, Insert, Reset] (new_policy 3)))) =
     [False, False, True, False, False, True, False]"
  using recycle_period [of 3 "[Insert, Insert, Reset]" 7]
  by (intro conjI) (simp del: run_policy.simps, code_simp)

text \<open>
  However inserts and resets alternate, one connection never carries more inserts than the
  threshold: among any \<open>threshold\<close> consecutive inserts one is answered with \<open>true\<close>, the counter stays
  below the threshold at every moment and its increment never wraps around.
\<close>

lemma recycle_bounds_connection:
  assumes "t \<noteq> 0"
  shows "True \<in> set (fst (run_policy (replicate (unat t) Insert) (snd (run_policy calls (new_policy t))))) \<and>
    since_recycle (snd (run_policy calls (new_policy t))) < t \<and>
    unat (since_recycle (snd (run_policy calls (new_policy t))) + 1) =
      unat (since_recycle (snd (run_policy calls (new_policy t)))) + 1"
proof -
  let ?p = "snd (run_policy calls (new_policy t))"
  have inv: "policy_inv ?p" by (rule policy_inv_history [OF assms])
  then have lt: "since_recycle ?p < t" by (simp add: policy_inv_def)
  then have "unat t - unat (since_recycle ?p) \<in> set [1..<Suc (unat t)]"
    and "unat t dvd unat (since_recycle ?p) + (unat t - unat (since_recycle ?p))"
    by (auto simp: word_less_nat_alt)
  then have "True \<in> set (fst (run_policy (replicate (unat t) Insert) ?p))"
    using run_inserts [OF inv, of "unat t"] by (auto simp: image_iff simp del: upt_Suc)
  then show ?thesis using lt unat_since_Suc [OF inv] by simp
qed

lemma recycle_bounds_connection_witness:
  "True \<in> set (fst (run_policy (replicate (unat (4 :: u64)) Insert)
     (snd (run_policy [Insert, Insert, Reset, Insert] (new_policy 4)))))"
  using recycle_bounds_connection [of 4 "[Insert, Insert, Reset, Insert]"] by simp

text \<open>
  A threshold of 0 switches recycling off: no call is ever answered with \<open>true\<close> and nothing is
  counted.  The default of 20000 keeps it on.
\<close>

lemma recycle_disabled:
  "True \<notin> set (fst (run_policy calls (new_policy 0))) \<and>
   recycles (snd (run_policy calls (new_policy 0))) = 0 \<and>
   policy_inv (new_policy WRITER_RECONNECT_EVERY_N_INSERTS)"
proof -
  have "threshold p = 0 \<Longrightarrow> True \<notin> set (fst (run_policy calls p)) \<and>
      recycles (snd (run_policy calls p)) = recycles p" for p
  proof (induction calls arbitrary: p)
    case (Cons c calls)
    then have "True \<notin> set (fst (policy_step c p)) \<and> recycles (snd (policy_step c p)) = recycles p"
      by (cases c) (simp_all add: note_insert_def note_connection_reset_def)
    then show ?case using Cons.IH [of "snd (policy_step c p)"] Cons.prems by (simp add: split_beta)
  qed simp
  from this [of "new_policy 0"] show ?thesis
    by (simp add: policy_inv_new WRITER_RECONNECT_EVERY_N_INSERTS_def) (simp add: new_policy_def)
qed

end
