(* ===== verification/Table_Writer.thy ===== *)
theory Table_Writer
  imports Recycle_Policy "HOL-Library.Sublist"
begin

text \<open>
  The SQL side of the TABLE writer, \<open>src/log_writer_table_mysql.cc\<close>: \<open>acquire_services\<close>,
  \<open>release_services\<close>, \<open>close_conn\<close>, \<open>last_errno\<close>, \<open>last_errmsg\<close>, \<open>ensure_conn\<close>, \<open>run_insert\<close>, the inner loop
  of \<open>writer_thread_func\<close> and its epilogue.  All of it runs on the writer thread only.

  The server's command services are a parameter: what a call answers is an arbitrary function of the
  calls made so far, newest first with the call being answered at the head.  Messages on \<open>stderr\<close> are
  calls too, where the code decides whether to print.
\<close>

type_synonym handle = u64

datatype svc_call =
    Registry_acquire | Registry_release | Acquire string | Release string
  | Thread_init | Thread_end | Factory_init | Connect handle | Close_handle handle
  | Query handle string | Sql_errno handle | Sql_error handle | Log_insert_error u32

record services =
  call_failed :: "svc_call list \<Rightarrow> bool"
  new_handle :: "svc_call list \<Rightarrow> handle"
  errno_value :: "svc_call list \<Rightarrow> u32"

text \<open>The static variables of the writer thread; \<open>com_ptrs\<close> names the service pointers that are not
  \<open>NULL\<close>, \<open>svc_calls\<close> is the history of calls.\<close>

record writer =
  reg_srv :: bool
  com_ptrs :: "string list"
  command_h :: "handle option"
  services_acquired :: bool
  command_thread_inited :: bool
  insert_failures :: u64
  last_logged_errno :: u32
  recycle_policy :: WriterRecyclePolicy
  svc_calls :: "svc_call list"

definition new_writer :: "u64 \<Rightarrow> writer" where
  "new_writer t = \<lparr>reg_srv = False, com_ptrs = [], command_h = None, services_acquired = False,
     command_thread_inited = False, insert_failures = 0, last_logged_errno = 0,
     recycle_policy = new_policy t, svc_calls = []\<rparr>"

definition tick :: "string \<Rightarrow> string" where
  "tick s = CHR 0x60 # s @ [CHR 0x60]"

definition LOG_TABLE_FQN :: string where
  "LOG_TABLE_FQN = ''mysql.selective_trace_events''"

definition CREATE_LOG_TABLE_SQL :: string where
  "CREATE_LOG_TABLE_SQL =
     ''CREATE TABLE IF NOT EXISTS '' @ LOG_TABLE_FQN @ '' ('' @
     '' '' @ tick ''id'' @ '' BIGINT UNSIGNED NOT NULL AUTO_INCREMENT PRIMARY KEY,'' @
     '' '' @ tick ''ts'' @ '' DATETIME(3) NOT NULL,'' @
     '' '' @ tick ''conn_id'' @ '' BIGINT UNSIGNED NOT NULL,'' @
     '' '' @ tick ''query_id'' @ '' BIGINT UNSIGNED NOT NULL,'' @
     '' '' @ tick ''user'' @ '' VARCHAR(384) NOT NULL DEFAULT '' @ [CHR 0x27, CHR 0x27] @ '','' @
     '' '' @ tick ''db'' @ '' VARCHAR(192) NOT NULL DEFAULT '' @ [CHR 0x27, CHR 0x27] @ '','' @
     '' '' @ tick ''tables_involved'' @ '' TEXT NOT NULL,'' @
     '' '' @ tick ''command'' @ '' VARCHAR(32) NOT NULL DEFAULT '' @ [CHR 0x27, CHR 0x27] @ '','' @
     '' '' @ tick ''duration_ms'' @ '' DOUBLE NULL,'' @
     '' '' @ tick ''error_code'' @ '' INT NOT NULL DEFAULT 0,'' @
     '' '' @ tick ''query'' @ '' MEDIUMTEXT NOT NULL,'' @
     '' KEY '' @ tick ''idx_selective_trace_ts'' @ '' ('' @ tick ''ts'' @ '')'' @
     '') ENGINE=InnoDB DEFAULT CHARSET=utf8mb4''"

definition set_mode :: string where
  "set_mode = ''SET SESSION sql_mode='' @ [CHR 0x27, CHR 0x27]"

section \<open>Services\<close>

definition wanted :: "string list" where
  "wanted = [''mysql_command_factory'', ''mysql_command_options'', ''mysql_command_query'',
     ''mysql_command_query_result'', ''mysql_command_field_info'', ''mysql_command_error_info'',
     ''mysql_command_thread'']"

text \<open>The value both exits of \<open>acquire_services\<close> return.\<close>

definition usable :: "writer \<Rightarrow> bool" where
  "usable w \<longleftrightarrow> ''mysql_command_factory'' \<in> set (com_ptrs w) \<and> ''mysql_command_query'' \<in> set (com_ptrs w) \<and>
     ''mysql_command_error_info'' \<in> set (com_ptrs w) \<and> ''mysql_command_thread'' \<in> set (com_ptrs w)"

fun acquire_loop :: "services \<Rightarrow> string list \<Rightarrow> string list \<times> svc_call list \<Rightarrow> string list \<times> svc_call list" where
  "acquire_loop srv [] (got, calls) = (got, calls)"
| "acquire_loop srv (name # names) (got, calls) =
     (let calls1 = Acquire name # calls in
      acquire_loop srv names (if call_failed srv calls1 then got else got @ [name], calls1))"

definition acquire_services :: "services \<Rightarrow> writer \<Rightarrow> bool \<times> writer" where
  "acquire_services srv w =
     (if services_acquired w then (usable w, w)
      else let calls = Registry_acquire # svc_calls w in
        if call_failed srv calls then (False, w\<lparr>reg_srv := False, svc_calls := calls\<rparr>)
        else let (got, calls1) = acquire_loop srv wanted ([], calls);
                 w1 = w\<lparr>reg_srv := True, com_ptrs := got, services_acquired := True, svc_calls := calls1\<rparr>
             in (usable w1, w1))"

definition release_services :: "writer \<Rightarrow> writer" where
  "release_services w =
     (if \<not> services_acquired w \<or> \<not> reg_srv w then w
      else w\<lparr>svc_calls := Registry_release # rev (map Release (com_ptrs w)) @ svc_calls w,
             reg_srv := False, services_acquired := False, com_ptrs := []\<rparr>)"

section \<open>The connection\<close>

definition close_conn :: "writer \<Rightarrow> writer" where
  "close_conn w =
     (case command_h w of
        Some h \<Rightarrow> if ''mysql_command_factory'' \<in> set (com_ptrs w)
                  then w\<lparr>command_h := None, svc_calls := Close_handle h # svc_calls w\<rparr> else w
      | None \<Rightarrow> w)"

definition last_errno :: "services \<Rightarrow> writer \<Rightarrow> u32 \<times> writer" where
  "last_errno srv w =
     (case command_h w of
        None \<Rightarrow> (0, w)
      | Some h \<Rightarrow>
          if ''mysql_command_error_info'' \<notin> set (com_ptrs w) then (0, w)
          else let calls = Sql_errno h # svc_calls w in
            (if call_failed srv calls then 0 else errno_value srv calls, w\<lparr>svc_calls := calls\<rparr>))"

text \<open>\<open>last_errmsg\<close>: the text is only printed, what remains of it is the service call.\<close>

definition last_errmsg :: "writer \<Rightarrow> writer" where
  "last_errmsg w =
     (case command_h w of
        None \<Rightarrow> w
      | Some h \<Rightarrow>
          if ''mysql_command_error_info'' \<notin> set (com_ptrs w) then w
          else w\<lparr>svc_calls := Sql_error h # svc_calls w\<rparr>)"

text \<open>The two middle parts of \<open>ensure_conn\<close>: registering the thread with the command services, and the
  calls that make a session, pin its \<open>sql_mode\<close> and create the log table.\<close>

definition thread_ready :: "services \<Rightarrow> writer \<Rightarrow> bool \<times> writer" where
  "thread_ready srv w =
     (if command_thread_inited w then (True, w)
      else let calls = Thread_init # svc_calls w in
        if call_failed srv calls then (False, w\<lparr>svc_calls := calls\<rparr>)
        else (True, w\<lparr>command_thread_inited := True, svc_calls := calls\<rparr>))"

definition open_session :: "services \<Rightarrow> writer \<Rightarrow> bool \<times> writer" where
  "open_session srv w =
     (let calls = Factory_init # svc_calls w in
      if call_failed srv calls then (False, w\<lparr>command_h := None, svc_calls := calls\<rparr>)
      else
        let h = new_handle srv calls;
            calls1 = Connect h # calls;
            w3 = w\<lparr>command_h := Some h, svc_calls := calls1\<rparr> in
        if call_failed srv calls1 then (False, close_conn w3)
        else
          let calls2 = Query h set_mode # calls1;
              w4 = w3\<lparr>svc_calls := calls2\<rparr> in
          if call_failed srv calls2 then (False, close_conn w4)
          else
            let calls3 = Query h CREATE_LOG_TABLE_SQL # calls2;
                w5 = w4\<lparr>svc_calls := calls3\<rparr> in
            (True, if call_failed srv calls3 then last_errmsg (snd (last_errno srv w5)) else w5))"

definition ensure_conn :: "services \<Rightarrow> writer \<Rightarrow> bool \<times> writer" where
  "ensure_conn srv w =
     (if command_h w \<noteq> None then (True, w)
      else let (ok, w1) = acquire_services srv w in
        if \<not> ok then (False, w1)
        else let (inited, w2) = thread_ready srv w1 in
          if \<not> inited then (False, w2)
          else open_session srv w2)"

text \<open>\<open>com_query->query(command_h, sql)\<close>: whether it failed.\<close>

definition query :: "services \<Rightarrow> string \<Rightarrow> writer \<Rightarrow> bool \<times> writer" where
  "query srv sql w =
     (case command_h w of
        None \<Rightarrow> (True, w)
      | Some h \<Rightarrow> let calls = Query h sql # svc_calls w in (call_failed srv calls, w\<lparr>svc_calls := calls\<rparr>))"

definition count_failure :: "u32 \<Rightarrow> writer \<Rightarrow> writer" where
  "count_failure err w =
     (let w1 = w\<lparr>insert_failures := insert_failures w + 1\<rparr> in
      if err \<noteq> last_logged_errno w1
      then last_errmsg (w1\<lparr>last_logged_errno := err, svc_calls := Log_insert_error err # svc_calls w1\<rparr>)
      else w1)"

definition run_insert :: "services \<Rightarrow> string \<Rightarrow> writer \<Rightarrow> writer" where
  "run_insert srv sql w =
     (let (ok, w1) = ensure_conn srv w in
      if \<not> ok then w1\<lparr>insert_failures := insert_failures w1 + 1\<rparr>
      else let (failed, w2) = query srv sql w1 in
      if \<not> failed then w2
      else let (err, w3) = last_errno srv w2 in
      if err = 1146 \<or> err = 1049 then
        let w4 = snd (query srv CREATE_LOG_TABLE_SQL w3);
            (failed2, w5) = query srv sql w4 in
        if \<not> failed2 then w5
        else let (err2, w6) = last_errno srv w5 in count_failure err2 w6
      else if err = 2006 \<or> err = 2013 then
        let w4 = close_conn w3;
            w5 = w4\<lparr>recycle_policy := note_connection_reset (recycle_policy w4)\<rparr>;
            (ok2, w6) = ensure_conn srv w5;
            (failed2, w7) = (if ok2 then query srv sql w6 else (True, w6)) in
        if \<not> failed2 then w7
        else let (err2, w8) = last_errno srv w7 in count_failure err2 w8
      else count_failure err w3)"

section \<open>The writer thread\<close>

text \<open>One round of the loop over the batch: the insert, then the recycling.\<close>

definition write_event :: "services \<Rightarrow> string \<Rightarrow> writer \<Rightarrow> writer" where
  "write_event srv sql w =
     (let w1 = run_insert srv sql w;
          (recycle, p) = note_insert (recycle_policy w1);
          w2 = w1\<lparr>recycle_policy := p\<rparr>
      in if recycle then close_conn w2 else w2)"

definition run_batch :: "services \<Rightarrow> string list \<Rightarrow> writer \<Rightarrow> writer" where
  "run_batch srv batch w = fold (write_event srv) batch w"

definition thread_start :: "writer \<Rightarrow> writer" where
  "thread_start w = w\<lparr>recycle_policy := note_connection_reset (recycle_policy w)\<rparr>"

definition thread_finish :: "writer \<Rightarrow> writer" where
  "thread_finish w =
     (let w1 = close_conn w;
          w2 = (if command_thread_inited w1 \<and> ''mysql_command_thread'' \<in> set (com_ptrs w1)
                then w1\<lparr>command_thread_inited := False, svc_calls := Thread_end # svc_calls w1\<rparr> else w1)
      in release_services w2)"

definition table_writer_failures :: "writer \<Rightarrow> u64" where
  "table_writer_failures w = insert_failures w"

definition table_writer_reconnects :: "writer \<Rightarrow> u64" where
  "table_writer_reconnects w = recycles (recycle_policy w)"

section \<open>Reading the history\<close>

text \<open>How far the current session has come: created, connected, and with its \<open>sql_mode\<close> pinned.\<close>

datatype phase = Created | Connected | Pinned

fun session :: "services \<Rightarrow> svc_call list \<Rightarrow> (handle \<times> phase) option" where
  "session srv [] = None"
| "session srv (c # cs) =
     (case c of
        Factory_init \<Rightarrow> if call_failed srv (c # cs) then None else Some (new_handle srv (c # cs), Created)
      | Connect h \<Rightarrow>
          if session srv cs = Some (h, Created) \<and> \<not> call_failed srv (c # cs) then Some (h, Connected)
          else session srv cs
      | Query h sql \<Rightarrow>
          if sql = set_mode \<and> session srv cs = Some (h, Connected) \<and> \<not> call_failed srv (c # cs)
          then Some (h, Pinned) else session srv cs
      | Close_handle h \<Rightarrow> None
      | _ \<Rightarrow> session srv cs)"

text \<open>Every statement but the pin itself runs on the current session after its pin has succeeded; and
  a session is closed exactly when it is open, never left behind.\<close>

fun sql_safe :: "services \<Rightarrow> svc_call list \<Rightarrow> bool" where
  "sql_safe srv [] = True"
| "sql_safe srv (c # cs) = (sql_safe srv cs \<and>
     (case c of
        Factory_init \<Rightarrow> session srv cs = None
      | Query h sql \<Rightarrow> session srv cs = Some (h, Pinned) \<or> sql = set_mode \<and> session srv cs = Some (h, Connected)
      | Close_handle h \<Rightarrow> (\<exists>ph. session srv cs = Some (h, ph))
      | _ \<Rightarrow> True))"

text \<open>The events whose statement succeeded, oldest first.\<close>

fun executed :: "services \<Rightarrow> svc_call list \<Rightarrow> string list" where
  "executed srv [] = []"
| "executed srv (c # cs) = executed srv cs @
     (case c of
        Query h sql \<Rightarrow>
          if \<not> call_failed srv (c # cs) \<and> sql \<noteq> set_mode \<and> sql \<noteq> CREATE_LOG_TABLE_SQL then [sql] else []
      | _ \<Rightarrow> [])"

text \<open>The attempts to run an event's statement on the current session.\<close>

fun attempts :: "svc_call list \<Rightarrow> nat" where
  "attempts [] = 0"
| "attempts (c # cs) =
     (case c of
        Query h sql \<Rightarrow> attempts cs + (if sql \<noteq> set_mode \<and> sql \<noteq> CREATE_LOG_TABLE_SQL then 1 else 0)
      | Close_handle h \<Rightarrow> 0
      | Factory_init \<Rightarrow> 0
      | _ \<Rightarrow> attempts cs)"

definition conn_inv :: "services \<Rightarrow> writer \<Rightarrow> bool" where
  "conn_inv srv w \<longleftrightarrow> sql_safe srv (svc_calls w) \<and>
     session srv (svc_calls w) = map_option (\<lambda>h. (h, Pinned)) (command_h w) \<and>
     (command_h w \<noteq> None \<longrightarrow> services_acquired w \<and> usable w) \<and>
     (command_h w = None \<longrightarrow> attempts (svc_calls w) = 0)"

lemma set_mode_not_create: "set_mode \<noteq> CREATE_LOG_TABLE_SQL"
  by (simp add: set_mode_def CREATE_LOG_TABLE_SQL_def)

text \<open>Calls that neither touch a session nor run an event.\<close>

definition neutral :: "svc_call \<Rightarrow> bool" where
  "neutral c \<longleftrightarrow> (case c of Factory_init \<Rightarrow> False | Connect _ \<Rightarrow> False | Close_handle _ \<Rightarrow> False | Query _ _ \<Rightarrow> False | _ \<Rightarrow> True)"

lemma neutral_simps [simp]:
  "neutral Registry_acquire" "neutral Registry_release" "neutral (Acquire s)" "neutral (Release s)"
  "neutral Thread_init" "neutral Thread_end" "neutral (Sql_errno h)" "neutral (Sql_error h)" "neutral (Log_insert_error e)"
  by (simp_all add: neutral_def)

lemma neutral_call:
  assumes "neutral c"
  shows "session srv (c # cs) = session srv cs" "sql_safe srv (c # cs) = sql_safe srv cs"
    "executed srv (c # cs) = executed srv cs" "attempts (c # cs) = attempts cs"
  using assms by (auto simp: neutral_def split: svc_call.splits)

lemma neutral_calls:
  "list_all neutral ds \<Longrightarrow> session srv (ds @ cs) = session srv cs \<and> sql_safe srv (ds @ cs) = sql_safe srv cs \<and>
    executed srv (ds @ cs) = executed srv cs \<and> attempts (ds @ cs) = attempts cs"
  by (induction ds) (simp_all add: neutral_call del: session.simps sql_safe.simps executed.simps attempts.simps)

text \<open>The part of the writer an operation may leave alone.\<close>

definition quiet_step :: "writer \<Rightarrow> writer \<Rightarrow> bool" where
  "quiet_step w w' \<longleftrightarrow> (\<exists>ds. list_all neutral ds \<and> svc_calls w' = ds @ svc_calls w) \<and>
     command_h w' = command_h w \<and> recycle_policy w' = recycle_policy w \<and> insert_failures w' = insert_failures w \<and>
     (services_acquired w \<longrightarrow> services_acquired w' \<and> com_ptrs w' = com_ptrs w)"

lemma quiet_step_refl [simp]: "quiet_step w w"
  by (auto simp: quiet_step_def intro: exI [of _ "[]"])

lemma quiet_step_trans: "quiet_step u v \<Longrightarrow> quiet_step v w \<Longrightarrow> quiet_step u w"
  unfolding quiet_step_def by (auto simp: list_all_iff)

lemma quiet_step_facts:
  assumes "quiet_step w w'"
  shows "executed srv (svc_calls w') = executed srv (svc_calls w)" "attempts (svc_calls w') = attempts (svc_calls w)"
    "insert_failures w' = insert_failures w" "recycle_policy w' = recycle_policy w"
    "command_h w' = command_h w" "conn_inv srv w \<Longrightarrow> conn_inv srv w'"
proof -
  obtain ds where ds: "list_all neutral ds" "svc_calls w' = ds @ svc_calls w" using assms by (auto simp: quiet_step_def)
  show "executed srv (svc_calls w') = executed srv (svc_calls w)" "attempts (svc_calls w') = attempts (svc_calls w)"
    using neutral_calls [OF ds(1)] by (simp_all add: ds(2))
  show "insert_failures w' = insert_failures w" "recycle_policy w' = recycle_policy w" "command_h w' = command_h w"
    using assms by (simp_all add: quiet_step_def)
  show "conn_inv srv w \<Longrightarrow> conn_inv srv w'"
    using assms neutral_calls [OF ds(1), of srv "svc_calls w"] by (auto simp: conn_inv_def quiet_step_def ds(2) usable_def)
qed

section \<open>The connection is pinned whenever it is open\<close>

lemma quiet_stepI:
  "svc_calls w' = ds @ svc_calls w \<Longrightarrow> list_all neutral ds \<Longrightarrow> command_h w' = command_h w \<Longrightarrow>
   recycle_policy w' = recycle_policy w \<Longrightarrow> insert_failures w' = insert_failures w \<Longrightarrow>
   (services_acquired w \<Longrightarrow> services_acquired w' \<and> com_ptrs w' = com_ptrs w) \<Longrightarrow> quiet_step w w'"
  by (auto simp: quiet_step_def)

lemma acquire_loop_calls:
  "\<exists>ds. list_all neutral ds \<and> snd (acquire_loop srv names (got, calls)) = ds @ calls"
proof (induction names arbitrary: got calls)
  case (Cons name names)
  obtain ds where "list_all neutral ds"
    "snd (acquire_loop srv names (if call_failed srv (Acquire name # calls) then got else got @ [name], Acquire name # calls)) =
      ds @ Acquire name # calls"
    using Cons.IH by blast
  then show ?case by (intro exI [of _ "ds @ [Acquire name]"]) (simp add: Let_def)
qed simp

lemma acquire_services_quiet: "quiet_step w (snd (acquire_services srv w))"
proof (cases "services_acquired w \<or> call_failed srv (Registry_acquire # svc_calls w)")
  case True
  then show ?thesis
    by (auto simp: acquire_services_def Let_def intro: quiet_stepI [of _ "[Registry_acquire]"])
next
  case False
  obtain ds where "list_all neutral ds"
    "snd (acquire_loop srv wanted ([], Registry_acquire # svc_calls w)) = ds @ Registry_acquire # svc_calls w"
    using acquire_loop_calls by blast
  then show ?thesis
    using False by (intro quiet_stepI [of _ "ds @ [Registry_acquire]"]) (auto simp: acquire_services_def Let_def split_beta)
qed

lemma acquire_services_ok: "fst (acquire_services srv w) \<Longrightarrow>
    services_acquired (snd (acquire_services srv w)) \<and> usable (snd (acquire_services srv w))"
  by (auto simp: acquire_services_def Let_def split_beta split: if_splits)

lemma last_errno_quiet: "quiet_step w (snd (last_errno srv w))"
  by (auto simp: last_errno_def Let_def split: option.split intro: quiet_stepI [of _ "[Sql_errno h]" for h])

lemma last_errmsg_quiet: "quiet_step w (last_errmsg w)"
  by (auto simp: last_errmsg_def split: option.split intro: quiet_stepI [of _ "[Sql_error h]" for h])

lemma close_conn_facts:
  assumes "conn_inv srv w"
  shows "conn_inv srv (close_conn w)" "command_h (close_conn w) = None"
    "executed srv (svc_calls (close_conn w)) = executed srv (svc_calls w)"
    "insert_failures (close_conn w) = insert_failures w" "recycle_policy (close_conn w) = recycle_policy w"
    "attempts (svc_calls (close_conn w)) = 0"
  using assms by (auto simp: conn_inv_def close_conn_def usable_def split: option.split)

lemma query_facts:
  assumes "conn_inv srv w" and "command_h w = Some h" and "sql \<noteq> set_mode"
  shows "conn_inv srv (snd (query srv sql w))" "command_h (snd (query srv sql w)) = Some h"
    "executed srv (svc_calls (snd (query srv sql w))) = executed srv (svc_calls w) @
       (if sql \<noteq> CREATE_LOG_TABLE_SQL \<and> \<not> fst (query srv sql w) then [sql] else [])"
    "insert_failures (snd (query srv sql w)) = insert_failures w"
    "recycle_policy (snd (query srv sql w)) = recycle_policy w"
    "attempts (svc_calls (snd (query srv sql w))) = attempts (svc_calls w) + (if sql = CREATE_LOG_TABLE_SQL then 0 else 1)"
  using assms by (auto simp: conn_inv_def query_def Let_def usable_def)

lemma thread_ready_quiet: "quiet_step w (snd (thread_ready srv w))"
  by (auto simp: thread_ready_def Let_def intro: quiet_stepI [of _ "[Thread_init]"])

lemma thread_ready_usable: "usable (snd (thread_ready srv w)) = usable w"
    "services_acquired (snd (thread_ready srv w)) = services_acquired w"
  by (simp_all add: thread_ready_def usable_def Let_def)

lemma open_session_facts:
  assumes "conn_inv srv w" and "command_h w = None" and "services_acquired w" and "usable w"
  shows "conn_inv srv (snd (open_session srv w)) \<and>
    (fst (open_session srv w) \<longleftrightarrow> command_h (snd (open_session srv w)) \<noteq> None) \<and>
    executed srv (svc_calls (snd (open_session srv w))) = executed srv (svc_calls w) \<and>
    insert_failures (snd (open_session srv w)) = insert_failures w \<and>
    recycle_policy (snd (open_session srv w)) = recycle_policy w \<and>
    attempts (svc_calls (snd (open_session srv w))) = 0"
proof -
  define h where "h = new_handle srv (Factory_init # svc_calls w)"
  define cs where "cs = Query h CREATE_LOG_TABLE_SQL # Query h set_mode # Connect h # Factory_init # svc_calls w"
  define w5 where "w5 = w\<lparr>command_h := Some h, svc_calls := cs\<rparr>"
  have quiet: "quiet_step w5 (last_errmsg (snd (last_errno srv w5)))"
    by (rule quiet_step_trans [OF last_errno_quiet last_errmsg_quiet])
  have usable': "usable (w\<lparr>command_h := c, svc_calls := ds\<rparr>) = usable w" for c ds by (simp add: usable_def)
  show ?thesis
  proof (cases "call_failed srv (Factory_init # svc_calls w) \<or> call_failed srv (Connect h # Factory_init # svc_calls w) \<or>
      call_failed srv (Query h set_mode # Connect h # Factory_init # svc_calls w)")
    case True
    then show ?thesis
      using assms set_mode_not_create
      by (auto simp: open_session_def h_def [symmetric] Let_def conn_inv_def close_conn_def usable_def)
  next
    case False
    then have w5: "conn_inv srv w5" "executed srv (svc_calls w5) = executed srv (svc_calls w)" "attempts (svc_calls w5) = 0"
      "insert_failures w5 = insert_failures w" "recycle_policy w5 = recycle_policy w" "command_h w5 = Some h"
      using assms set_mode_not_create by (auto simp: w5_def cs_def conn_inv_def usable' h_def [symmetric])
    have "open_session srv w = (True, if call_failed srv cs then last_errmsg (snd (last_errno srv w5)) else w5)"
      using False by (simp add: open_session_def h_def [symmetric] cs_def w5_def Let_def)
    then show ?thesis using w5 quiet_step_facts [OF quiet] by (simp add: w5)
  qed
qed

lemma ensure_conn_facts:
  assumes "conn_inv srv w"
  shows "conn_inv srv (snd (ensure_conn srv w))"
    "fst (ensure_conn srv w) \<longleftrightarrow> command_h (snd (ensure_conn srv w)) \<noteq> None"
    "executed srv (svc_calls (snd (ensure_conn srv w))) = executed srv (svc_calls w)"
    "insert_failures (snd (ensure_conn srv w)) = insert_failures w"
    "recycle_policy (snd (ensure_conn srv w)) = recycle_policy w"
    "attempts (svc_calls (snd (ensure_conn srv w))) = attempts (svc_calls w)"
proof -
  have "conn_inv srv (snd (ensure_conn srv w)) \<and> (fst (ensure_conn srv w) \<longleftrightarrow> command_h (snd (ensure_conn srv w)) \<noteq> None) \<and>
    executed srv (svc_calls (snd (ensure_conn srv w))) = executed srv (svc_calls w) \<and>
    insert_failures (snd (ensure_conn srv w)) = insert_failures w \<and>
    recycle_policy (snd (ensure_conn srv w)) = recycle_policy w \<and>
    attempts (svc_calls (snd (ensure_conn srv w))) = attempts (svc_calls w)"
  proof (cases "command_h w")
    case None
    let ?w1 = "snd (acquire_services srv w)" and ?w2 = "snd (thread_ready srv (snd (acquire_services srv w)))"
    have q: "quiet_step w ?w1" "quiet_step w ?w2"
      using acquire_services_quiet thread_ready_quiet quiet_step_trans by blast+
    have zero: "attempts (svc_calls w) = 0" using assms None by (simp add: conn_inv_def)
    show ?thesis
    proof (cases "fst (acquire_services srv w) \<and> fst (thread_ready srv ?w1)")
      case True
      then have "ensure_conn srv w = open_session srv ?w2" using None by (simp add: ensure_conn_def split_beta)
      moreover have "services_acquired ?w2" "usable ?w2"
        using True acquire_services_ok by (simp_all add: thread_ready_usable)
      moreover have "command_h ?w2 = None" using quiet_step_facts(5) [OF q(2)] None by simp
      ultimately show ?thesis
        using open_session_facts [of srv ?w2] quiet_step_facts [OF q(2)] assms zero by simp
    next
      case False
      then have "\<not> fst (ensure_conn srv w) \<and> (snd (ensure_conn srv w) = ?w1 \<or> snd (ensure_conn srv w) = ?w2)"
        using None by (auto simp: ensure_conn_def split_beta)
      then show ?thesis
        using quiet_step_facts [OF q(1)] quiet_step_facts [OF q(2)] assms None by auto
    qed
  next
    case (Some h)
    then show ?thesis using assms by (simp add: ensure_conn_def)
  qed
  then show "conn_inv srv (snd (ensure_conn srv w))"
    "fst (ensure_conn srv w) \<longleftrightarrow> command_h (snd (ensure_conn srv w)) \<noteq> None"
    "executed srv (svc_calls (snd (ensure_conn srv w))) = executed srv (svc_calls w)"
    "insert_failures (snd (ensure_conn srv w)) = insert_failures w"
    "recycle_policy (snd (ensure_conn srv w)) = recycle_policy w"
    "attempts (svc_calls (snd (ensure_conn srv w))) = attempts (svc_calls w)"
    by blast+
qed

section \<open>One event\<close>

definition event_sql :: "string \<Rightarrow> bool" where
  "event_sql sql \<longleftrightarrow> sql \<noteq> set_mode \<and> sql \<noteq> CREATE_LOG_TABLE_SQL"

text \<open>The outcome of an event: its statement was executed, or a failure was counted.\<close>

definition settled :: "services \<Rightarrow> string \<Rightarrow> writer \<Rightarrow> writer \<Rightarrow> bool" where
  "settled srv sql w w' \<longleftrightarrow> conn_inv srv w' \<and>
     (executed srv (svc_calls w') = executed srv (svc_calls w) @ [sql] \<and> insert_failures w' = insert_failures w \<or>
      executed srv (svc_calls w') = executed srv (svc_calls w) \<and> insert_failures w' = insert_failures w + 1)"

definition bounded_attempts :: "writer \<Rightarrow> writer \<Rightarrow> bool" where
  "bounded_attempts w w' \<longleftrightarrow>
     recycle_policy w' = recycle_policy w \<and> attempts (svc_calls w') \<le> attempts (svc_calls w) + 2 \<or>
     recycle_policy w' = note_connection_reset (recycle_policy w) \<and> attempts (svc_calls w') \<le> 1"

text \<open>A statement that is tried once more and settled by the result.\<close>

definition settle :: "services \<Rightarrow> bool \<times> writer \<Rightarrow> writer" where
  "settle srv r = (if \<not> fst r then snd r
     else let (err, w) = last_errno srv (snd r) in count_failure err w)"

lemma count_failure_facts:
  assumes "conn_inv srv w"
  shows "conn_inv srv (count_failure err w)" "executed srv (svc_calls (count_failure err w)) = executed srv (svc_calls w)"
    "insert_failures (count_failure err w) = insert_failures w + 1" "recycle_policy (count_failure err w) = recycle_policy w"
    "attempts (svc_calls (count_failure err w)) = attempts (svc_calls w)"
proof -
  let ?w1 = "w\<lparr>insert_failures := insert_failures w + 1\<rparr>"
  let ?w2 = "?w1\<lparr>last_logged_errno := err, svc_calls := Log_insert_error err # svc_calls ?w1\<rparr>"
  have "quiet_step ?w1 ?w2" by (rule quiet_stepI [of _ "[Log_insert_error err]"]) simp_all
  then have "quiet_step ?w1 (last_errmsg ?w2)" by (rule quiet_step_trans [OF _ last_errmsg_quiet])
  then have q: "quiet_step ?w1 (count_failure err w)" by (simp add: count_failure_def Let_def)
  have "conn_inv srv ?w1" using assms by (simp add: conn_inv_def usable_def)
  then show "conn_inv srv (count_failure err w)" "executed srv (svc_calls (count_failure err w)) = executed srv (svc_calls w)"
    "insert_failures (count_failure err w) = insert_failures w + 1" "recycle_policy (count_failure err w) = recycle_policy w"
    "attempts (svc_calls (count_failure err w)) = attempts (svc_calls w)"
    using quiet_step_facts [OF q] by simp_all
qed

lemma settle_query:
  assumes "conn_inv srv w" and "command_h w = Some h" and "event_sql sql"
  shows "settled srv sql w (settle srv (query srv sql w))"
    "recycle_policy (settle srv (query srv sql w)) = recycle_policy w"
    "attempts (svc_calls (settle srv (query srv sql w))) = attempts (svc_calls w) + 1"
proof -
  have ev: "sql \<noteq> set_mode" "sql \<noteq> CREATE_LOG_TABLE_SQL" using assms(3) by (simp_all add: event_sql_def)
  note qf = query_facts [OF assms(1,2) ev(1)]
  note ef = quiet_step_facts [OF last_errno_quiet [of "snd (query srv sql w)" srv]]
  note cf = count_failure_facts [OF ef(6) [OF qf(1)]]
  show "settled srv sql w (settle srv (query srv sql w))"
    "recycle_policy (settle srv (query srv sql w)) = recycle_policy w"
    "attempts (svc_calls (settle srv (query srv sql w))) = attempts (svc_calls w) + 1"
    using qf ef cf ev by (simp_all add: settle_def settled_def split_beta)
qed

lemma settle_no_conn:
  assumes "conn_inv srv w"
  shows "settled srv sql w (settle srv (True, w))" "recycle_policy (settle srv (True, w)) = recycle_policy w"
    "attempts (svc_calls (settle srv (True, w))) = attempts (svc_calls w)"
proof -
  note ef = quiet_step_facts [OF last_errno_quiet [of w srv]]
  show "settled srv sql w (settle srv (True, w))" "recycle_policy (settle srv (True, w)) = recycle_policy w"
    "attempts (svc_calls (settle srv (True, w))) = attempts (svc_calls w)"
    using ef count_failure_facts [OF ef(6) [OF assms]] by (simp_all add: settle_def settled_def split_beta)
qed

lemma run_insert_eq:
  "run_insert srv sql w =
     (let (ok, w1) = ensure_conn srv w in
      if \<not> ok then w1\<lparr>insert_failures := insert_failures w1 + 1\<rparr>
      else let (failed, w2) = query srv sql w1 in
      if \<not> failed then w2
      else let (err, w3) = last_errno srv w2 in
      if err = 1146 \<or> err = 1049 then settle srv (query srv sql (snd (query srv CREATE_LOG_TABLE_SQL w3)))
      else if err = 2006 \<or> err = 2013 then
        let w4 = close_conn w3;
            w5 = w4\<lparr>recycle_policy := note_connection_reset (recycle_policy w4)\<rparr>;
            (ok2, w6) = ensure_conn srv w5
        in settle srv (if ok2 then query srv sql w6 else (True, w6))
      else count_failure err w3)"
  by (simp add: run_insert_def settle_def split_beta Let_def)

lemma settled_from:
  "settled srv sql w1 w' \<Longrightarrow> executed srv (svc_calls w1) = executed srv (svc_calls w) \<Longrightarrow>
   insert_failures w1 = insert_failures w \<Longrightarrow> settled srv sql w w'"
  by (simp add: settled_def)

lemma missing_table_retry:
  assumes "conn_inv srv w" and "command_h w = Some h" and "event_sql sql"
  defines "w' \<equiv> settle srv (query srv sql (snd (query srv CREATE_LOG_TABLE_SQL w)))"
  shows "settled srv sql w w' \<and> recycle_policy w' = recycle_policy w \<and> attempts (svc_calls w') = attempts (svc_calls w) + 1"
proof -
  let ?w4 = "snd (query srv CREATE_LOG_TABLE_SQL w)"
  note qf = query_facts [OF assms(1,2) set_mode_not_create [symmetric]]
  show ?thesis
    using settle_query [OF qf(1,2) assms(3)] qf settled_from [of srv sql ?w4 w' w] by (simp add: w'_def)
qed

lemma lost_connection_retry:
  assumes "conn_inv srv w" and "event_sql sql"
  defines "w5 \<equiv> (close_conn w)\<lparr>recycle_policy := note_connection_reset (recycle_policy (close_conn w))\<rparr>"
  defines "w' \<equiv> settle srv (if fst (ensure_conn srv w5) then query srv sql (snd (ensure_conn srv w5))
                            else (True, snd (ensure_conn srv w5)))"
  shows "settled srv sql w w' \<and> recycle_policy w' = note_connection_reset (recycle_policy w) \<and> attempts (svc_calls w') \<le> 1"
proof -
  note cf = close_conn_facts [OF assms(1)]
  have w5: "conn_inv srv w5" using cf(1) by (simp add: w5_def conn_inv_def usable_def)
  note ef = ensure_conn_facts [OF w5]
  have same: "executed srv (svc_calls (snd (ensure_conn srv w5))) = executed srv (svc_calls w)"
    "insert_failures (snd (ensure_conn srv w5)) = insert_failures w"
    "recycle_policy (snd (ensure_conn srv w5)) = note_connection_reset (recycle_policy w)"
    "attempts (svc_calls (snd (ensure_conn srv w5))) = 0"
    using ef cf by (simp_all add: w5_def)
  show ?thesis
  proof (cases "fst (ensure_conn srv w5)")
    case True
    then obtain h where "command_h (snd (ensure_conn srv w5)) = Some h" using ef(2) by auto
    then show ?thesis
      using settle_query [OF ef(1) _ assms(2)] same settled_from [OF _ same(1,2)] True by (simp add: w'_def)
  next
    case False
    then show ?thesis
      using settle_no_conn [OF ef(1)] same settled_from [OF _ same(1,2)] by (simp add: w'_def)
  qed
qed

lemma run_insert_settled:
  assumes "conn_inv srv w" and "event_sql sql"
  shows "settled srv sql w (run_insert srv sql w) \<and> bounded_attempts w (run_insert srv sql w)"
proof -
  obtain ok w1 where w1: "ensure_conn srv w = (ok, w1)" by (rule prod.exhaust)
  note ef = ensure_conn_facts [OF assms(1), unfolded w1, simplified]
  show ?thesis
  proof (cases ok)
    case False
    then show ?thesis
      using ef by (simp add: run_insert_eq w1 settled_def bounded_attempts_def conn_inv_def usable_def)
  next
    case ok: True
    then obtain h where h: "command_h w1 = Some h" using ef(2) by auto
    obtain failed w2 where w2: "query srv sql w1 = (failed, w2)" by (rule prod.exhaust)
    have ev: "sql \<noteq> set_mode" "sql \<noteq> CREATE_LOG_TABLE_SQL" using assms(2) by (simp_all add: event_sql_def)
    note qf = query_facts [OF ef(1) h ev(1), unfolded w2, simplified]
    show ?thesis
    proof (cases failed)
      case False
      then show ?thesis
        using ef qf ok ev by (simp add: run_insert_eq w1 w2 settled_def bounded_attempts_def)
    next
      case failed: True
      obtain err w3 where w3: "last_errno srv w2 = (err, w3)" by (rule prod.exhaust)
      note lf = quiet_step_facts [OF last_errno_quiet [of w2 srv], unfolded w3, simplified]
      have inv3: "conn_inv srv w3" "command_h w3 = Some h" using lf(5,6) qf(1,2) by simp_all
      have same: "executed srv (svc_calls w3) = executed srv (svc_calls w)" "insert_failures w3 = insert_failures w"
        "recycle_policy w3 = recycle_policy w" "attempts (svc_calls w3) = attempts (svc_calls w) + 1"
        using ef qf lf failed ev by simp_all
      have run: "run_insert srv sql w =
        (if err = 1146 \<or> err = 1049 then settle srv (query srv sql (snd (query srv CREATE_LOG_TABLE_SQL w3)))
         else if err = 2006 \<or> err = 2013 then
           let w5 = (close_conn w3)\<lparr>recycle_policy := note_connection_reset (recycle_policy (close_conn w3))\<rparr>
           in settle srv (if fst (ensure_conn srv w5) then query srv sql (snd (ensure_conn srv w5)) else (True, snd (ensure_conn srv w5)))
         else count_failure err w3)"
        by (simp add: run_insert_eq w1 w2 w3 ok failed split_beta Let_def)
      show ?thesis
        using missing_table_retry [OF inv3 assms(2)] lost_connection_retry [OF inv3(1) assms(2)]
          count_failure_facts [OF inv3(1), of err] settled_from [OF _ same(1,2)] same
        by (simp add: run Let_def bounded_attempts_def settled_def)
    qed
  qed
qed

section \<open>Batches\<close>

text \<open>
  What the writer thread relies on when it hands its events over one by one: each of them ends up in
  the log or in the count of failures.
\<close>

locale event_sink =
  fixes inv :: "'s \<Rightarrow> bool"
    and put :: "string \<Rightarrow> 's \<Rightarrow> 's"
    and log :: "'s \<Rightarrow> string list"
    and failures :: "'s \<Rightarrow> u64"
    and event :: "string \<Rightarrow> bool"
  assumes inv_put: "inv s \<Longrightarrow> event e \<Longrightarrow> inv (put e s)"
    and put_outcome: "inv s \<Longrightarrow> event e \<Longrightarrow>
      log (put e s) = log s @ [e] \<and> failures (put e s) = failures s \<or>
      log (put e s) = log s \<and> failures (put e s) = failures s + 1"
begin

lemma inv_fold: "inv s \<Longrightarrow> list_all event es \<Longrightarrow> inv (fold put es s)"
  by (induction es arbitrary: s) (simp_all add: inv_put)

lemma fold_outcome:
  "inv s \<Longrightarrow> list_all event es \<Longrightarrow>
   \<exists>kept. subseq kept es \<and> log (fold put es s) = log s @ kept \<and>
     failures (fold put es s) = failures s + of_nat (length es - length kept)"
proof (induction es arbitrary: s)
  case (Cons e es)
  then have inv: "inv (put e s)" by (simp add: inv_put)
  then obtain kept where kept: "subseq kept es" "log (fold put es (put e s)) = log (put e s) @ kept"
    "failures (fold put es (put e s)) = failures (put e s) + of_nat (length es - length kept)"
    using Cons.IH [of "put e s"] Cons.prems by auto
  have len: "length kept \<le> length es" by (rule list_emb_length [OF kept(1)])
  from put_outcome [of s e] Cons.prems
  consider "log (put e s) = log s @ [e]" "failures (put e s) = failures s"
    | "log (put e s) = log s" "failures (put e s) = failures s + 1"
    by auto
  then show ?case
  proof cases
    case 1
    then show ?thesis using kept by (intro exI [of _ "e # kept"]) simp
  next
    case 2
    then show ?thesis
      using kept len by (intro exI [of _ kept]) (simp add: Suc_diff_le list_emb_Cons)
  qed
qed simp

end

lemma conn_inv_policy [simp]: "conn_inv srv (w\<lparr>recycle_policy := p\<rparr>) = conn_inv srv w"
  by (simp add: conn_inv_def usable_def)

lemma write_event_settled:
  assumes "conn_inv srv w" and "event_sql sql"
  shows "settled srv sql w (write_event srv sql w)"
proof -
  let ?w2 = "(run_insert srv sql w)\<lparr>recycle_policy := snd (note_insert (recycle_policy (run_insert srv sql w)))\<rparr>"
  have s: "settled srv sql w ?w2" using run_insert_settled [OF assms] by (simp add: settled_def)
  then have "settled srv sql w (close_conn ?w2)" using close_conn_facts [of srv ?w2] by (simp add: settled_def)
  with s show ?thesis by (simp add: write_event_def split_beta Let_def)
qed

interpretation sink: event_sink "conn_inv srv" "write_event srv" "\<lambda>w. executed srv (svc_calls w)" insert_failures event_sql
  for srv
proof
  fix w sql
  assume "conn_inv srv w" and "event_sql sql"
  then have "settled srv sql w (write_event srv sql w)" by (rule write_event_settled)
  then show "conn_inv srv (write_event srv sql w)"
    and "executed srv (svc_calls (write_event srv sql w)) = executed srv (svc_calls w) @ [sql] \<and>
        insert_failures (write_event srv sql w) = insert_failures w \<or>
      executed srv (svc_calls (write_event srv sql w)) = executed srv (svc_calls w) \<and>
        insert_failures (write_event srv sql w) = insert_failures w + 1"
    by (simp_all add: settled_def)
qed

lemma conn_inv_run_batch: "conn_inv srv w \<Longrightarrow> list_all event_sql batch \<Longrightarrow> conn_inv srv (run_batch srv batch w)"
  unfolding run_batch_def by (rule sink.inv_fold)

section \<open>Lives of the writer thread\<close>

text \<open>The thread may be started again after it has ended; one life handles the events of its batches.\<close>

definition writer_life :: "services \<Rightarrow> string list \<Rightarrow> writer \<Rightarrow> writer" where
  "writer_life srv events w = thread_finish (run_batch srv events (thread_start w))"

definition writer_lives :: "services \<Rightarrow> string list list \<Rightarrow> writer \<Rightarrow> writer" where
  "writer_lives srv lives w = fold (writer_life srv) lives w"

lemma conn_inv_new: "conn_inv srv (new_writer t)"
  by (simp add: conn_inv_def new_writer_def)

lemma conn_inv_start: "conn_inv srv w \<Longrightarrow> conn_inv srv (thread_start w)"
  by (simp add: thread_start_def)

lemma neutral_conn_inv:
  assumes "conn_inv srv w" and "command_h w = None" and "command_h w' = None"
    and "list_all neutral ds" and "svc_calls w' = ds @ svc_calls w"
  shows "conn_inv srv w'"
  using assms neutral_calls [OF assms(4), of srv "svc_calls w"] by (auto simp: conn_inv_def)

lemma conn_inv_finish:
  assumes "conn_inv srv w"
  shows "conn_inv srv (thread_finish w)" "command_h (thread_finish w) = None"
    "attempts (svc_calls (thread_finish w)) = 0"
proof -
  note cf = close_conn_facts [OF assms]
  let ?w2 = "if command_thread_inited (close_conn w) \<and> ''mysql_command_thread'' \<in> set (com_ptrs (close_conn w))
    then (close_conn w)\<lparr>command_thread_inited := False, svc_calls := Thread_end # svc_calls (close_conn w)\<rparr> else close_conn w"
  have w2: "conn_inv srv ?w2" "command_h ?w2 = None"
    using cf(1,2) neutral_conn_inv [OF cf(1,2), of _ "[Thread_end]"] by auto
  have fin: "thread_finish w = release_services ?w2" by (simp add: thread_finish_def Let_def)
  show h: "command_h (thread_finish w) = None" using w2(2) by (simp add: fin release_services_def)
  show inv: "conn_inv srv (thread_finish w)"
    unfolding fin using w2
    by (cases "services_acquired ?w2 \<and> reg_srv ?w2")
      (auto simp: release_services_def list_all_iff simp del: if_split
        intro!: neutral_conn_inv [OF w2, of _ "Registry_release # rev (map Release (com_ptrs ?w2))"])
  show "attempts (svc_calls (thread_finish w)) = 0" using inv h by (simp add: conn_inv_def)
qed

lemma thread_finish_log:
  assumes "conn_inv srv w"
  shows "executed srv (svc_calls (thread_finish w)) = executed srv (svc_calls w)"
    "insert_failures (thread_finish w) = insert_failures w"
proof -
  have rel: "executed srv (svc_calls (release_services v)) = executed srv (svc_calls v)" for v
    using neutral_calls [of "Registry_release # rev (map Release (com_ptrs v))" srv "svc_calls v"]
    by (auto simp: release_services_def list_all_iff)
  show "executed srv (svc_calls (thread_finish w)) = executed srv (svc_calls w)"
    using close_conn_facts(3) [OF assms] by (simp add: thread_finish_def Let_def rel)
  show "insert_failures (thread_finish w) = insert_failures w"
    using close_conn_facts(4) [OF assms] by (simp add: thread_finish_def Let_def release_services_def)
qed

text \<open>The counter of the recycling policy bounds what the current session has seen.\<close>

definition load_inv :: "services \<Rightarrow> u64 \<Rightarrow> writer \<Rightarrow> bool" where
  "load_inv srv t w \<longleftrightarrow> conn_inv srv w \<and> threshold (recycle_policy w) = t \<and> policy_inv (recycle_policy w) \<and>
     attempts (svc_calls w) \<le> 2 * unat (since_recycle (recycle_policy w))"

lemma load_inv_write_event:
  assumes "load_inv srv t w" and "event_sql sql"
  shows "load_inv srv t (write_event srv sql w)"
proof -
  define w1 where "w1 = run_insert srv sql w"
  define p where "p = recycle_policy w1"
  have inv: "conn_inv srv w" using assms(1) by (simp add: load_inv_def)
  have r: "conn_inv srv w1" "bounded_attempts w w1"
    using run_insert_settled [OF inv assms(2)] by (simp_all add: settled_def w1_def)
  have p: "policy_inv p" "threshold p = t" "attempts (svc_calls w1) \<le> 2 * (unat (since_recycle p) + 1)"
    using r(2) assms(1) policy_inv_note_connection_reset [of "recycle_policy w"]
    by (auto simp: bounded_attempts_def load_inv_def p_def note_connection_reset_def)
  note ni = note_insert_nat [OF p(1)]
  let ?w2 = "w1\<lparr>recycle_policy := snd (note_insert p)\<rparr>"
  have ev: "write_event srv sql w = (if fst (note_insert p) then close_conn ?w2 else ?w2)"
    by (simp add: write_event_def w1_def [symmetric] p_def split_beta Let_def)
  have pol: "policy_inv (snd (note_insert p))" by (rule policy_inv_note_insert [OF p(1)])
  show ?thesis
  proof (cases "fst (note_insert p)")
    case True
    then show ?thesis
      using close_conn_facts [of srv ?w2] r(1) pol p(2) by (simp add: ev load_inv_def)
  next
    case False
    then have "unat (since_recycle p) + 1 < unat (threshold p)"
      using ni(1) p(1) by (simp add: policy_inv_def word_less_nat_alt)
    then have "unat (since_recycle (snd (note_insert p))) = unat (since_recycle p) + 1" using ni(2) by simp
    then show ?thesis using False r(1) pol p by (simp add: ev load_inv_def)
  qed
qed

lemma load_inv_run_batch: "load_inv srv t w \<Longrightarrow> list_all event_sql es \<Longrightarrow> load_inv srv t (run_batch srv es w)"
  by (induction es arbitrary: w) (simp_all add: run_batch_def load_inv_write_event)

lemma load_inv_start: "load_inv srv t w \<Longrightarrow> command_h w = None \<Longrightarrow> load_inv srv t (thread_start w)"
  by (auto simp: load_inv_def thread_start_def conn_inv_def usable_def policy_inv_note_connection_reset)

lemma recycle_policy_finish: "recycle_policy (thread_finish w) = recycle_policy w"
  by (simp add: thread_finish_def Let_def release_services_def close_conn_def split: option.split)

lemma load_inv_life:
  assumes "load_inv srv t w" and "command_h w = None" and "list_all event_sql es"
  shows "load_inv srv t (writer_life srv es w) \<and> command_h (writer_life srv es w) = None"
proof -
  have b: "load_inv srv t (run_batch srv es (thread_start w))"
    by (rule load_inv_run_batch [OF load_inv_start [OF assms(1,2)] assms(3)])
  then have "conn_inv srv (run_batch srv es (thread_start w))" by (simp add: load_inv_def)
  from conn_inv_finish [OF this] b show ?thesis
    by (simp add: load_inv_def writer_life_def recycle_policy_finish)
qed

lemma load_inv_lives:
  "load_inv srv t w \<Longrightarrow> command_h w = None \<Longrightarrow> list_all (list_all event_sql) lives \<Longrightarrow>
   load_inv srv t (writer_lives srv lives w) \<and> command_h (writer_lives srv lives w) = None"
  by (induction lives arbitrary: w) (simp_all add: writer_lives_def load_inv_life)

lemma conn_inv_lives: "conn_inv srv w \<Longrightarrow> list_all (list_all event_sql) lives \<Longrightarrow> conn_inv srv (writer_lives srv lives w)"
  by (induction lives arbitrary: w)
    (simp_all add: writer_lives_def writer_life_def conn_inv_finish(1) conn_inv_run_batch conn_inv_start)

lemma sql_safe_suffix: "sql_safe srv (newer @ cs) \<Longrightarrow> sql_safe srv cs"
  by (induction newer) auto

lemma session_pinned:
  "session srv cs = Some (h, Pinned) \<Longrightarrow>
   \<exists>a b. cs = a @ Query h set_mode # b \<and> \<not> call_failed srv (Query h set_mode # b) \<and>
     session srv b = Some (h, Connected) \<and> (\<forall>c \<in> set a. c \<noteq> Factory_init \<and> (\<forall>h'. c \<noteq> Close_handle h'))"
proof (induction cs)
  case (Cons c cs)
  show ?case
  proof (cases "session srv cs = Some (h, Pinned) \<and> c \<noteq> Factory_init \<and> (\<forall>h'. c \<noteq> Close_handle h')")
    case True
    then obtain a b where "cs = a @ Query h set_mode # b" "\<not> call_failed srv (Query h set_mode # b)"
      "session srv b = Some (h, Connected)" "\<forall>c \<in> set a. c \<noteq> Factory_init \<and> (\<forall>h'. c \<noteq> Close_handle h')"
      using Cons.IH by blast
    then show ?thesis using True by (intro exI [of _ "c # a"] exI [of _ b]) simp
  next
    case False
    then have "c = Query h set_mode \<and> \<not> call_failed srv (c # cs) \<and> session srv cs = Some (h, Connected)"
      using Cons.prems by (auto split: svc_call.splits if_splits)
    then have "c # cs = [] @ Query h set_mode # cs \<and> \<not> call_failed srv (Query h set_mode # cs) \<and>
        session srv cs = Some (h, Connected) \<and> (\<forall>c \<in> set []. c \<noteq> Factory_init \<and> (\<forall>h'. c \<noteq> Close_handle h'))"
      by auto
    then show ?thesis by blast
  qed
qed simp

section \<open>Properties\<close>

text \<open>
  (C25) No statement of the writer ever runs on a session whose \<open>sql_mode\<close> is not pinned.  Whatever the
  command services answer, over any number of lives of the writer thread and any events: a statement
  other than the pin itself is preceded, on its own handle and with no session closed or made in
  between, by a \<open>SET SESSION sql_mode=''\<close> that succeeded.
\<close>

theorem writer_sql_mode_pinned:
  assumes "list_all (list_all event_sql) lives" and "list_all event_sql events"
    and "svc_calls (run_batch srv events (thread_start (writer_lives srv lives (new_writer t)))) = newer @ Query h sql # older"
    and "sql \<noteq> set_mode"
  shows "\<exists>a b. older = a @ Query h set_mode # b \<and> \<not> call_failed srv (Query h set_mode # b) \<and>
    (\<forall>c \<in> set a. c \<noteq> Factory_init \<and> (\<forall>h'. c \<noteq> Close_handle h'))"
proof -
  have "conn_inv srv (run_batch srv events (thread_start (writer_lives srv lives (new_writer t))))"
    using assms(1,2) by (intro conn_inv_run_batch conn_inv_start conn_inv_lives conn_inv_new)
  then have "sql_safe srv (newer @ Query h sql # older)" unfolding conn_inv_def assms(3) by blast
  then have "sql_safe srv (Query h sql # older)" by (rule sql_safe_suffix)
  then have "session srv older = Some (h, Pinned)" using assms(4) by auto
  then show ?thesis using session_pinned by blast
qed

definition willing_server :: services where
  "willing_server = \<lparr>call_failed = \<lambda>_. False, new_handle = \<lambda>_. 1, errno_value = \<lambda>_. 0\<rparr>"

theorem writer_sql_mode_pinned_witness:
  "\<exists>a b. tl (svc_calls (run_batch willing_server [''INSERT 1''] (thread_start (writer_lives willing_server [] (new_writer 5))))) =
       a @ Query 1 set_mode # b \<and> \<not> call_failed willing_server (Query 1 set_mode # b) \<and>
     (\<forall>c \<in> set a. c \<noteq> Factory_init \<and> (\<forall>h'. c \<noteq> Close_handle h'))"
proof (rule writer_sql_mode_pinned)
  show "svc_calls (run_batch willing_server [''INSERT 1''] (thread_start (writer_lives willing_server [] (new_writer 5)))) =
      [] @ Query 1 ''INSERT 1'' # tl (svc_calls (run_batch willing_server [''INSERT 1'']
        (thread_start (writer_lives willing_server [] (new_writer 5)))))"
    by code_simp
qed (code_simp+)

text \<open>
  (C26) A batch loses no event silently.  The statements that succeeded are a subsequence of the batch
  (in its order, each at most once, behind what was executed before), and the failure counter has
  grown by the number of the others, modulo 2 ^ 64.
\<close>

theorem batch_outcome:
  assumes "conn_inv srv w" and "list_all event_sql batch"
  shows "\<exists>kept. subseq kept batch \<and>
    executed srv (svc_calls (run_batch srv batch w)) = executed srv (svc_calls w) @ kept \<and>
    table_writer_failures (run_batch srv batch w) =
      table_writer_failures w + of_nat (length batch - length kept)"
  using sink.fold_outcome [OF assms] by (simp add: run_batch_def table_writer_failures_def)

definition forgetful_server :: services where
  "forgetful_server = \<lparr>call_failed = \<lambda>cs. hd cs = Query 1 ''INSERT 2'', new_handle = \<lambda>_. 1, errno_value = \<lambda>_. 1205\<rparr>"

theorem batch_outcome_witness:
  "\<exists>kept. subseq kept [''INSERT 1'', ''INSERT 2'', ''INSERT 3''] \<and>
    executed forgetful_server (svc_calls (run_batch forgetful_server [''INSERT 1'', ''INSERT 2'', ''INSERT 3''] (new_writer 5))) =
      executed forgetful_server (svc_calls (new_writer 5)) @ kept \<and>
    table_writer_failures (run_batch forgetful_server [''INSERT 1'', ''INSERT 2'', ''INSERT 3''] (new_writer 5)) =
      table_writer_failures (new_writer 5) + of_nat (length [''INSERT 1'', ''INSERT 2'', ''INSERT 3''] - length kept)"
  by (rule batch_outcome [OF conn_inv_new]) code_simp

text \<open>
  (C27) The load of one session is bounded.  With a recycling threshold other than 0, at every moment of
  every life of the writer thread the current session has seen at most two attempts per counted event,
  and the counter is below the threshold; the session is open exactly when the handle is, and the
  handle is closed at the end of every life.
\<close>

theorem session_load_bounded:
  fixes srv :: services and t :: u64 and lives :: "string list list" and events :: "string list"
  assumes "t \<noteq> 0" and "list_all (list_all event_sql) lives" and "list_all event_sql events"
  defines "w \<equiv> run_batch srv events (thread_start (writer_lives srv lives (new_writer t)))"
  shows "attempts (svc_calls w) \<le> 2 * unat (since_recycle (recycle_policy w)) \<and>
    since_recycle (recycle_policy w) < t \<and>
    session srv (svc_calls w) = map_option (\<lambda>h. (h, Pinned)) (command_h w) \<and>
    session srv (svc_calls (thread_finish w)) = None"
proof -
  have "load_inv srv t (new_writer t)"
    using conn_inv_new [of srv t] policy_inv_new [OF assms(1)] by (simp add: load_inv_def new_writer_def)
  then have "load_inv srv t w"
    unfolding w_def using load_inv_lives [of srv t "new_writer t" lives] assms(2,3)
    by (intro load_inv_run_batch load_inv_start) (simp_all add: new_writer_def)
  then have w: "conn_inv srv w" "attempts (svc_calls w) \<le> 2 * unat (since_recycle (recycle_policy w))"
    "since_recycle (recycle_policy w) < t"
    by (auto simp: load_inv_def policy_inv_def)
  then show ?thesis
    using conn_inv_finish [OF w(1)] by (simp add: conn_inv_def)
qed

theorem session_load_bounded_witness:
  "attempts (svc_calls (run_batch willing_server [''A'', ''B'', ''C''] (thread_start
     (writer_lives willing_server [[''D'']] (new_writer 2))))) \<le>
   2 * unat (since_recycle (recycle_policy (run_batch willing_server [''A'', ''B'', ''C''] (thread_start
     (writer_lives willing_server [[''D'']] (new_writer 2))))))"
proof -
  have "list_all (list_all event_sql) [[''D'']] \<and> list_all event_sql [''A'', ''B'', ''C'']" by code_simp
  then show ?thesis
    using session_load_bounded [of 2 "[[''D'']]" "[''A'', ''B'', ''C'']" willing_server] by simp
qed

end
