(* ===== verification/Writer_Queue.thy ===== *)
theory Writer_Queue
  imports Table_Writer
begin

text \<open>
  The event queue of \<open>src/log_writer_table_mysql.cc\<close> and the threads that share it:
  \<open>table_writer_init\<close>, \<open>start_thread_locked\<close>, \<open>table_writer_enqueue\<close>, \<open>table_writer_is_self\<close>,
  \<open>table_writer_shutdown\<close> and \<open>writer_thread_func\<close>.

  Every critical section of \<open>q_mutex\<close> is one function on the shared variables; what \<open>new\<close>,
  \<open>push_back\<close> and \<open>pthread_create\<close> report is an argument.  The step relation \<open>tw_step\<close> interleaves these
  sections, and the writer's work between them, in every order the mutex and \<open>pthread_join\<close> allow.
\<close>

definition QUEUE_MAX_EVENTS :: nat where "QUEUE_MAX_EVENTS = 10000"

type_synonym thread_id = u64

record table_queue =
  queue :: "string list option"
  thread_running :: bool
  stop_requested :: bool
  writer_tid :: thread_id
  dropped_events :: u64

definition load_queue :: table_queue where
  "load_queue = \<lparr>queue = None, thread_running = False, stop_requested = False, writer_tid = 0, dropped_events = 0\<rparr>"

definition table_writer_init :: "bool \<Rightarrow> table_queue \<Rightarrow> table_queue" where
  "table_writer_init alloc_ok q = (if queue q = None \<and> alloc_ok then q\<lparr>queue := Some []\<rparr> else q)"

definition table_writer_is_self :: "thread_id \<Rightarrow> table_queue \<Rightarrow> bool" where
  "table_writer_is_self self q \<longleftrightarrow> thread_running q \<and> self = writer_tid q"

text \<open>\<open>created\<close> is the thread \<open>pthread_create\<close> made, if it made one.\<close>

definition start_thread_locked :: "thread_id option \<Rightarrow> table_queue \<Rightarrow> bool \<times> table_queue" where
  "start_thread_locked created q =
     (if thread_running q then (True, q)
      else let q1 = q\<lparr>stop_requested := False\<rparr> in
        case created of
          None \<Rightarrow> (False, q1)
        | Some tid \<Rightarrow> (True, q1\<lparr>writer_tid := tid, thread_running := True\<rparr>))"

definition table_writer_enqueue ::
    "thread_id option \<Rightarrow> bool \<Rightarrow> string \<Rightarrow> table_queue \<Rightarrow> bool \<times> table_queue" where
  "table_writer_enqueue created push_ok sql q =
     (case queue q of
        None \<Rightarrow> (False, q)
      | Some _ \<Rightarrow>
          let (started, q1) = start_thread_locked created q in
          if \<not> started then (False, q1)
          else (case queue q1 of
                  None \<Rightarrow> (False, q1)
                | Some evs \<Rightarrow>
                    if length evs \<ge> QUEUE_MAX_EVENTS then (False, q1\<lparr>dropped_events := dropped_events q1 + 1\<rparr>)
                    else if push_ok then (True, q1\<lparr>queue := Some (evs @ [sql])\<rparr>)
                    else (False, q1\<lparr>dropped_events := dropped_events q1 + 1\<rparr>)))"

definition table_writer_dropped :: "table_queue \<Rightarrow> u64" where
  "table_writer_dropped q = dropped_events q"

text \<open>The first critical section of \<open>table_writer_shutdown\<close> (with \<open>join_it\<close>), and the second one.\<close>

definition shutdown_request :: "table_queue \<Rightarrow> bool \<times> table_queue" where
  "shutdown_request q = (if thread_running q then (True, q\<lparr>stop_requested := True\<rparr>) else (False, q))"

definition shutdown_finish :: "table_queue \<Rightarrow> table_queue" where
  "shutdown_finish q = q\<lparr>thread_running := False, queue := None\<rparr>"

text \<open>The writer's critical section: it waits while the queue is empty and no stop is requested.  The
  result is the batch and \<open>stopping\<close>.\<close>

definition writer_take :: "table_queue \<Rightarrow> (string list \<times> bool \<times> table_queue) option" where
  "writer_take q =
     (case queue q of
        None \<Rightarrow> None
      | Some evs \<Rightarrow>
          if evs = [] \<and> \<not> stop_requested q then None
          else Some (evs, stop_requested q, q\<lparr>queue := Some []\<rparr>))"

section \<open>All interleavings\<close>

datatype writer_pc = No_thread | Waiting | Writing | Ended
datatype shutdown_pc = Running | Joining | Joined | Shut

text \<open>\<open>batch\<close> and \<open>stopping\<close> are the writer's locals.  \<open>accepted\<close>, \<open>handled\<close> and \<open>before_stop\<close> record, for
  the statements below, the events for which \<open>table_writer_enqueue\<close> returned \<open>true\<close>, the events given
  to \<open>run_insert\<close>, and the events accepted when the stop was requested.\<close>

record system =
  tq :: table_queue
  wpc :: writer_pc
  spc :: shutdown_pc
  batch :: "string list"
  stopping :: bool
  conn :: writer
  accepted :: "string list"
  handled :: "string list"
  before_stop :: "string list option"

definition initial_system :: "bool \<Rightarrow> u64 \<Rightarrow> system" where
  "initial_system alloc_ok t =
     \<lparr>tq = table_writer_init alloc_ok load_queue, wpc = No_thread, spc = Running, batch = [], stopping = False,
      conn = new_writer t, accepted = [], handled = [], before_stop = None\<rparr>"

text \<open>With \<open>strict\<close>, no callback enqueues once the shutdown has begun, which is what the server
  guarantees to a plugin it unloads; without it, callbacks may come at any time.\<close>

inductive tw_step :: "services \<Rightarrow> bool \<Rightarrow> system \<Rightarrow> system \<Rightarrow> bool" for srv strict where
  enqueue: "(strict \<Longrightarrow> spc s = Running) \<Longrightarrow> event_sql sql \<Longrightarrow> table_writer_enqueue created push_ok sql (tq s) = (ok, q) \<Longrightarrow>
    tw_step srv strict s
      (s\<lparr>tq := q, accepted := accepted s @ (if ok then [sql] else []),
         wpc := (if \<not> thread_running (tq s) \<and> thread_running q then Waiting else wpc s),
         conn := (if \<not> thread_running (tq s) \<and> thread_running q then thread_start (conn s) else conn s)\<rparr>)"
| take_batch: "wpc s = Waiting \<Longrightarrow> writer_take (tq s) = Some (evs, stop, q) \<Longrightarrow>
    tw_step srv strict s (s\<lparr>tq := q, batch := evs, stopping := stop, wpc := Writing\<rparr>)"
| write_one: "wpc s = Writing \<Longrightarrow> batch s = e # rest \<Longrightarrow>
    tw_step srv strict s (s\<lparr>batch := rest, handled := handled s @ [e], conn := write_event srv e (conn s)\<rparr>)"
| batch_done: "wpc s = Writing \<Longrightarrow> batch s = [] \<Longrightarrow> \<not> stopping s \<Longrightarrow> tw_step srv strict s (s\<lparr>wpc := Waiting\<rparr>)"
| thread_exit: "wpc s = Writing \<Longrightarrow> batch s = [] \<Longrightarrow> stopping s \<Longrightarrow>
    tw_step srv strict s (s\<lparr>wpc := Ended, conn := thread_finish (conn s)\<rparr>)"
| request: "spc s = Running \<Longrightarrow> shutdown_request (tq s) = (join_it, q) \<Longrightarrow>
    tw_step srv strict s (s\<lparr>tq := q, spc := (if join_it then Joining else Joined),
      before_stop := Some (accepted s)\<rparr>)"
| join: "spc s = Joining \<Longrightarrow> wpc s = Ended \<Longrightarrow> tw_step srv strict s (s\<lparr>spc := Joined\<rparr>)"
| finish: "spc s = Joined \<Longrightarrow> tw_step srv strict s (s\<lparr>tq := shutdown_finish (tq s), spc := Shut\<rparr>)"

inductive tw_reach :: "services \<Rightarrow> bool \<Rightarrow> u64 \<Rightarrow> system \<Rightarrow> bool" for srv strict t where
  init: "tw_reach srv strict t (initial_system alloc_ok t)"
| step: "tw_reach srv strict t s \<Longrightarrow> tw_step srv strict s s' \<Longrightarrow> tw_reach srv strict t s'"

section \<open>What every interleaving keeps\<close>

definition pending :: "system \<Rightarrow> string list" where
  "pending s = (case queue (tq s) of Some q \<Rightarrow> q | None \<Rightarrow> [])"

text \<open>The order of the events: handled, then being written, then queued; only \<open>shutdown_finish\<close> may
  leave some of them behind.\<close>

definition fifo_inv :: "system \<Rightarrow> bool" where
  "fifo_inv s \<longleftrightarrow>
     (queue (tq s) \<noteq> None \<longrightarrow> accepted s = handled s @ batch s @ pending s) \<and>
     prefix (handled s @ batch s) (accepted s) \<and> length (pending s) \<le> QUEUE_MAX_EVENTS \<and>
     list_all event_sql (accepted s) \<and> (wpc s \<noteq> Writing \<longrightarrow> batch s = [])"

definition control_inv :: "system \<Rightarrow> bool" where
  "control_inv s \<longleftrightarrow>
     (\<not> thread_running (tq s) \<and> spc s \<noteq> Shut \<longrightarrow> wpc s = No_thread \<and> accepted s = []) \<and>
     (queue (tq s) = None \<longrightarrow> spc s = Shut \<or> accepted s = [] \<and> \<not> thread_running (tq s)) \<and>
     (wpc s = Ended \<longrightarrow> stopping s) \<and> (spc s = Running \<longleftrightarrow> before_stop s = None) \<and>
     (thread_running (tq s) \<and> stop_requested (tq s) \<longrightarrow> spc s \<noteq> Running) \<and>
     (spc s = Joining \<longrightarrow> thread_running (tq s) \<and> stop_requested (tq s)) \<and>
     (stopping s \<longrightarrow> spc s \<noteq> Running) \<and>
     (spc s = Shut \<longrightarrow> queue (tq s) = None)"

text \<open>The events accepted before the stop was requested.\<close>

definition stop_inv :: "system \<Rightarrow> bool" where
  "stop_inv s \<longleftrightarrow> (\<forall>b. before_stop s = Some b \<longrightarrow> prefix b (accepted s) \<and>
     (stopping s \<longrightarrow> prefix b (handled s @ batch s)) \<and> (spc s = Joined \<or> spc s = Shut \<longrightarrow> prefix b (handled s)))"

definition log_inv :: "services \<Rightarrow> system \<Rightarrow> bool" where
  "log_inv srv s \<longleftrightarrow> conn_inv srv (conn s) \<and>
     (\<exists>kept. subseq kept (handled s) \<and> executed srv (svc_calls (conn s)) = kept \<and>
       insert_failures (conn s) = of_nat (length (handled s) - length kept))"

lemma start_thread_queue [simp]: "queue (snd (start_thread_locked created q)) = queue q"
  by (simp add: start_thread_locked_def Let_def split: option.split)

lemma enqueue_cases:
  assumes "table_writer_enqueue created push_ok sql q = (ok, q')"
  shows "ok \<longrightarrow> (\<exists>evs. queue q = Some evs \<and> queue q' = Some (evs @ [sql]) \<and> length evs < QUEUE_MAX_EVENTS) \<and> thread_running q'"
    and "\<not> ok \<longrightarrow> queue q' = queue q"
    and "thread_running q \<longrightarrow> thread_running q' \<and> stop_requested q' = stop_requested q"
    and "\<not> thread_running q \<longrightarrow> \<not> stop_requested q' \<or> q' = q"
    and "queue q = None \<longrightarrow> q' = q"
  using assms
  by (auto simp: table_writer_enqueue_def start_thread_locked_def Let_def split: option.splits if_splits)

lemma fifo_inv_step:
  assumes "tw_step srv strict s s'" and "fifo_inv s" and "control_inv s"
  shows "fifo_inv s'"
  using assms(1)
proof cases
  case (enqueue sql created push_ok ok q)
  note c = enqueue_cases [OF enqueue(4)]
  have "batch s = []" if "\<not> thread_running (tq s)" "thread_running q"
  proof -
    have "spc s \<noteq> Shut" using that c(5) assms(3) by (auto simp: control_inv_def)
    then show ?thesis using that assms(2,3) by (auto simp: control_inv_def fifo_inv_def)
  qed
  then show ?thesis
    using assms(2) c enqueue(1,3) by (cases ok) (auto simp: fifo_inv_def pending_def split: option.splits)
next
  case (take_batch evs stop q)
  then show ?thesis
    using assms(2) by (auto simp: fifo_inv_def pending_def writer_take_def split: option.splits if_splits)
next
  case (request join_it q)
  then show ?thesis
    using assms(2) by (auto simp: fifo_inv_def pending_def shutdown_request_def split: option.splits if_splits)
next
  case finish
  then show ?thesis using assms(2) by (auto simp: fifo_inv_def pending_def shutdown_finish_def)
qed (insert assms(2), auto simp: fifo_inv_def pending_def)

lemma control_inv_step:
  assumes "tw_step srv strict s s'" and "control_inv s" and "fifo_inv s"
  shows "control_inv s'"
  using assms(1)
proof cases
  case (enqueue sql created push_ok ok q)
  note c = enqueue_cases [OF enqueue(4)]
  show ?thesis
  proof (cases "queue (tq s)")
    case None
    then have "q = tq s" "\<not> ok" using c(1,5) by auto
    then have "s' = s" using enqueue(1) by simp
    then show ?thesis using assms(2) by simp
  next
    case (Some evs)
    then have q: "queue q \<noteq> None" "spc s \<noteq> Shut" using c(1,2) assms(2) by (cases ok; auto simp: control_inv_def)+
    show ?thesis
    proof (cases "thread_running (tq s)")
      case True
      then have "thread_running q" "stop_requested q = stop_requested (tq s)" using c(3) by auto
      then show ?thesis using True q assms(2) enqueue(1) Some by (auto simp: control_inv_def)
    next
      case False
      then have "\<not> stop_requested q \<or> q = tq s" "ok \<longrightarrow> thread_running q" "wpc s = No_thread" "accepted s = []" "spc s \<noteq> Joining"
        using c(1,4) assms(2) q(2) by (auto simp: control_inv_def)
      then show ?thesis using False q assms(2) enqueue(1) Some by (auto simp: control_inv_def)
    qed
  qed
next
  case (take_batch evs stop q)
  then have "thread_running (tq s) \<or> spc s = Shut" using assms(2) by (auto simp: control_inv_def)
  then show ?thesis
    using take_batch assms(2) by (auto simp: control_inv_def writer_take_def split: option.splits if_splits)
next
  case (request join_it q)
  then show ?thesis
    using assms(2) by (auto simp: control_inv_def shutdown_request_def split: if_splits)
next
  case finish
  then show ?thesis using assms(2) by (auto simp: control_inv_def shutdown_finish_def)
qed (insert assms(2), auto simp: control_inv_def)

lemma stop_inv_step:
  assumes "tw_step srv strict s s'" and "stop_inv s" and "control_inv s" and "fifo_inv s"
  shows "stop_inv s'"
  using assms(1)
proof cases
  case (take_batch evs stop q)
  then have "handled s @ evs = accepted s"
    using assms(4) by (auto simp: fifo_inv_def pending_def writer_take_def split: option.splits if_splits)
  then show ?thesis using take_batch assms(2) by (auto simp: stop_inv_def)
next
  case (request join_it q)
  have "join_it \<or> accepted s = []"
    using request assms(3) by (auto simp: shutdown_request_def control_inv_def split: if_splits)
  then show ?thesis using request assms(3) by (auto simp: stop_inv_def control_inv_def)
next
  case join
  have "stopping s" "batch s = []" using join assms(3,4) by (auto simp: control_inv_def fifo_inv_def)
  then show ?thesis using join assms(2) by (auto simp: stop_inv_def)
qed (insert assms(2), auto simp: stop_inv_def intro: prefix_append)

lemma fifo_inv_batch_event: "fifo_inv s \<Longrightarrow> batch s = e # rest \<Longrightarrow> event_sql e"
  by (auto simp: fifo_inv_def prefix_def)

lemma log_inv_step:
  assumes "tw_step srv strict s s'" and "log_inv srv s" and "fifo_inv s"
  shows "log_inv srv s'"
  using assms(1)
proof cases
  case (write_one e rest)
  obtain kept where kept: "subseq kept (handled s)" "executed srv (svc_calls (conn s)) = kept"
    "insert_failures (conn s) = of_nat (length (handled s) - length kept)" and inv: "conn_inv srv (conn s)"
    using assms(2) by (auto simp: log_inv_def)
  have len: "length kept \<le> length (handled s)" by (rule list_emb_length [OF kept(1)])
  have ev: "event_sql e" using write_one assms(3) fifo_inv_batch_event by blast
  from write_event_settled [OF inv ev] consider
    "executed srv (svc_calls (write_event srv e (conn s))) = kept @ [e]" "insert_failures (write_event srv e (conn s)) = insert_failures (conn s)"
    | "executed srv (svc_calls (write_event srv e (conn s))) = kept" "insert_failures (write_event srv e (conn s)) = insert_failures (conn s) + 1"
    by (auto simp: settled_def kept(2))
  then show ?thesis
  proof cases
    case 1
    then show ?thesis
      using write_one kept sink.inv_put [OF inv ev] by (auto simp: log_inv_def)
  next
    case 2
    then show ?thesis
      using write_one kept len sink.inv_put [OF inv ev] by (auto simp: log_inv_def Suc_diff_le)
  qed
next
  case enqueue
  then show ?thesis using assms(2) by (auto simp: log_inv_def thread_start_def)
next
  case thread_exit
  have "executed srv (svc_calls (thread_finish (conn s))) = executed srv (svc_calls (conn s))"
    "insert_failures (thread_finish (conn s)) = insert_failures (conn s)"
    using thread_finish_log assms(2) by (auto simp: log_inv_def)
  then show ?thesis using thread_exit assms(2) conn_inv_finish(1) by (auto simp: log_inv_def)
qed (insert assms(2), auto simp: log_inv_def)

lemma reach_inv: "tw_reach srv strict t s \<Longrightarrow> fifo_inv s \<and> control_inv s \<and> stop_inv s \<and> log_inv srv s"
proof (induction rule: tw_reach.induct)
  case (init alloc_ok)
  have "conn_inv srv (new_writer t)" "executed srv (svc_calls (new_writer t)) = []" "insert_failures (new_writer t) = 0"
    using conn_inv_new by (simp_all add: new_writer_def)
  then show ?case
    by (auto simp: fifo_inv_def control_inv_def stop_inv_def log_inv_def initial_system_def table_writer_init_def
        load_queue_def pending_def)
next
  case (step s s')
  then show ?case using fifo_inv_step control_inv_step stop_inv_step log_inv_step by blast
qed

lemma strict_reach: "tw_reach srv True t s \<Longrightarrow> spc s \<noteq> Running \<Longrightarrow> before_stop s = Some (accepted s)"
proof (induction rule: tw_reach.induct)
  case (step s s')
  from step.hyps(2) show ?case
  proof cases
    case enqueue
    then show ?thesis using step by auto
  qed (insert step, auto)
qed (simp add: initial_system_def)

lemma no_thread_idle: "tw_reach srv strict t s \<Longrightarrow> wpc s = No_thread \<Longrightarrow> \<not> thread_running (tq s)"
proof (induction rule: tw_reach.induct)
  case (step s s')
  from step.hyps(2) show ?case
  proof cases
    case (enqueue sql created push_ok ok q)
    then show ?thesis using step by (auto split: if_splits)
  next
    case (request join_it q)
    then show ?thesis using step by (auto simp: shutdown_request_def split: if_splits)
  qed (insert step, auto simp: shutdown_finish_def)
qed (simp add: initial_system_def table_writer_init_def load_queue_def)

lemma strict_no_crash:
  "tw_reach srv True t s \<Longrightarrow> queue (tq s) = None \<Longrightarrow> wpc s = Ended \<or> wpc s = No_thread"
proof -
  assume r: "tw_reach srv True t s" and none: "queue (tq s) = None"
  have "spc s = Joined \<or> spc s = Shut \<longrightarrow> wpc s = Ended \<or> wpc s = No_thread" if "tw_reach srv True t s" for s
    using that
  proof (induction rule: tw_reach.induct)
    case (step s s')
    note inv = reach_inv [OF step.hyps(1)]
    from step.hyps(2) show ?case
    proof cases
      case (request join_it q)
      then show ?thesis using inv by (auto simp: control_inv_def shutdown_request_def split: if_splits)
    qed (insert step, auto)
  qed (simp add: initial_system_def)
  moreover have "spc s = Shut \<or> \<not> thread_running (tq s)" using reach_inv [OF r] none by (auto simp: control_inv_def)
  ultimately show "wpc s = Ended \<or> wpc s = No_thread" using r reach_inv [OF r] by (auto simp: control_inv_def)
qed

section \<open>The shutdown comes to its end\<close>

lemma drain_batch:
  "wpc s = Writing \<Longrightarrow> \<exists>c. (tw_step srv True)\<^sup>*\<^sup>* s (s\<lparr>batch := [], handled := handled s @ batch s, conn := c\<rparr>)"
proof (induction "batch s" arbitrary: s)
  case Nil
  then have "s\<lparr>batch := [], handled := handled s @ batch s, conn := conn s\<rparr> = s" by (cases s) simp
  then show ?case by (metis rtranclp.rtrancl_refl)
next
  case (Cons e rest)
  define s1 where "s1 = s\<lparr>batch := rest, handled := handled s @ [e], conn := write_event srv e (conn s)\<rparr>"
  have one: "tw_step srv True s s1" unfolding s1_def using Cons.prems Cons.hyps(2) by (intro tw_step.write_one) auto
  have "rest = batch s1" "wpc s1 = Writing" using Cons.prems by (simp_all add: s1_def)
  then obtain c where "(tw_step srv True)\<^sup>*\<^sup>* s1 (s1\<lparr>batch := [], handled := handled s1 @ batch s1, conn := c\<rparr>)"
    using Cons.hyps(1) by blast
  moreover have "s1\<lparr>batch := [], handled := handled s1 @ batch s1, conn := c\<rparr> =
      s\<lparr>batch := [], handled := handled s @ batch s, conn := c\<rparr>"
    using Cons.hyps(2) by (simp add: s1_def)
  ultimately have "(tw_step srv True)\<^sup>*\<^sup>* s (s\<lparr>batch := [], handled := handled s @ batch s, conn := c\<rparr>)"
    using one by (simp add: converse_rtranclp_into_rtranclp)
  then show ?case by blast
qed

lemma last_round:
  assumes "wpc s = Writing" and "stopping s"
  shows "\<exists>c. (tw_step srv True)\<^sup>*\<^sup>* s (s\<lparr>batch := [], handled := handled s @ batch s, wpc := Ended, conn := c\<rparr>)"
proof -
  obtain c where d: "(tw_step srv True)\<^sup>*\<^sup>* s (s\<lparr>batch := [], handled := handled s @ batch s, conn := c\<rparr>)"
    using drain_batch [OF assms(1)] by blast
  have "tw_step srv True (s\<lparr>batch := [], handled := handled s @ batch s, conn := c\<rparr>)
      (s\<lparr>batch := [], handled := handled s @ batch s, wpc := Ended, conn := thread_finish c\<rparr>)"
    using tw_step.thread_exit [of "s\<lparr>batch := [], handled := handled s @ batch s, conn := c\<rparr>" srv True] assms by simp
  with d show ?thesis by (blast intro: rtranclp.rtrancl_into_rtrancl)
qed

lemma stop_round:
  assumes "wpc s = Waiting" and "queue (tq s) = Some q" and "stop_requested (tq s)"
  shows "\<exists>s'. (tw_step srv True)\<^sup>*\<^sup>* s s' \<and> wpc s' = Ended \<and> spc s' = spc s"
proof -
  define s1 where "s1 = s\<lparr>tq := (tq s)\<lparr>queue := Some []\<rparr>, batch := q, stopping := True, wpc := Writing\<rparr>"
  have "tw_step srv True s s1"
    unfolding s1_def using assms by (intro tw_step.take_batch) (auto simp: writer_take_def)
  moreover obtain c where "(tw_step srv True)\<^sup>*\<^sup>* s1 (s1\<lparr>batch := [], handled := handled s1 @ batch s1, wpc := Ended, conn := c\<rparr>)"
    using last_round [of s1] by (auto simp: s1_def)
  ultimately show ?thesis
    by (intro exI [of _ "s1\<lparr>batch := [], handled := handled s1 @ batch s1, wpc := Ended, conn := c\<rparr>"])
      (simp add: s1_def converse_rtranclp_into_rtranclp)
qed

lemma reach_steps: "(tw_step srv strict)\<^sup>*\<^sup>* s s' \<Longrightarrow> tw_reach srv strict t s \<Longrightarrow> tw_reach srv strict t s'"
  by (induction rule: rtranclp_induct) (auto intro: tw_reach.step)

lemma joining_ends:
  assumes "tw_reach srv True t s" and "spc s = Joining"
  shows "\<exists>s'. (tw_step srv True)\<^sup>*\<^sup>* s s' \<and> wpc s' = Ended \<and> spc s' = Joining"
proof -
  note inv = reach_inv [OF assms(1)]
  have q: "stop_requested (tq s)" "queue (tq s) \<noteq> None" "thread_running (tq s)"
    using inv assms(2) by (auto simp: control_inv_def)
  then obtain evs where evs: "queue (tq s) = Some evs" by blast
  show ?thesis
  proof (cases "wpc s")
    case Waiting
    then show ?thesis using stop_round [OF Waiting evs q(1)] assms(2) by auto
  next
    case Writing
    show ?thesis
    proof (cases "stopping s")
      case True
      then obtain c where "(tw_step srv True)\<^sup>*\<^sup>* s (s\<lparr>batch := [], handled := handled s @ batch s, wpc := Ended, conn := c\<rparr>)"
        using last_round [OF Writing] by blast
      then show ?thesis using assms(2) by (auto intro!: exI)
    next
      case False
      obtain c where d: "(tw_step srv True)\<^sup>*\<^sup>* s (s\<lparr>batch := [], handled := handled s @ batch s, conn := c\<rparr>)"
        using drain_batch [OF Writing] by blast
      let ?s1 = "s\<lparr>batch := [], handled := handled s @ batch s, conn := c\<rparr>"
      have "tw_step srv True ?s1 (?s1\<lparr>wpc := Waiting\<rparr>)" using Writing False by (intro tw_step.batch_done) auto
      with d have "(tw_step srv True)\<^sup>*\<^sup>* s (?s1\<lparr>wpc := Waiting\<rparr>)" by (rule rtranclp.rtrancl_into_rtrancl)
      moreover obtain s' where "(tw_step srv True)\<^sup>*\<^sup>* (?s1\<lparr>wpc := Waiting\<rparr>) s'" "wpc s' = Ended" "spc s' = Joining"
        using stop_round [of "?s1\<lparr>wpc := Waiting\<rparr>" evs srv] evs q(1) assms(2) by auto
      ultimately show ?thesis by (meson rtranclp_trans)
    qed
  next
    case Ended
    then show ?thesis using assms(2) by blast
  next
    case No_thread
    then show ?thesis using assms no_thread_idle [OF assms(1)] q(3) by simp
  qed
qed

section \<open>Running a schedule\<close>

text \<open>An executable reading of \<open>tw_step\<close>: a schedule names the step to take next.\<close>

datatype action = Enqueue "thread_id option" bool string | Take | Write_one | Batch_done | Thread_exit | Request | Join | Finish

fun do_action :: "services \<Rightarrow> bool \<Rightarrow> action \<Rightarrow> system \<Rightarrow> system option" where
  "do_action srv strict (Enqueue created push_ok sql) s =
     (if (strict \<longrightarrow> spc s = Running) \<and> event_sql sql then
        let (ok, q) = table_writer_enqueue created push_ok sql (tq s);
            started = (\<not> thread_running (tq s) \<and> thread_running q)
        in Some (s\<lparr>tq := q, accepted := accepted s @ (if ok then [sql] else []),
             wpc := (if started then Waiting else wpc s),
             conn := (if started then thread_start (conn s) else conn s)\<rparr>)
      else None)"
| "do_action srv strict Take s =
     (if wpc s = Waiting then
        map_option (\<lambda>(evs, stop, q). s\<lparr>tq := q, batch := evs, stopping := stop, wpc := Writing\<rparr>) (writer_take (tq s))
      else None)"
| "do_action srv strict Write_one s =
     (case batch s of
        [] \<Rightarrow> None
      | e # rest \<Rightarrow> if wpc s = Writing then
          Some (s\<lparr>batch := rest, handled := handled s @ [e], conn := write_event srv e (conn s)\<rparr>) else None)"
| "do_action srv strict Batch_done s =
     (if wpc s = Writing \<and> batch s = [] \<and> \<not> stopping s then Some (s\<lparr>wpc := Waiting\<rparr>) else None)"
| "do_action srv strict Thread_exit s =
     (if wpc s = Writing \<and> batch s = [] \<and> stopping s then Some (s\<lparr>wpc := Ended, conn := thread_finish (conn s)\<rparr>) else None)"
| "do_action srv strict Request s =
     (if spc s = Running then
        let (join_it, q) = shutdown_request (tq s)
        in Some (s\<lparr>tq := q, spc := (if join_it then Joining else Joined), before_stop := Some (accepted s)\<rparr>)
      else None)"
| "do_action srv strict Join s = (if spc s = Joining \<and> wpc s = Ended then Some (s\<lparr>spc := Joined\<rparr>) else None)"
| "do_action srv strict Finish s = (if spc s = Joined then Some (s\<lparr>tq := shutdown_finish (tq s), spc := Shut\<rparr>) else None)"

fun run_schedule :: "services \<Rightarrow> bool \<Rightarrow> action list \<Rightarrow> system \<Rightarrow> system option" where
  "run_schedule srv strict [] s = Some s"
| "run_schedule srv strict (a # as) s =
     (case do_action srv strict a s of None \<Rightarrow> None | Some s' \<Rightarrow> run_schedule srv strict as s')"

lemma do_action_step: "do_action srv strict a s = Some s' \<Longrightarrow> tw_step srv strict s s'"
proof (induction srv strict a s rule: do_action.induct)
  case (1 srv strict created push_ok sql s)
  obtain ok q where e: "table_writer_enqueue created push_ok sql (tq s) = (ok, q)" by (rule prod.exhaust)
  have "strict \<Longrightarrow> spc s = Running" "event_sql sql" using 1 by (auto split: if_splits)
  from tw_step.enqueue [OF this e] show ?case using 1 e by (auto simp: Let_def split: if_splits)
next
  case (6 srv strict s)
  obtain j q where e: "shutdown_request (tq s) = (j, q)" by (rule prod.exhaust)
  show ?case using 6 tw_step.request [OF _ e] by (auto simp: e split: if_splits)
qed (auto intro: tw_step.intros split: if_splits list.splits)

lemma run_schedule_reach: "run_schedule srv strict as s = Some s' \<Longrightarrow> tw_reach srv strict t s \<Longrightarrow> tw_reach srv strict t s'"
proof (induction as arbitrary: s)
  case (Cons a as)
  then obtain s1 where s1: "do_action srv strict a s = Some s1" "run_schedule srv strict as s1 = Some s'"
    by (auto split: option.splits)
  then have "tw_reach srv strict t s1" using Cons.prems(2) do_action_step tw_reach.step by blast
  then show ?case using Cons.IH s1(2) by blast
qed simp

definition scheduled :: "bool \<Rightarrow> action list \<Rightarrow> system" where
  "scheduled strict as = the (run_schedule willing_server strict as (initial_system True 5))"

lemma scheduled_reach:
  "run_schedule willing_server strict as (initial_system True 5) \<noteq> None \<Longrightarrow> tw_reach willing_server strict 5 (scheduled strict as)"
  using run_schedule_reach [OF _ tw_reach.init, of willing_server strict as True 5] by (auto simp: scheduled_def)

section \<open>Properties\<close>

text \<open>
  (C17) The bounded queue is first in, first out, under every interleaving of callbacks, writer and
  shutdown.  While the queue exists the accepted events are those handled, those of the writer's
  batch and those queued, in this order and each exactly once; at most 10000 are queued; and the
  statements that succeeded are a subsequence of the handled events, the others being counted as
  failures modulo 2 ^ 64.
\<close>

theorem queue_fifo_bounded:
  assumes "tw_reach srv strict t s"
  shows "(queue (tq s) \<noteq> None \<longrightarrow> accepted s = handled s @ batch s @ the (queue (tq s)) \<and>
      length (the (queue (tq s))) \<le> QUEUE_MAX_EVENTS) \<and> prefix (handled s @ batch s) (accepted s) \<and>
    (\<exists>kept. subseq kept (handled s) \<and> executed srv (svc_calls (conn s)) = kept \<and>
      table_writer_failures (conn s) = of_nat (length (handled s) - length kept))"
  using reach_inv [OF assms] by (auto simp: fifo_inv_def log_inv_def pending_def table_writer_failures_def)

theorem queue_fifo_bounded_witness:
  "accepted (scheduled False [Enqueue (Some 9) True ''A'', Enqueue None True ''B'', Take, Enqueue None True ''C'', Write_one]) =
     handled (scheduled False [Enqueue (Some 9) True ''A'', Enqueue None True ''B'', Take, Enqueue None True ''C'', Write_one]) @
     batch (scheduled False [Enqueue (Some 9) True ''A'', Enqueue None True ''B'', Take, Enqueue None True ''C'', Write_one]) @ [''C'']"
proof -
  let ?as = "[Enqueue (Some 9) True ''A'', Enqueue None True ''B'', Take, Enqueue None True ''C'', Write_one]"
  have "run_schedule willing_server False ?as (initial_system True 5) \<noteq> None" by code_simp
  from queue_fifo_bounded [OF scheduled_reach [OF this]]
  have "queue (tq (scheduled False ?as)) \<noteq> None \<longrightarrow> accepted (scheduled False ?as) =
      handled (scheduled False ?as) @ batch (scheduled False ?as) @ the (queue (tq (scheduled False ?as)))"
    by blast
  moreover have "queue (tq (scheduled False ?as)) = Some [''C'']" by code_simp
  ultimately show ?thesis by simp
qed

text \<open>
  (C18) Shutdown drains the queue.  Whatever else happens meanwhile, when \<open>table_writer_shutdown\<close> is done
  every event accepted before it began has been handed to \<open>run_insert\<close>, in order; and when no callback
  enqueues during the shutdown, all accepted events have been, and the writer thread never finds the
  queue deleted.
\<close>

theorem shutdown_drains:
  assumes "tw_reach srv strict t s" and "spc s = Shut"
  shows "\<exists>b. before_stop s = Some b \<and> prefix b (handled s) \<and>
    (strict \<longrightarrow> handled s = accepted s \<and> wpc s \<noteq> Waiting \<and> wpc s \<noteq> Writing)"
proof -
  note inv = reach_inv [OF assms(1)]
  obtain b where b: "before_stop s = Some b" "prefix b (handled s)"
    using inv assms(2) by (auto simp: control_inv_def stop_inv_def)
  have "handled s = accepted s \<and> wpc s \<noteq> Waiting \<and> wpc s \<noteq> Writing" if strict
  proof -
    have r: "tw_reach srv True t s" using assms(1) that by simp
    have "b = accepted s" using strict_reach [OF r] assms(2) b(1) by simp
    moreover have "prefix (handled s) (accepted s)" using inv by (auto simp: fifo_inv_def dest: append_prefixD)
    moreover have "queue (tq s) = None" using inv assms(2) by (auto simp: control_inv_def)
    ultimately show ?thesis using b(2) strict_no_crash [OF r] prefix_order.antisym by auto
  qed
  then show ?thesis using b by blast
qed

theorem shutdown_drains_witness:
  "handled (scheduled True [Enqueue (Some 9) True ''A'', Request, Take, Write_one, Thread_exit, Join, Finish]) =
   accepted (scheduled True [Enqueue (Some 9) True ''A'', Request, Take, Write_one, Thread_exit, Join, Finish])"
proof -
  let ?as = "[Enqueue (Some 9) True ''A'', Request, Take, Write_one, Thread_exit, Join, Finish]"
  have "run_schedule willing_server True ?as (initial_system True 5) \<noteq> None" by code_simp
  moreover have "spc (scheduled True ?as) = Shut" by code_simp
  ultimately show ?thesis using shutdown_drains [OF scheduled_reach] by blast
qed

text \<open>
  (C19) Shutdown terminates: from every state in which it waits for the writer thread there is an
  execution, of the writer's steps and its own only, that ends the thread and completes the shutdown
  with every accepted event handled.
\<close>

theorem shutdown_terminates:
  assumes "tw_reach srv True t s" and "spc s = Joining"
  shows "\<exists>s'. (tw_step srv True)\<^sup>*\<^sup>* s s' \<and> spc s' = Shut \<and> queue (tq s') = None \<and> handled s' = accepted s'"
proof -
  obtain s1 where s1: "(tw_step srv True)\<^sup>*\<^sup>* s s1" "wpc s1 = Ended" "spc s1 = Joining"
    using joining_ends [OF assms] by blast
  define s2 where "s2 = s1\<lparr>spc := Joined, tq := shutdown_finish (tq s1), spc := Shut\<rparr>"
  have "tw_step srv True s1 (s1\<lparr>spc := Joined\<rparr>)" using s1 by (intro tw_step.join)
  moreover have "tw_step srv True (s1\<lparr>spc := Joined\<rparr>) s2"
    using tw_step.finish [of "s1\<lparr>spc := Joined\<rparr>" srv True] by (simp add: s2_def)
  ultimately have path: "(tw_step srv True)\<^sup>*\<^sup>* s s2" using s1(1) by (meson rtranclp.rtrancl_into_rtrancl)
  then have r: "tw_reach srv True t s2" using assms(1) by (rule reach_steps)
  have "handled s2 = accepted s2"
    using strict_reach [OF r] reach_inv [OF r]
    by (auto simp: s2_def stop_inv_def fifo_inv_def prefix_order.antisym dest: append_prefixD)
  then show ?thesis using path by (auto simp: s2_def shutdown_finish_def)
qed

theorem shutdown_terminates_witness:
  "\<exists>s'. (tw_step willing_server True)\<^sup>*\<^sup>* (scheduled True [Enqueue (Some 9) True ''A'', Request]) s' \<and>
     spc s' = Shut \<and> queue (tq s') = None \<and> handled s' = accepted s'"
proof (rule shutdown_terminates)
  show "tw_reach willing_server True 5 (scheduled True [Enqueue (Some 9) True ''A'', Request])"
    by (rule scheduled_reach) code_simp
  show "spc (scheduled True [Enqueue (Some 9) True ''A'', Request]) = Joining" by code_simp
qed

text \<open>
  (C40) What may happen when a callback does enqueue during the shutdown: an event whose enqueue
  returned \<open>true\<close> is deleted with the queue, unwritten and uncounted; and when the thread was not
  running at the first critical section of the shutdown but is started before the second, it is left
  running with the queue deleted under it.
\<close>

theorem late_enqueue_hazards:
  "(\<exists>s. tw_reach willing_server False 5 s \<and> spc s = Shut \<and> accepted s = [''A'', ''B''] \<and> handled s = [''A''] \<and>
      table_writer_failures (conn s) = 0 \<and> table_writer_dropped (tq s) = 0) \<and>
   (\<exists>s. tw_reach willing_server False 5 s \<and> wpc s = Waiting \<and> queue (tq s) = None)"
proof
  let ?as = "[Enqueue (Some 9) True ''A'', Request, Take, Enqueue None True ''B'', Write_one, Thread_exit, Join, Finish]"
  have "run_schedule willing_server False ?as (initial_system True 5) \<noteq> None" by code_simp
  then have "tw_reach willing_server False 5 (scheduled False ?as)" by (rule scheduled_reach)
  moreover have "spc (scheduled False ?as) = Shut \<and> accepted (scheduled False ?as) = [''A'', ''B''] \<and>
      handled (scheduled False ?as) = [''A''] \<and> table_writer_failures (conn (scheduled False ?as)) = 0 \<and>
      table_writer_dropped (tq (scheduled False ?as)) = 0"
    by code_simp
  ultimately show "\<exists>s. tw_reach willing_server False 5 s \<and> spc s = Shut \<and> accepted s = [''A'', ''B''] \<and> handled s = [''A''] \<and>
      table_writer_failures (conn s) = 0 \<and> table_writer_dropped (tq s) = 0"
    by blast
next
  let ?as = "[Request, Enqueue (Some 9) True ''A'', Finish]"
  have "run_schedule willing_server False ?as (initial_system True 5) \<noteq> None" by code_simp
  then have "tw_reach willing_server False 5 (scheduled False ?as)" by (rule scheduled_reach)
  moreover have "wpc (scheduled False ?as) = Waiting \<and> queue (tq (scheduled False ?as)) = None" by code_simp
  ultimately show "\<exists>s. tw_reach willing_server False 5 s \<and> wpc s = Waiting \<and> queue (tq s) = None" by blast
qed

text \<open>
  \<open>table_writer_enqueue\<close>, branch by branch.  It returns \<open>true\<close> exactly when the queue exists, the
  thread runs or can be started, the queue is not full and there is memory; then the statement is
  appended and nothing is counted.  A full queue or missing memory counts one dropped event and leaves
  the queue alone; without a queue nothing changes at all.
\<close>

lemma enqueue_behaviour:
  "case queue q of
     None \<Rightarrow> table_writer_enqueue created push_ok sql q = (False, q)
   | Some evs \<Rightarrow>
       let (ok, q') = table_writer_enqueue created push_ok sql q;
           running = (thread_running q \<or> created \<noteq> None)
       in ok = (running \<and> length evs < QUEUE_MAX_EVENTS \<and> push_ok) \<and> thread_running q' = running \<and>
          queue q' = Some (if ok then evs @ [sql] else evs) \<and>
          table_writer_dropped q' = table_writer_dropped q + (if running \<and> \<not> ok then 1 else 0)"
  by (auto simp: table_writer_enqueue_def start_thread_locked_def table_writer_dropped_def Let_def split: option.splits)

end
