(* ===== verification/Plugin_Config.thy ===== *)
theory Plugin_Config
  imports Filter_Parser Statement_State File_Writer Writer_Queue
begin

text \<open>
  The variables of \<open>src/selective_trace_mysql.cc\<close>: the filter state shared by all connections, the
  system variables with their check and update callbacks, the status variables, and loading and
  unloading the plugin.  Each update callback is the critical section it runs under \<open>filter_lock\<close>.
  Memory is taken to suffice: the \<open>catch\<close> blocks and the checks of \<open>new (std::nothrow)\<close> are the subject of
  \<open>Plugin_Failures\<close>.
\<close>

datatype output_mode = OUTPUT_FILE | OUTPUT_TABLE

text \<open>The static variables.  A string variable is \<open>None\<close> where the pointer is \<open>NULL\<close>; the writers' own
  static variables are the last three fields.\<close>

record plugin =
  active_rules :: "FilterRules option"
  schemas_storage :: "string option"
  tables_storage :: "string option"
  connections_storage :: "string option"
  file_path_storage :: "string option"
  plugin_ready :: bool
  states :: "state_map option"
  opt_enabled :: bool
  opt_schemas :: "string option"
  opt_tables :: "string option"
  opt_connections :: "string option"
  opt_output :: output_mode
  opt_file_path :: "string option"
  opt_min_duration_ms :: u32
  opt_mask_passwords :: bool
  status_events_logged :: u64
  files :: file_writer
  events :: table_queue
  sql_conn :: writer

section \<open>The filter lists\<close>

text \<open>What a check callback answers: the entry it complains about, or the value to save.\<close>

type_synonym check_result = "string + string option"

definition check_filter_list :: "bool \<Rightarrow> string option \<Rightarrow> check_result" where
  "check_filter_list is_table_list str =
     (case str of
        None \<Rightarrow> Inr None
      | Some s \<Rightarrow>
          (case (if is_table_list then parse_filter_lists None (Some s) empty_rules
                 else parse_filter_lists (Some s) None empty_rules) of
             Inl bad_token \<Rightarrow> Inl bad_token
           | Inr _ \<Rightarrow> Inr str))"

definition check_schemas :: "string option \<Rightarrow> check_result" where
  "check_schemas str = check_filter_list False str"

definition check_tables :: "string option \<Rightarrow> check_result" where
  "check_tables str = check_filter_list True str"

definition check_connections :: "string option \<Rightarrow> check_result" where
  "check_connections str =
     (case str of
        None \<Rightarrow> Inr None
      | Some s \<Rightarrow>
          (case parse_connection_list (Some s) empty_rules of
             Inl bad_token \<Rightarrow> Inl bad_token
           | Inr _ \<Rightarrow> Inr str))"

text \<open>The result is \<open>True\<close> for the error return 1.\<close>

definition rebuild_rules_locked ::
    "string option \<Rightarrow> string option \<Rightarrow> string option \<Rightarrow> plugin \<Rightarrow> bool \<times> plugin" where
  "rebuild_rules_locked schemas_csv tables_csv conns_csv p =
     (case parse_filter_lists schemas_csv tables_csv empty_rules of
        Inl _ \<Rightarrow> (True, p)
      | Inr r \<Rightarrow>
          (case parse_connection_list conns_csv r of
             Inl _ \<Rightarrow> (True, p)
           | Inr fresh \<Rightarrow> (False, p\<lparr>active_rules := Some fresh\<rparr>)))"

datatype filter_kind = FK_SCHEMAS | FK_TABLES | FK_CONNECTIONS

definition store_list :: "filter_kind \<Rightarrow> string \<Rightarrow> plugin \<Rightarrow> plugin" where
  "store_list kind new_val p =
     (case kind of
        FK_TABLES \<Rightarrow> p\<lparr>tables_storage := Some new_val, opt_tables := Some new_val\<rparr>
      | FK_CONNECTIONS \<Rightarrow> p\<lparr>connections_storage := Some new_val, opt_connections := Some new_val\<rparr>
      | FK_SCHEMAS \<Rightarrow> p\<lparr>schemas_storage := Some new_val, opt_schemas := Some new_val\<rparr>)"

definition update_filter_list :: "filter_kind \<Rightarrow> string option \<Rightarrow> plugin \<Rightarrow> plugin" where
  "update_filter_list kind save p =
     (let new_val = (case save of None \<Rightarrow> [] | Some s \<Rightarrow> s);
          p1 = store_list kind new_val p
      in snd (rebuild_rules_locked (schemas_storage p1) (tables_storage p1) (connections_storage p1) p1))"

text \<open>\<open>SET GLOBAL\<close> on one of the three variables: the server calls the check, and the update with the
  value it saved when the check returns 0.\<close>

definition check_kind :: "filter_kind \<Rightarrow> string option \<Rightarrow> check_result" where
  "check_kind kind str =
     (case kind of FK_SCHEMAS \<Rightarrow> check_schemas str | FK_TABLES \<Rightarrow> check_tables str
      | FK_CONNECTIONS \<Rightarrow> check_connections str)"

definition set_filter :: "filter_kind \<Rightarrow> string option \<Rightarrow> plugin \<Rightarrow> string option \<times> plugin" where
  "set_filter kind str p =
     (case check_kind kind str of
        Inl bad \<Rightarrow> (Some bad, p)
      | Inr save \<Rightarrow> (None, update_filter_list kind save p))"

definition update_file_path :: "stdio \<Rightarrow> string option \<Rightarrow> plugin \<Rightarrow> plugin" where
  "update_file_path io save p =
     (let new_val = (case save of None \<Rightarrow> [] | Some s \<Rightarrow> s);
          p1 = p\<lparr>file_path_storage := Some new_val, opt_file_path := Some new_val\<rparr>
      in if opt_enabled p1 \<and> opt_output p1 = OUTPUT_FILE
         then p1\<lparr>files := snd (file_writer_reopen io (file_path_storage p1) (files p1))\<rparr>
         else p1\<lparr>files := file_writer_close (files p1)\<rparr>)"

section \<open>Status variables\<close>

definition show_write_failures :: "plugin \<Rightarrow> u64" where
  "show_write_failures p = file_writer_failures (files p) + table_writer_failures (sql_conn p)"

definition show_events_dropped :: "plugin \<Rightarrow> u64" where
  "show_events_dropped p = table_writer_dropped (events p)"

definition show_writer_reconnects :: "plugin \<Rightarrow> u64" where
  "show_writer_reconnects p = table_writer_reconnects (sql_conn p)"

section \<open>Loading and unloading\<close>

definition text_or_empty :: "string option \<Rightarrow> string option" where
  "text_or_empty s = (case s of None \<Rightarrow> Some [] | Some t \<Rightarrow> Some t)"

text \<open>The effect of \<open>table_writer_shutdown\<close> on the shared variables; what the writer thread does
  between its two critical sections is the subject of the theory \<open>Writer_Queue\<close>.\<close>

definition table_writer_shutdown :: "table_queue \<Rightarrow> table_queue" where
  "table_writer_shutdown q = shutdown_finish (snd (shutdown_request q))"

text \<open>The result is \<open>True\<close> for the error return 1.\<close>

definition selective_trace_init :: "plugin \<Rightarrow> bool \<times> plugin" where
  "selective_trace_init p =
     (let p1 = p\<lparr>states := Some Map.empty, events := table_writer_init True (events p),
                 schemas_storage := text_or_empty (opt_schemas p), tables_storage := text_or_empty (opt_tables p),
                 connections_storage := text_or_empty (opt_connections p),
                 file_path_storage := text_or_empty (opt_file_path p)\<rparr>;
          p2 = p1\<lparr>opt_schemas := schemas_storage p1, opt_tables := tables_storage p1,
                  opt_connections := connections_storage p1, opt_file_path := file_path_storage p1\<rparr>;
          (failed, p3) = rebuild_rules_locked (schemas_storage p2) (tables_storage p2) (connections_storage p2) p2
      in if failed
         then (True, p3\<lparr>schemas_storage := None, tables_storage := None, connections_storage := None,
                       file_path_storage := None, events := table_writer_shutdown (events p3),
                       files := file_writer_deinit (files p3), states := None\<rparr>)
         else (False, p3\<lparr>plugin_ready := True\<rparr>))"

definition selective_trace_deinit :: "plugin \<Rightarrow> plugin" where
  "selective_trace_deinit p =
     (if \<not> plugin_ready p then p
      else p\<lparr>plugin_ready := False, events := table_writer_shutdown (events p),
             files := file_writer_deinit (files p), active_rules := None, schemas_storage := None,
             tables_storage := None, connections_storage := None, file_path_storage := None, states := None\<rparr>)"

text \<open>The static initialisers, with the defaults of the system variables.\<close>

definition loaded_plugin :: plugin where
  "loaded_plugin = \<lparr>active_rules = None, schemas_storage = None, tables_storage = None, connections_storage = None,
     file_path_storage = None, plugin_ready = False, states = None, opt_enabled = False, opt_schemas = Some [],
     opt_tables = Some [], opt_connections = Some [], opt_output = OUTPUT_FILE,
     opt_file_path = Some ''selective_trace.json'', opt_min_duration_ms = 0, opt_mask_passwords = True,
     status_events_logged = 0, files = file_writer_init, events = load_queue,
     sql_conn = new_writer WRITER_RECONNECT_EVERY_N_INSERTS\<rparr>"

section \<open>The rules in force are the lists as they stand\<close>

text \<open>While the plugin is ready its rules are those of the three stored lists, and the lists parse.\<close>

definition config_inv :: "plugin \<Rightarrow> bool" where
  "config_inv p \<longleftrightarrow> (\<exists>s t c r r'. schemas_storage p = Some s \<and> tables_storage p = Some t \<and> connections_storage p = Some c \<and>
     parse_filter_lists (Some s) (Some t) empty_rules = Inr r \<and> parse_connection_list (Some c) r = Inr r' \<and>
     active_rules p = Some r' \<and> opt_schemas p = Some s \<and> opt_tables p = Some t \<and> opt_connections p = Some c)"

lemma parse_filter_lists_ok:
  "(\<exists>r. parse_filter_lists sc tc out = Inr r) \<longleftrightarrow>
     (\<exists>ss. parse_schemas (split_csv sc) [] = Inr ss) \<and> (\<exists>ts. parse_tables (split_csv tc) [] [] = Inr ts)"
  by (auto simp: parse_filter_lists_def split: sum.splits prod.splits)

lemma parse_connection_list_ok:
  "(\<exists>r. parse_connection_list cc out = Inr r) \<longleftrightarrow> (\<exists>ids. parse_conn_tokens (split_csv cc) [] = Inr ids)"
  by (auto simp: parse_connection_list_def split: sum.splits)

lemma split_csv_None [simp]: "split_csv None = []"
  by (simp add: split_csv_def)

text \<open>A list is valid when its check callback accepts it; validity of the three lists is what the
  rebuilding of the rules needs, independently of one another.\<close>

definition valid_list :: "filter_kind \<Rightarrow> string \<Rightarrow> bool" where
  "valid_list kind s \<longleftrightarrow> isl (check_kind kind (Some s)) = False"

lemma valid_list_iff:
  "valid_list FK_SCHEMAS s \<longleftrightarrow> (\<exists>ss. parse_schemas (split_csv (Some s)) [] = Inr ss)"
  "valid_list FK_TABLES s \<longleftrightarrow> (\<exists>ts. parse_tables (split_csv (Some s)) [] [] = Inr ts)"
  "valid_list FK_CONNECTIONS s \<longleftrightarrow> (\<exists>ids. parse_conn_tokens (split_csv (Some s)) [] = Inr ids)"
  by (auto simp: valid_list_def check_kind_def check_schemas_def check_tables_def check_connections_def
      check_filter_list_def parse_filter_lists_def parse_connection_list_def split: sum.splits prod.splits)

lemma check_kind_Inr: "check_kind kind (Some s) = Inr v \<Longrightarrow> v = Some s \<and> valid_list kind s"
  by (auto simp: valid_list_def check_kind_def check_schemas_def check_tables_def check_connections_def
      check_filter_list_def split: sum.splits filter_kind.splits)

lemma check_kind_None: "check_kind kind None = Inr None"
  by (simp add: check_kind_def check_schemas_def check_tables_def check_connections_def check_filter_list_def
      split: filter_kind.split)

lemma valid_empty: "valid_list kind []"
  by (cases kind) (simp_all add: valid_list_iff split_csv_def flush_token_def clean_token_def trim_def trim_right_def)

text \<open>Rebuilding from three valid lists cannot fail, and gives well-formed rules.\<close>

lemma rebuild_valid:
  assumes "valid_list FK_SCHEMAS s" and "valid_list FK_TABLES t" and "valid_list FK_CONNECTIONS c"
  shows "\<exists>r r'. parse_filter_lists (Some s) (Some t) empty_rules = Inr r \<and> parse_connection_list (Some c) r = Inr r' \<and>
    wf_rules r' \<and> rebuild_rules_locked (Some s) (Some t) (Some c) p = (False, p\<lparr>active_rules := Some r'\<rparr>)"
proof -
  obtain r where r: "parse_filter_lists (Some s) (Some t) empty_rules = Inr r"
    using assms(1,2) parse_filter_lists_ok unfolding valid_list_iff by blast
  obtain r' where r': "parse_connection_list (Some c) r = Inr r'"
    using assms(3) parse_connection_list_ok unfolding valid_list_iff by blast
  have "wf_rules r'" using parse_connection_list_wf [OF r' parse_filter_lists_wf [OF r wf_empty_rules]] .
  then show ?thesis using r r' by (auto simp: rebuild_rules_locked_def)
qed

lemma config_inv_valid:
  "config_inv p \<Longrightarrow> \<exists>s t c. schemas_storage p = Some s \<and> tables_storage p = Some t \<and> connections_storage p = Some c \<and>
    valid_list FK_SCHEMAS s \<and> valid_list FK_TABLES t \<and> valid_list FK_CONNECTIONS c"
  unfolding config_inv_def valid_list_iff using parse_filter_lists_ok parse_connection_list_ok by metis

lemma config_inv_wf: "config_inv p \<Longrightarrow> \<exists>r. active_rules p = Some r \<and> wf_rules r"
  unfolding config_inv_def using parse_filter_lists_wf parse_connection_list_wf wf_empty_rules by metis

definition stored :: "filter_kind \<Rightarrow> plugin \<Rightarrow> string option" where
  "stored kind p = (case kind of FK_SCHEMAS \<Rightarrow> schemas_storage p | FK_TABLES \<Rightarrow> tables_storage p
     | FK_CONNECTIONS \<Rightarrow> connections_storage p)"

lemma stored_store_list [simp]:
  "stored k (store_list kind v p) = (if k = kind then Some v else stored k p)"
  by (cases k; cases kind) (simp_all add: stored_def store_list_def)

lemma store_list_rest [simp]:
  "files (store_list kind v p) = files p" "states (store_list kind v p) = states p"
  "events (store_list kind v p) = events p" "plugin_ready (store_list kind v p) = plugin_ready p"
  by (cases kind; simp add: store_list_def)+

lemma stored_rules [simp]: "stored k (p\<lparr>active_rules := r\<rparr>) = stored k p"
  by (cases k) (simp_all add: stored_def)

lemma update_valid:
  assumes "config_inv p" and "valid_list kind v"
  shows "config_inv (update_filter_list kind (Some v) p) \<and>
    (\<forall>k. stored k (update_filter_list kind (Some v) p) = (if k = kind then Some v else stored k p))"
proof -
  let ?p1 = "store_list kind v p"
  obtain s t c where old: "schemas_storage p = Some s" "tables_storage p = Some t" "connections_storage p = Some c"
    "valid_list FK_SCHEMAS s" "valid_list FK_TABLES t" "valid_list FK_CONNECTIONS c"
    using config_inv_valid [OF assms(1)] by blast
  have opts: "opt_schemas p = Some s" "opt_tables p = Some t" "opt_connections p = Some c"
    using assms(1) old(1-3) by (auto simp: config_inv_def)
  obtain s' t' c' where new: "schemas_storage ?p1 = Some s'" "tables_storage ?p1 = Some t'" "connections_storage ?p1 = Some c'"
    "valid_list FK_SCHEMAS s'" "valid_list FK_TABLES t'" "valid_list FK_CONNECTIONS c'"
    "opt_schemas ?p1 = Some s'" "opt_tables ?p1 = Some t'" "opt_connections ?p1 = Some c'"
    using old opts assms(2) by (cases kind) (auto simp: store_list_def)
  obtain r r' where r: "parse_filter_lists (Some s') (Some t') empty_rules = Inr r" "parse_connection_list (Some c') r = Inr r'"
    "rebuild_rules_locked (Some s') (Some t') (Some c') ?p1 = (False, ?p1\<lparr>active_rules := Some r'\<rparr>)"
    using rebuild_valid [OF new(4-6), of ?p1] by blast
  have "update_filter_list kind (Some v) p = ?p1\<lparr>active_rules := Some r'\<rparr>"
    by (simp add: update_filter_list_def new(1-3) r(3))
  then show ?thesis using new r by (auto simp: config_inv_def)
qed

text \<open>An open log file is the one the path variable names.\<close>

definition path_inv :: "plugin \<Rightarrow> bool" where
  "path_inv p \<longleftrightarrow> log_fp (files p) = None \<or> log_fp (files p) = opt_file_path p"

lemma open_locked_path: "log_fp w = None \<Longrightarrow> log_fp (snd (open_locked io path w)) = None \<or> log_fp (snd (open_locked io path w)) = path"
  by (auto simp: open_locked_def Let_def)

lemma file_writer_write_path:
  "log_fp w = None \<or> log_fp w = path \<Longrightarrow>
   log_fp (snd (file_writer_write io line path w)) = None \<or> log_fp (snd (file_writer_write io line path w)) = path"
  using open_locked_path [of w io path]
  by (auto simp: file_writer_write_eq write_ready_def Let_def split: option.splits)

lemma path_inv_update: "path_inv (update_file_path io save p)"
  using open_locked_path [of "file_writer_close (files p)" io]
  by (auto simp: path_inv_def update_file_path_def Let_def file_writer_reopen_eq)

lemma text_or_empty_Some: "\<exists>s. text_or_empty o' = Some s"
  by (cases o') (simp_all add: text_or_empty_def)

text \<open>The plugin as it is after loading it with the default settings.\<close>

definition ready_plugin :: plugin where
  "ready_plugin = snd (selective_trace_init loaded_plugin)"

lemma ready_plugin_eq:
  "ready_plugin = loaded_plugin\<lparr>states := Some Map.empty, events := table_writer_init True load_queue, schemas_storage := Some [],
     tables_storage := Some [], connections_storage := Some [], file_path_storage := Some ''selective_trace.json'',
     active_rules := Some empty_rules, plugin_ready := True\<rparr>"
proof -
  have "parse_filter_lists (Some []) (Some []) empty_rules = Inr empty_rules" "parse_connection_list (Some []) empty_rules = Inr empty_rules"
    by code_simp+
  then show ?thesis
    by (simp add: ready_plugin_def selective_trace_init_def loaded_plugin_def rebuild_rules_locked_def text_or_empty_def)
qed

lemma config_inv_ready: "config_inv ready_plugin"
proof -
  have "parse_filter_lists (Some []) (Some []) empty_rules = Inr empty_rules" "parse_connection_list (Some []) empty_rules = Inr empty_rules"
    by code_simp+
  then show ?thesis by (simp add: config_inv_def ready_plugin_eq loaded_plugin_def)
qed

section \<open>Properties\<close>

text \<open>
  Setting a filter variable.  If the check rejects the value nothing changes.  If it accepts, the
  rebuilding of the rules cannot fail: the new list and the two others as they stood are in force,
  the rules are exactly what they parse to, and they are well formed.
\<close>

lemma set_filter_consistent:
  assumes "config_inv p"
  shows "case set_filter kind str p of
      (Some bad, p') \<Rightarrow> p' = p
    | (None, p') \<Rightarrow> config_inv p' \<and> (\<exists>r. active_rules p' = Some r \<and> wf_rules r) \<and>
        stored kind p' = text_or_empty str \<and> (\<forall>k. k \<noteq> kind \<longrightarrow> stored k p' = stored k p)"
proof (cases str)
  case None
  have "update_filter_list kind None p = update_filter_list kind (Some []) p" by (simp add: update_filter_list_def)
  then show ?thesis
    using update_valid [OF assms valid_empty, of kind] config_inv_wf
    by (simp add: set_filter_def None check_kind_None text_or_empty_def)
next
  case (Some s)
  show ?thesis
  proof (cases "check_kind kind (Some s)")
    case (Inl bad)
    then show ?thesis by (simp add: set_filter_def Some)
  next
    case (Inr v)
    then show ?thesis
      using update_valid [OF assms, of kind s] check_kind_Inr [OF Inr] config_inv_wf
      by (simp add: set_filter_def Some text_or_empty_def)
  qed
qed

lemma set_filter_consistent_witness:
  "config_inv (snd (set_filter FK_TABLES (Some ''app.orders:insert|delete'') ready_plugin))"
proof -
  have "fst (set_filter FK_TABLES (Some ''app.orders:insert|delete'') ready_plugin) = None"
    by (simp add: set_filter_def) code_simp
  then show ?thesis
    using set_filter_consistent [OF config_inv_ready, of FK_TABLES "Some ''app.orders:insert|delete''"]
    by (simp add: split_beta split: option.splits prod.splits)
qed

text \<open>
  Loading the plugin.  \<open>selective_trace_init\<close> fails exactly when one of the three configured lists
  does not parse, and then leaves no storage, no state map and no queue behind and the plugin not
  ready; when it succeeds the plugin is ready with an empty state map, no connection is being traced
  yet, and the rules are those of the configured lists.
\<close>

lemma init_outcome:
  "case selective_trace_init p of
     (failed, p') \<Rightarrow>
       failed = (\<not> (valid_list FK_SCHEMAS (the (text_or_empty (opt_schemas p))) \<and>
                   valid_list FK_TABLES (the (text_or_empty (opt_tables p))) \<and>
                   valid_list FK_CONNECTIONS (the (text_or_empty (opt_connections p))))) \<and>
       (if failed then plugin_ready p' = plugin_ready p \<and> states p' = None \<and> schemas_storage p' = None \<and>
          tables_storage p' = None \<and> connections_storage p' = None \<and> file_path_storage p' = None \<and>
          queue (events p') = None \<and> log_fp (files p') = None \<and> active_rules p' = active_rules p
        else plugin_ready p' \<and> config_inv p' \<and> states p' = Some Map.empty \<and> queue (events p') \<noteq> None \<and>
          opt_file_path p' = file_path_storage p')"
proof -
  obtain s t c f where lists: "text_or_empty (opt_schemas p) = Some s" "text_or_empty (opt_tables p) = Some t"
    "text_or_empty (opt_connections p) = Some c" "text_or_empty (opt_file_path p) = Some f"
    using text_or_empty_Some by metis
  define p2 where "p2 = p\<lparr>states := Some Map.empty, events := table_writer_init True (events p), schemas_storage := Some s,
    tables_storage := Some t, connections_storage := Some c, file_path_storage := Some f, opt_schemas := Some s,
    opt_tables := Some t, opt_connections := Some c, opt_file_path := Some f\<rparr>"
  have init: "selective_trace_init p =
     (if fst (rebuild_rules_locked (Some s) (Some t) (Some c) p2)
      then (True, (snd (rebuild_rules_locked (Some s) (Some t) (Some c) p2))\<lparr>schemas_storage := None, tables_storage := None,
        connections_storage := None, file_path_storage := None, events := table_writer_shutdown (events (snd (rebuild_rules_locked (Some s) (Some t) (Some c) p2))),
        files := file_writer_close (files (snd (rebuild_rules_locked (Some s) (Some t) (Some c) p2))), states := None\<rparr>)
      else (False, (snd (rebuild_rules_locked (Some s) (Some t) (Some c) p2))\<lparr>plugin_ready := True\<rparr>))"
    by (simp add: selective_trace_init_def lists p2_def split_beta Let_def)
  show ?thesis
  proof (cases "valid_list FK_SCHEMAS s \<and> valid_list FK_TABLES t \<and> valid_list FK_CONNECTIONS c")
    case True
    then obtain r r' where "parse_filter_lists (Some s) (Some t) empty_rules = Inr r" "parse_connection_list (Some c) r = Inr r'"
      "rebuild_rules_locked (Some s) (Some t) (Some c) p2 = (False, p2\<lparr>active_rules := Some r'\<rparr>)"
      using rebuild_valid [of s t c p2] by blast
    then show ?thesis
      using True by (simp add: init lists) (auto simp: p2_def config_inv_def table_writer_init_def)
  next
    case False
    then have "rebuild_rules_locked (Some s) (Some t) (Some c) p2 = (True, p2)"
      using parse_filter_lists_ok [of "Some s" "Some t" empty_rules] parse_connection_list_ok [of "Some c"]
      by (auto simp: rebuild_rules_locked_def valid_list_iff split: sum.splits)
    then show ?thesis
      using False by (simp add: init lists) (simp add: p2_def table_writer_shutdown_def shutdown_finish_def)
  qed
qed

end
