(* ===== verification/Mask_Secrets.thy ===== *)
theory Mask_Secrets
  imports Trace_Prelude
begin

text \<open>
  Credential masking of \<open>core/filter_engine.cc\<close>: \<open>up\<close>, \<open>is_ident_char\<close>, \<open>kw_at\<close>,
  \<open>mask_following_quote\<close> and \<open>mask_secrets\<close>.

  The index \<open>i\<close> into \<open>q\<close> is a cursor: the byte in front of \<open>i\<close>, if there is one (the only thing
  the code reads to the left of \<open>i\<close>), and the bytes from \<open>i\<close> on.  A routine returns the text it
  appends to \<open>*out\<close>, the flag \<open>*masked\<close> where it sets it, and the new cursor.
\<close>

type_synonym cursor = "char option \<times> string"

definition up :: "char \<Rightarrow> char" where
  "up c = (if CHR ''a'' \<le> c \<and> c \<le> CHR ''z'' then shift_char c CHR ''a'' CHR ''A'' else c)"

definition is_ident_char :: "char \<Rightarrow> bool" where
  "is_ident_char c \<longleftrightarrow> is_lower c \<or> is_upper c \<or> is_digit c \<or> c = CHR ''_''"

text \<open>The comparison loop of \<open>kw_at\<close>, and the rest of the text after the keyword.\<close>

fun kw_prefix :: "string \<Rightarrow> string \<Rightarrow> bool" where
  "kw_prefix s [] = True"
| "kw_prefix [] (k # ks) = False"
| "kw_prefix (c # s) (k # ks) = (up c = k \<and> kw_prefix s ks)"

definition kw_at :: "cursor \<Rightarrow> string \<Rightarrow> bool" where
  "kw_at cur kw = (case cur of (prev, s) \<Rightarrow>
     kw_prefix s kw \<and>
     \<not> (case prev of Some c \<Rightarrow> is_ident_char c | None \<Rightarrow> False) \<and>
     \<not> (case drop (length kw) s of c # _ \<Rightarrow> is_ident_char c | [] \<Rightarrow> False))"

text \<open>\<open>i += n\<close>.\<close>

fun advance :: "nat \<Rightarrow> cursor \<Rightarrow> cursor" where
  "advance (Suc n) (prev, c # s) = advance n (Some c, s)"
| "advance _ cur = cur"

text \<open>The scan of a quoted body: up to the first quote that no backslash escapes.\<close>

fun skip_body :: "char \<Rightarrow> cursor \<Rightarrow> cursor" where
  "skip_body quote (prev, []) = (prev, [])"
| "skip_body quote (prev, [c]) = (if c = quote then (prev, [c]) else (Some c, []))"
| "skip_body quote (prev, c # d # s) =
     (if c = CHR 0x5C then skip_body quote (Some d, s)
      else if c = quote then (prev, c # d # s)
      else skip_body quote (Some c, d # s))"

definition is_sep :: "char \<Rightarrow> bool" where
  "is_sep c \<longleftrightarrow> c = CHR '' '' \<or> c = CHR 0x09 \<or> c = CHR 0x0A \<or> c = CHR 0x0D \<or> c = CHR ''('' \<or> c = CHR ''=''"

definition is_hex :: "char \<Rightarrow> bool" where
  "is_hex c \<longleftrightarrow> CHR ''0'' \<le> c \<and> c \<le> CHR ''9'' \<or> CHR ''a'' \<le> c \<and> c \<le> CHR ''f'' \<or>
     CHR ''A'' \<le> c \<and> c \<le> CHR ''F''"

definition is_blank :: "char \<Rightarrow> bool" where
  "is_blank c \<longleftrightarrow> c = CHR '' '' \<or> c = CHR 0x09 \<or> c = CHR 0x0A \<or> c = CHR 0x0D"

text \<open>The loops \<open>while (p(q[i])) i++\<close>: the bytes passed and the cursor behind them.\<close>

fun span_while :: "(char \<Rightarrow> bool) \<Rightarrow> cursor \<Rightarrow> string \<times> cursor" where
  "span_while p (prev, []) = ([], (prev, []))"
| "span_while p (prev, c # s) =
     (if p c then (let (w, cur) = span_while p (Some c, s) in (c # w, cur)) else ([], (prev, c # s)))"

definition mask_following_quote :: "cursor \<Rightarrow> string \<times> bool \<times> cursor" where
  "mask_following_quote cur =
     (let (seps, cur1) = span_while is_sep cur in
      case snd cur1 of
        [] \<Rightarrow> (seps, False, cur1)
      | c # s \<Rightarrow>
          if c = CHR 0x27 \<or> c = CHR 0x22 then
            let cur2 = skip_body c (Some c, s) in
            (case snd cur2 of
               [] \<Rightarrow> (seps @ c # ''***'', True, cur2)
             | _ # _ \<Rightarrow> (seps @ c # ''***'' @ [c], True, advance 1 cur2))
          else if s \<noteq> [] \<and> c = CHR ''0'' \<and> (hd s = CHR ''x'' \<or> hd s = CHR ''X'') then
            (seps @ ''0x***'', True, snd (span_while is_hex (advance 2 cur1)))
          else (seps, False, cur1))"

text \<open>The loop from \<open>IDENTIFIED\<close> to the connector keyword or a literal.\<close>

function scan_connector :: "cursor \<Rightarrow> string \<times> cursor" where
  "scan_connector (prev, []) = ([], (prev, []))"
| "scan_connector (prev, c # s) =
     (if kw_at (prev, c # s) ''BY'' then (take 2 (c # s), advance 2 (prev, c # s))
      else if kw_at (prev, c # s) ''AS'' then (take 2 (c # s), advance 2 (prev, c # s))
      else if kw_at (prev, c # s) ''USING'' then (take 5 (c # s), advance 5 (prev, c # s))
      else if c = CHR 0x27 \<or> c = CHR 0x22 then ([], (prev, c # s))
      else if c = CHR ''0'' \<and> s \<noteq> [] \<and> (hd s = CHR ''x'' \<or> hd s = CHR ''X'') then ([], (prev, c # s))
      else (let (w, cur) = scan_connector (Some c, s) in (c # w, cur)))"
  by pat_completeness auto
termination by (relation "measure (length \<circ> snd)") auto

text \<open>The branch of \<open>mask_secrets\<close> at \<open>IDENTIFIED\<close>.\<close>

definition mask_identified :: "cursor \<Rightarrow> string \<times> bool \<times> cursor" where
  "mask_identified cur =
     (let (conn, cur1) = scan_connector (advance 10 cur);
          (blanks, cur2) = span_while is_blank cur1;
          (pw, cur3) = (if kw_at cur2 ''PASSWORD'' then (blanks @ take 8 (snd cur2), advance 8 cur2)
                        else ([], cur1));
          (tail, masked, cur4) = mask_following_quote cur3
      in (take 10 (snd cur) @ conn @ pw @ tail, masked, cur4))"

text \<open>The branches at \<open>OLD_PASSWORD\<close> and \<open>PASSWORD\<close>: copy the keyword, mask what follows.\<close>

definition mask_after :: "nat \<Rightarrow> cursor \<Rightarrow> string \<times> bool \<times> cursor" where
  "mask_after n cur =
     (let (tail, masked, cur1) = mask_following_quote (advance n cur)
      in (take n (snd cur) @ tail, masked, cur1))"

definition trigger :: "cursor \<Rightarrow> (string \<times> bool \<times> cursor) option" where
  "trigger cur =
     (if kw_at cur ''IDENTIFIED'' then Some (mask_identified cur)
      else if kw_at cur ''OLD_PASSWORD'' then Some (mask_after 12 cur)
      else if kw_at cur ''PASSWORD'' then Some (mask_after 8 cur)
      else None)"

section \<open>The scanners only move forward\<close>

lemma length_advance: "length (snd (advance n cur)) = length (snd cur) - n"
  by (induction n cur rule: advance.induct) auto

lemma length_skip_body: "length (snd (skip_body quote cur)) \<le> length (snd cur)"
  by (induction quote cur rule: skip_body.induct) auto

lemma length_span_while: "length (snd (snd (span_while p cur))) \<le> length (snd cur)"
  by (induction p cur rule: span_while.induct) (auto split: prod.splits)

lemma length_scan_connector: "length (snd (snd (scan_connector cur))) \<le> length (snd cur)"
  by (induction cur rule: scan_connector.induct) (auto simp: length_advance split: prod.splits)

lemma length_mask_following_quote:
  "length (snd (snd (snd (mask_following_quote cur)))) \<le> length (snd cur)"
proof -
  obtain seps cur1 where sp: "span_while is_sep cur = (seps, cur1)" by (rule prod.exhaust)
  have l1: "length (snd cur1) \<le> length (snd cur)" using length_span_while [of is_sep cur] sp by simp
  show ?thesis
  proof (cases "snd cur1")
    case (Cons c s)
    have "length (snd (skip_body c (Some c, s))) \<le> length (snd cur1)"
      using length_skip_body [of c "(Some c, s)"] Cons by simp
    moreover have "length (snd (snd (span_while is_hex (advance 2 cur1)))) \<le> length (snd cur1)"
      using length_span_while [of is_hex "advance 2 cur1"] by (simp add: length_advance)
    ultimately show ?thesis
      using l1 Cons by (auto simp: mask_following_quote_def sp length_advance Let_def split: list.splits)
  next
    case Nil
    then show ?thesis using l1 by (simp add: mask_following_quote_def sp)
  qed
qed

lemma kw_prefix_length: "kw_prefix s kw \<Longrightarrow> length kw \<le> length s"
  by (induction s kw rule: kw_prefix.induct) auto

lemma kw_at_length: "kw_at cur kw \<Longrightarrow> length kw \<le> length (snd cur)"
  by (auto simp: kw_at_def kw_prefix_length split: prod.splits)

lemma length_mask_after: "length (snd (snd (snd (mask_after n cur)))) \<le> length (snd cur) - n"
  using length_mask_following_quote [of "advance n cur"]
  by (simp add: mask_after_def length_advance split_beta)

lemma length_mask_identified: "length (snd (snd (snd (mask_identified cur)))) \<le> length (snd cur) - 10"
proof -
  obtain conn cur1 where c1: "scan_connector (advance 10 cur) = (conn, cur1)" by (rule prod.exhaust)
  obtain blanks cur2 where c2: "span_while is_blank cur1 = (blanks, cur2)" by (rule prod.exhaust)
  have "length (snd cur1) \<le> length (snd cur) - 10"
    using length_scan_connector [of "advance 10 cur"] c1 by (simp add: length_advance)
  moreover have "length (snd cur2) \<le> length (snd cur1)"
    using length_span_while [of is_blank cur1] c2 by simp
  ultimately show ?thesis
    using length_mask_following_quote [of "advance 8 cur2"] length_mask_following_quote [of cur1]
    by (auto simp: mask_identified_def c1 c2 length_advance split_beta)
qed

lemma trigger_shrinks:
  assumes "trigger cur = Some (txt, m, cur')"
  shows "length (snd cur') < length (snd cur)"
proof -
  have "length (snd cur') \<le> length (snd cur) - 8" "8 \<le> length (snd cur)"
    using assms length_mask_identified [of cur] length_mask_after [of 12 cur] length_mask_after [of 8 cur]
      kw_at_length [of cur "''IDENTIFIED''"] kw_at_length [of cur "''OLD_PASSWORD''"]
      kw_at_length [of cur "''PASSWORD''"]
    by (auto simp: trigger_def split: if_splits)
  then show ?thesis by linarith
qed

section \<open>The main loop\<close>

function mask_loop :: "cursor \<Rightarrow> string \<times> bool" where
  "mask_loop (prev, []) = ([], False)"
| "mask_loop (prev, c # s) =
     (case trigger (prev, c # s) of
        Some (txt, m, cur) \<Rightarrow> (let (rest, m') = mask_loop cur in (txt @ rest, m \<or> m'))
      | None \<Rightarrow> (let (rest, m') = mask_loop (Some c, s) in (c # rest, m')))"
  by pat_completeness auto
termination
  by (relation "measure (length \<circ> snd)") (auto dest: trigger_shrinks)

declare mask_loop.simps(2) [simp del]

definition mask_secrets :: "string \<Rightarrow> string \<times> bool" where
  "mask_secrets query = mask_loop (None, query)"

section \<open>Nothing is lost where nothing is masked\<close>

lemma advance_text: "take n (snd cur) @ snd (advance n cur) = snd cur"
  by (induction n cur rule: advance.induct) auto

lemma span_while_text: "span_while p cur = (w, cur') \<Longrightarrow> w @ snd cur' = snd cur"
  by (induction p cur arbitrary: w cur' rule: span_while.induct) (auto split: if_splits prod.splits)

lemma scan_connector_text: "scan_connector cur = (w, cur') \<Longrightarrow> w @ snd cur' = snd cur"
proof (induction cur arbitrary: w cur' rule: scan_connector.induct)
  case (2 prev c s)
  then show ?case
    using advance_text [of 2 "(prev, c # s)"] advance_text [of 5 "(prev, c # s)"]
    by (auto split: if_splits prod.splits)
qed simp

lemma mask_following_quote_text:
  assumes "mask_following_quote cur = (t, False, cur')"
  shows "t @ snd cur' = snd cur"
proof -
  obtain seps cur1 where sp: "span_while is_sep cur = (seps, cur1)" by (rule prod.exhaust)
  then have "t = seps \<and> cur' = cur1"
    using assms by (auto simp: mask_following_quote_def Let_def split: list.splits if_splits)
  then show ?thesis using span_while_text [OF sp] by simp
qed

lemma mask_after_text: "mask_after n cur = (t, False, cur') \<Longrightarrow> t @ snd cur' = snd cur"
  using advance_text [of n cur]
  by (auto simp: mask_after_def split: prod.splits dest: mask_following_quote_text)

lemma mask_identified_text:
  assumes "mask_identified cur = (t, False, cur')"
  shows "t @ snd cur' = snd cur"
proof -
  obtain conn cur1 where c1: "scan_connector (advance 10 cur) = (conn, cur1)" by (rule prod.exhaust)
  obtain blanks cur2 where c2: "span_while is_blank cur1 = (blanks, cur2)" by (rule prod.exhaust)
  have "take 10 (snd cur) @ conn @ snd cur1 = snd cur"
    using scan_connector_text [OF c1] advance_text [of 10 cur] by simp
  moreover have "blanks @ take 8 (snd cur2) @ snd (advance 8 cur2) = snd cur1"
    using span_while_text [OF c2] advance_text [of 8 cur2] by simp
  ultimately show ?thesis
    using assms
    by (auto simp: mask_identified_def c1 c2 split: if_splits prod.splits dest!: mask_following_quote_text)
qed

lemma trigger_text: "trigger cur = Some (t, False, cur') \<Longrightarrow> t @ snd cur' = snd cur"
  by (auto simp: trigger_def split: if_splits dest: mask_identified_text mask_after_text)

lemma mask_loop_text: "\<not> snd (mask_loop cur) \<Longrightarrow> fst (mask_loop cur) = snd cur"
proof (induction cur rule: mask_loop.induct)
  case (2 prev c s)
  show ?case
  proof (cases "trigger (prev, c # s)")
    case None
    then show ?thesis using 2 by (auto simp: mask_loop.simps(2) split_beta)
  next
    case (Some r)
    obtain t m cur' where r: "r = (t, m, cur')" by (cases r)
    then have "\<not> m" "\<not> snd (mask_loop cur')"
      using 2(3) Some by (auto simp: mask_loop.simps(2) split_beta)
    then show ?thesis
      using 2(2) [OF Some r [symmetric] refl] trigger_text [of "(prev, c # s)" t cur'] Some r
      by (simp add: mask_loop.simps(2) split_beta)
  qed
qed simp

section \<open>What a masked literal looks like\<close>

text \<open>The byte in front of the cursor after passing \<open>w\<close>.\<close>

definition behind :: "char option \<Rightarrow> string \<Rightarrow> char option" where
  "behind prev w = (if w = [] then prev else Some (last w))"

lemma behind_simps [simp]: "behind prev [] = prev" "behind prev (c # w) = behind (Some c) w"
  by (simp_all add: behind_def)

lemma behind_append [simp]: "behind prev (v @ w) = behind (behind prev v) w"
  by (simp add: behind_def)

lemma advance_append: "n = length w \<Longrightarrow> advance n (prev, w @ s) = (behind prev w, s)"
  by (induction w arbitrary: n prev) auto

lemma span_while_append:
  "list_all p w \<Longrightarrow> s = [] \<or> \<not> p (hd s) \<Longrightarrow> span_while p (prev, w @ s) = (w, (behind prev w, s))"
proof (induction w arbitrary: prev)
  case Nil
  then show ?case by (cases s) auto
qed auto

text \<open>A quoted body without an unescaped quote and without a dangling backslash.\<close>

fun closed_body :: "char \<Rightarrow> string \<Rightarrow> bool" where
  "closed_body quote [] = True"
| "closed_body quote [c] = (c \<noteq> quote \<and> c \<noteq> CHR 0x5C)"
| "closed_body quote (c # d # s) =
     (if c = CHR 0x5C then closed_body quote s else c \<noteq> quote \<and> closed_body quote (d # s))"

lemma skip_body_quote: "quote \<noteq> CHR 0x5C \<Longrightarrow> skip_body quote (prev, quote # s) = (prev, quote # s)"
  by (cases s) auto

lemma skip_body_closed:
  "closed_body quote body \<Longrightarrow> quote \<noteq> CHR 0x5C \<Longrightarrow>
   skip_body quote (prev, body @ quote # s) = (behind prev body, quote # s)"
  by (induction quote body arbitrary: prev rule: closed_body.induct) (auto simp: skip_body_quote)

text \<open>The two literal forms the code masks, what it shows instead, and what may follow.\<close>

inductive masked_as :: "string \<Rightarrow> string \<Rightarrow> string \<Rightarrow> bool" where
  quoted: "quote = CHR 0x27 \<or> quote = CHR 0x22 \<Longrightarrow> quote \<noteq> CHR 0x5C \<Longrightarrow> closed_body quote body \<Longrightarrow>
    masked_as (quote # body @ [quote]) (quote # ''***'' @ [quote]) post"
| hexlit: "x = CHR ''x'' \<or> x = CHR ''X'' \<Longrightarrow> list_all is_hex ds \<Longrightarrow> post = [] \<or> \<not> is_hex (hd post) \<Longrightarrow>
    masked_as (CHR ''0'' # x # ds) ''0x***'' post"

lemma not_sep_literal: "\<not> is_sep CHR 0x27" "\<not> is_sep CHR 0x22" "\<not> is_sep CHR ''0''"
  by (simp_all add: is_sep_def)

lemma mask_following_literal:
  assumes "masked_as lit shown post" and "list_all is_sep seps"
  shows "mask_following_quote (prev, seps @ lit @ post) = (seps @ shown, True, (behind None lit, post))"
  using assms(1)
proof cases
  case (quoted quote body)
  have "span_while is_sep (prev, seps @ lit @ post) = (seps, (behind prev seps, lit @ post))"
    using quoted assms(2) not_sep_literal by (intro span_while_append) auto
  then show ?thesis
    using quoted skip_body_closed [OF quoted(5,4), of "Some quote" post]
    by (auto simp: mask_following_quote_def Let_def)
next
  case (hexlit x ds)
  have "span_while is_sep (prev, seps @ lit @ post) = (seps, (behind prev seps, lit @ post))"
    using hexlit assms(2) not_sep_literal by (intro span_while_append) auto
  moreover have "span_while is_hex (Some x, ds @ post) = (ds, (behind (Some x) ds, post))"
    using hexlit by (intro span_while_append) auto
  ultimately show ?thesis
    using hexlit by (auto simp: mask_following_quote_def numeral_2_eq_2)
qed

text \<open>No position of \<open>w\<close>, read in front of \<open>s\<close>, satisfies \<open>f\<close>.\<close>

fun quiet :: "(cursor \<Rightarrow> bool) \<Rightarrow> char option \<Rightarrow> string \<Rightarrow> string \<Rightarrow> bool" where
  "quiet f prev [] s = True"
| "quiet f prev (c # w) s = (\<not> f (prev, c # w @ s) \<and> quiet f (Some c) w s)"

definition triggers :: "cursor \<Rightarrow> bool" where
  "triggers cur \<longleftrightarrow> kw_at cur ''IDENTIFIED'' \<or> kw_at cur ''OLD_PASSWORD'' \<or> kw_at cur ''PASSWORD''"

lemma trigger_None: "trigger cur = None \<longleftrightarrow> \<not> triggers cur"
  by (simp add: triggers_def trigger_def)

lemma not_triggers: "\<not> triggers cur \<Longrightarrow> trigger cur = None"
  by (simp add: trigger_None)

lemma mask_loop_quiet:
  "quiet triggers prev pre s \<Longrightarrow>
   mask_loop (prev, pre @ s) = (pre @ fst (mask_loop (behind prev pre, s)), snd (mask_loop (behind prev pre, s)))"
  by (induction pre arbitrary: prev) (auto simp: mask_loop.simps(2) not_triggers split_beta)

lemma mask_loop_trigger:
  "trigger (prev, s) = Some (t, m, cur) \<Longrightarrow> mask_loop (prev, s) = (t @ fst (mask_loop cur), m \<or> snd (mask_loop cur))"
  using trigger_shrinks [of "(prev, s)"] by (cases s) (auto simp: mask_loop.simps(2) split_beta)

text \<open>The three trigger keywords exclude one another.\<close>

lemma kw_prefix_head: "kw_prefix s (k # ks) \<Longrightarrow> s \<noteq> [] \<and> up (hd s) = k"
  by (cases s) auto

lemma kw_at_head: "kw_at (prev, s) (k # ks) \<Longrightarrow> s \<noteq> [] \<and> up (hd s) = k"
  by (auto simp: kw_at_def dest: kw_prefix_head)

lemma trigger_password: "kw_at (prev, s) ''PASSWORD'' \<Longrightarrow> trigger (prev, s) = Some (mask_after 8 (prev, s))"
  by (auto simp: trigger_def dest!: kw_at_head)

lemma trigger_old_password:
  "kw_at (prev, s) ''OLD_PASSWORD'' \<Longrightarrow> trigger (prev, s) = Some (mask_after 12 (prev, s))"
  by (auto simp: trigger_def dest!: kw_at_head)

text \<open>Where a connector keyword or a literal stops the scan after \<open>IDENTIFIED\<close>.\<close>

definition connector_stop :: "cursor \<Rightarrow> bool" where
  "connector_stop cur \<longleftrightarrow> kw_at cur ''BY'' \<or> kw_at cur ''AS'' \<or> kw_at cur ''USING'' \<or>
     (case snd cur of [] \<Rightarrow> False | c # s \<Rightarrow> c = CHR 0x27 \<or> c = CHR 0x22 \<or>
        c = CHR ''0'' \<and> s \<noteq> [] \<and> (hd s = CHR ''x'' \<or> hd s = CHR ''X''))"

lemma scan_connector_quiet:
  "quiet connector_stop prev w s \<Longrightarrow>
   scan_connector (prev, w @ s) = (w @ fst (scan_connector (behind prev w, s)), snd (scan_connector (behind prev w, s)))"
  by (induction w arbitrary: prev) (auto simp: connector_stop_def split_beta)

lemma kw_at_other: "kw_at (prev, s) (k # ks) \<Longrightarrow> k \<noteq> k' \<Longrightarrow> \<not> kw_at (prev, s) (k' # ks')"
  by (auto dest!: kw_at_head)

lemma scan_connector_at:
  assumes "kw_at (prev, con @ s) kw" and "length con = length kw"
    and "kw = ''BY'' \<or> kw = ''AS'' \<or> kw = ''USING''"
  shows "scan_connector (prev, con @ s) = (con, (behind prev con, s))"
proof -
  have adv: "advance (length kw) (prev, con @ s) = (behind prev con, s)"
    using assms(2) by (intro advance_append) simp
  have tk: "take (length kw) (con @ s) = con" using assms(2) by simp
  obtain c t where c: "con @ s = c # t" using kw_at_length [OF assms(1)] assms(3) by (cases "con @ s") auto
  show ?thesis
    using assms(3)
  proof (elim disjE)
    assume "kw = ''BY''"
    then show ?thesis using assms(1) adv tk unfolding c by (simp add: eval_nat_numeral del: advance.simps)
  next
    assume "kw = ''AS''"
    then show ?thesis
      using assms(1) adv tk kw_at_other [of prev "c # t" "CHR ''A''" "''S''" "CHR ''B''" "''Y''"]
      unfolding c by (simp add: eval_nat_numeral del: advance.simps)
  next
    assume "kw = ''USING''"
    then show ?thesis
      using assms(1) adv tk kw_at_other [of prev "c # t" "CHR ''U''" "''SING''" "CHR ''B''" "''Y''"]
        kw_at_other [of prev "c # t" "CHR ''U''" "''SING''" "CHR ''A''" "''S''"]
      unfolding c by (simp add: eval_nat_numeral del: advance.simps)
  qed
qed

lemma trigger_identified:
  "kw_at (prev, s) ''IDENTIFIED'' \<Longrightarrow> trigger (prev, s) = Some (mask_identified (prev, s))"
  by (simp add: trigger_def)

text \<open>The optional \<open>PASSWORD\<close> between the connector and the literal.\<close>

inductive opt_password :: "char option \<Rightarrow> string \<Rightarrow> string \<Rightarrow> bool" where
  absent: "opt_password prev [] s"
| present: "list_all is_blank blanks \<Longrightarrow> length pw = 8 \<Longrightarrow> kw_at (behind prev blanks, pw @ s) ''PASSWORD'' \<Longrightarrow>
    opt_password prev (blanks @ pw) s"

lemma masked_as_head:
  "masked_as lit shown post \<Longrightarrow> lit \<noteq> [] \<and> (hd lit = CHR 0x27 \<or> hd lit = CHR 0x22 \<or> hd lit = CHR ''0'')"
  by (induction rule: masked_as.induct) auto

lemma hd_literal: "masked_as lit shown post \<Longrightarrow> hd (lit @ post) \<noteq> CHR ''P'' \<and> up (hd (lit @ post)) \<noteq> CHR ''P''"
  by (auto dest!: masked_as_head simp: up_def)

lemma no_password_before_literal:
  assumes lit: "masked_as lit shown post" and seps: "list_all is_sep seps"
  shows "\<not> kw_at (snd (span_while is_blank (prev, seps @ lit @ post))) ''PASSWORD''"
  using seps
proof (induction seps arbitrary: prev)
  case Nil
  obtain c s where "lit @ post = c # s" "c = CHR 0x27 \<or> c = CHR 0x22 \<or> c = CHR ''0''"
    using masked_as_head [OF lit] by (cases lit) auto
  then show ?case by (auto simp: is_blank_def up_def dest!: kw_at_head)
next
  case (Cons c seps)
  then show ?case by (auto simp: split_beta is_sep_def up_def dest!: kw_at_head)
qed

lemma password_not_blank: "kw_at (prev, s) ''PASSWORD'' \<Longrightarrow> s \<noteq> [] \<and> \<not> is_blank (hd s)"
  by (auto simp: is_blank_def up_def dest!: kw_at_head)

lemma mask_identified_literal:
  assumes "length idn = 10"
    and "quiet connector_stop (behind prev idn) mid (con @ pwd @ seps @ lit @ post)"
    and "kw_at (behind prev (idn @ mid), con @ pwd @ seps @ lit @ post) kw" "length con = length kw"
    and "kw = ''BY'' \<or> kw = ''AS'' \<or> kw = ''USING''"
    and pwd: "opt_password (behind prev (idn @ mid @ con)) pwd (seps @ lit @ post)"
    and lit: "masked_as lit shown post" and seps: "list_all is_sep seps"
  shows "mask_identified (prev, idn @ mid @ con @ pwd @ seps @ lit @ post) =
    (idn @ mid @ con @ pwd @ seps @ shown, True, (behind None lit, post))"
proof -
  have adv: "advance 10 (prev, idn @ mid @ con @ pwd @ seps @ lit @ post) =
      (behind prev idn, mid @ con @ pwd @ seps @ lit @ post)"
    by (rule advance_append) (simp add: assms(1))
  have conn: "scan_connector (behind prev idn, mid @ con @ pwd @ seps @ lit @ post) =
      (mid @ con, (behind prev (idn @ mid @ con), pwd @ seps @ lit @ post))"
    using scan_connector_quiet [OF assms(2)] scan_connector_at [OF assms(3,4,5)] by simp
  have quote: "mask_following_quote (p, seps @ lit @ post) = (seps @ shown, True, (behind None lit, post))" for p
    by (rule mask_following_literal [OF lit seps])
  show ?thesis
    using pwd
  proof cases
    case absent
    then show ?thesis
      using no_password_before_literal [OF lit seps] conn adv assms(1)
      by (simp add: mask_identified_def quote split_beta)
  next
    case (present blanks pw)
    have "span_while is_blank (behind prev (idn @ mid @ con), blanks @ pw @ seps @ lit @ post) =
        (blanks, (behind prev (idn @ mid @ con @ blanks), pw @ seps @ lit @ post))"
      using present password_not_blank [OF present(4)] by (subst span_while_append) auto
    moreover have "advance 8 (behind prev (idn @ mid @ con @ blanks), pw @ seps @ lit @ post) =
        (behind prev (idn @ mid @ con @ blanks @ pw), seps @ lit @ post)"
      using present by (subst advance_append) auto
    ultimately show ?thesis
      using conn adv assms(1) present by (simp add: mask_identified_def quote)
  qed
qed

lemma mask_after_literal:
  assumes "masked_as lit shown post" and "list_all is_sep seps"
  shows "mask_after (length kwd) (prev, kwd @ seps @ lit @ post) =
    (kwd @ seps @ shown, True, (behind None lit, post))"
  by (simp add: mask_after_def advance_append mask_following_literal [OF assms])

text \<open>The literal behind the first \<open>PASSWORD\<close> of a query.\<close>

lemma mask_password_literal:
  assumes "kw = ''PASSWORD'' \<or> kw = ''OLD_PASSWORD''" and "length kwd = length kw"
    and "quiet triggers None pre (kwd @ seps @ lit @ post)"
    and "kw_at (behind None pre, kwd @ seps @ lit @ post) kw"
    and "list_all is_sep seps" and "masked_as lit shown post"
  shows "mask_secrets (pre @ kwd @ seps @ lit @ post) =
    (pre @ kwd @ seps @ shown @ fst (mask_loop (behind None lit, post)), True)"
proof -
  have "trigger (behind None pre, kwd @ seps @ lit @ post) =
      Some (mask_after (length kwd) (behind None pre, kwd @ seps @ lit @ post))"
    using assms(1,2,4) trigger_password trigger_old_password by (auto simp: eval_nat_numeral)
  then have "mask_loop (behind None pre, kwd @ seps @ lit @ post) =
      (kwd @ seps @ shown @ fst (mask_loop (behind None lit, post)), True)"
    by (simp add: mask_after_literal [OF assms(6,5)] mask_loop_trigger)
  then show ?thesis by (simp add: mask_secrets_def mask_loop_quiet [OF assms(3)])
qed

section \<open>Properties\<close>

text \<open>
  When \<open>mask_secrets\<close> reports that it masked nothing, its output is the query, byte for byte.
\<close>

lemma mask_secrets_unmasked: "\<not> snd (mask_secrets query) \<Longrightarrow> fst (mask_secrets query) = query"
  using mask_loop_text [of "(None, query)"] by (simp add: mask_secrets_def)

lemma mask_secrets_unmasked_witness:
  "fst (mask_secrets ''SELECT password_hash FROM t'') = ''SELECT password_hash FROM t''"
  by (rule mask_secrets_unmasked) code_simp

text \<open>
  The clause \<open>IDENTIFIED ... BY | AS | USING [PASSWORD] literal\<close>, where nothing between
  \<open>IDENTIFIED\<close> and the connector is itself a connector or the start of a literal.
\<close>

lemma mask_identified_clause:
  assumes "length idn = 10"
    and "quiet triggers None pre (idn @ mid @ con @ pwd @ seps @ lit @ post)"
    and "kw_at (behind None pre, idn @ mid @ con @ pwd @ seps @ lit @ post) ''IDENTIFIED''"
    and "quiet connector_stop (behind (behind None pre) idn) mid (con @ pwd @ seps @ lit @ post)"
    and "kw_at (behind (behind None pre) (idn @ mid), con @ pwd @ seps @ lit @ post) kw"
    and "kw = ''BY'' \<or> kw = ''AS'' \<or> kw = ''USING''" and "length con = length kw"
    and "opt_password (behind (behind None pre) (idn @ mid @ con)) pwd (seps @ lit @ post)"
    and "list_all is_sep seps" and "masked_as lit shown post"
  shows "mask_secrets (pre @ idn @ mid @ con @ pwd @ seps @ lit @ post) =
    (pre @ idn @ mid @ con @ pwd @ seps @ shown @ fst (mask_loop (behind None lit, post)), True)"
proof -
  have "mask_loop (behind None pre, idn @ mid @ con @ pwd @ seps @ lit @ post) =
      (idn @ mid @ con @ pwd @ seps @ shown @ fst (mask_loop (behind None lit, post)), True)"
    using mask_identified_literal [OF assms(1,4,5,7,6,8,10,9)]
    by (simp add: trigger_identified [OF assms(3)] mask_loop_trigger)
  then show ?thesis by (simp add: mask_secrets_def mask_loop_quiet [OF assms(2)])
qed

text \<open>The first credential of a query: the text in front of the literal, the literal, what is shown instead, the text behind.\<close>

inductive credential :: "string \<Rightarrow> string \<Rightarrow> string \<Rightarrow> string \<Rightarrow> bool" where
  password: "kw = ''PASSWORD'' \<or> kw = ''OLD_PASSWORD'' \<Longrightarrow> length kwd = length kw \<Longrightarrow>
    quiet triggers None pre (kwd @ seps @ lit @ post) \<Longrightarrow> kw_at (behind None pre, kwd @ seps @ lit @ post) kw \<Longrightarrow>
    list_all is_sep seps \<Longrightarrow> masked_as lit shown post \<Longrightarrow> credential (pre @ kwd @ seps) lit shown post"
| identified: "length idn = 10 \<Longrightarrow> quiet triggers None pre (idn @ mid @ con @ pwd @ seps @ lit @ post) \<Longrightarrow>
    kw_at (behind None pre, idn @ mid @ con @ pwd @ seps @ lit @ post) ''IDENTIFIED'' \<Longrightarrow>
    quiet connector_stop (behind (behind None pre) idn) mid (con @ pwd @ seps @ lit @ post) \<Longrightarrow>
    kw_at (behind (behind None pre) (idn @ mid), con @ pwd @ seps @ lit @ post) kw \<Longrightarrow>
    kw = ''BY'' \<or> kw = ''AS'' \<or> kw = ''USING'' \<Longrightarrow> length con = length kw \<Longrightarrow>
    opt_password (behind (behind None pre) (idn @ mid @ con)) pwd (seps @ lit @ post) \<Longrightarrow>
    list_all is_sep seps \<Longrightarrow> masked_as lit shown post \<Longrightarrow>
    credential (pre @ idn @ mid @ con @ pwd @ seps) lit shown post"

lemma mask_credential:
  "credential before lit shown post \<Longrightarrow>
   mask_secrets (before @ lit @ post) = (before @ shown @ fst (mask_loop (behind None lit, post)), True)"
proof (induction rule: credential.induct)
  case (password kw kwd pre seps lit post shown)
  then show ?case using mask_password_literal [of kw kwd pre seps lit post shown] by simp
next
  case (identified idn pre mid con pwd seps lit post kw shown)
  then show ?case using mask_identified_clause [of idn pre mid con pwd seps lit post kw shown] by simp
qed

text \<open>Behind the literal only the class of its last byte matters.\<close>

lemma mask_loop_behind:
  assumes "is_ident_char a = is_ident_char b"
  shows "mask_loop (Some a, s) = mask_loop (Some b, s)"
proof (cases s)
  case (Cons c t)
  have kw: "kw_at (Some a, s) kw = kw_at (Some b, s) kw" for kw using assms by (simp add: kw_at_def)
  have "advance (Suc n) (Some a, s) = advance (Suc n) (Some b, s)" for n by (simp add: Cons)
  then have adv: "advance 10 (Some a, s) = advance 10 (Some b, s)" "advance 12 (Some a, s) = advance 12 (Some b, s)"
    "advance 8 (Some a, s) = advance 8 (Some b, s)"
    by (simp_all add: eval_nat_numeral del: advance.simps)
  have "trigger (Some a, s) = trigger (Some b, s)"
    by (simp add: trigger_def kw mask_identified_def mask_after_def adv)
  then show ?thesis unfolding Cons by (simp add: mask_loop.simps(2))
qed simp

text \<open>The last byte of a literal, as far as what is shown tells it.\<close>

lemma behind_literal:
  "masked_as lit shown post \<Longrightarrow> \<exists>c. behind None lit = Some c \<and> is_ident_char c = (hd shown = CHR ''0'')"
proof (induction rule: masked_as.induct)
  case (quoted quote body post)
  have "\<not> is_ident_char CHR 0x27 \<and> \<not> is_ident_char CHR 0x22" by code_simp
  then show ?case using quoted(1) by auto
next
  case (hexlit x ds post)
  have "\<forall>c. is_hex c \<or> c = CHR ''x'' \<or> c = CHR ''X'' \<longrightarrow> is_ident_char c" by code_simp
  then have "is_ident_char (last (x # ds))"
    using hexlit(1,2) last_in_set [of ds] by (auto simp: list_all_iff)
  then show ?case by (simp add: behind_def)
qed

lemma same_shown:
  assumes "masked_as lit shown post" and "masked_as lit' shown post"
  shows "mask_loop (behind None lit, s) = mask_loop (behind None lit', s)"
proof -
  obtain c where "behind None lit = Some c" "is_ident_char c = (hd shown = CHR ''0'')"
    using behind_literal [OF assms(1)] by blast
  moreover obtain d where "behind None lit' = Some d" "is_ident_char d = (hd shown = CHR ''0'')"
    using behind_literal [OF assms(2)] by blast
  ultimately show ?thesis using mask_loop_behind [of c d s] by (simp only:)
qed

lemma credential_literal: "credential before lit shown post \<Longrightarrow> masked_as lit shown post"
  by (erule credential.cases) blast+

lemma mask_credential_same:
  "credential before lit shown post \<Longrightarrow> credential before lit' shown post \<Longrightarrow>
   mask_secrets (before @ lit @ post) = mask_secrets (before @ lit' @ post)"
  using same_shown [of lit shown post lit'] credential_literal [of before lit shown post]
    credential_literal [of before lit' shown post] mask_credential [of before lit shown post]
    mask_credential [of before lit' shown post]
  by simp

text \<open>
  (C34) The first credential of a query is masked: behind \<open>PASSWORD\<close> or \<open>OLD_PASSWORD\<close>, or behind
  \<open>IDENTIFIED ... BY | AS | USING [PASSWORD]\<close>, a closed quoted literal or a hexadecimal one is replaced by
  \<open>'***'\<close> (or \<open>0x***\<close>), everything in front of it is copied and masking goes on behind it; the whole
  output is the same for every other literal of the same form in its place.
\<close>

theorem mask_secrets_credential:
  assumes "credential before lit shown post" and "credential before lit' shown post"
  shows "mask_secrets (before @ lit @ post) = (before @ shown @ fst (mask_loop (behind None lit, post)), True) \<and>
    mask_secrets (before @ lit' @ post) = mask_secrets (before @ lit @ post)"
  using mask_credential [OF assms(1)] mask_credential_same [OF assms(2,1)] by blast

lemma sample_credential:
  "credential (''ALTER USER u '' @ ''identified'' @ '' WITH p '' @ ''As'' @ '' PASSWORD'' @ '' '') ''0xAB12'' ''0x***'' '';''"
  "credential (''ALTER USER u '' @ ''identified'' @ '' WITH p '' @ ''As'' @ '' PASSWORD'' @ '' '') ''0xC'' ''0x***'' '';''"
proof -
  have lit: "masked_as ''0xAB12'' ''0x***'' '';''" "masked_as ''0xC'' ''0x***'' '';''"
    by (rule masked_as.hexlit; simp add: is_hex_def char_order)+
  have pw: "opt_password p '' PASSWORD'' ('' '' @ lit @ '';'')" for p lit
    using opt_password.present [of "'' ''" "''PASSWORD''" p "'' '' @ lit @ '';''"] by (simp add: is_blank_def kw_at_def up_def is_ident_char_def char_class char_order)
  have "''AS'' = ''BY'' \<or> ''AS'' = ''AS'' \<or> ''AS'' = ''USING''" by simp
  note rule = credential.identified [where kw = "''AS''", OF _ _ _ _ _ this]
  show "credential (''ALTER USER u '' @ ''identified'' @ '' WITH p '' @ ''As'' @ '' PASSWORD'' @ '' '') ''0xAB12'' ''0x***'' '';''"
    by (rule rule) (rule pw lit | code_simp)+
  show "credential (''ALTER USER u '' @ ''identified'' @ '' WITH p '' @ ''As'' @ '' PASSWORD'' @ '' '') ''0xC'' ''0x***'' '';''"
    by (rule rule) (rule pw lit | code_simp)+
qed

theorem mask_secrets_credential_witness:
  "mask_secrets (''ALTER USER u identified WITH p As PASSWORD '' @ ''0xC'' @ '';'') =
     mask_secrets (''ALTER USER u identified WITH p As PASSWORD '' @ ''0xAB12'' @ '';'')"
  using mask_secrets_credential [OF sample_credential] by simp


end
