(* ===== verification/Plugin_Events.thy ===== *)
theory Plugin_Events
  imports Plugin_Output Plugin_Config Mask_Secrets
begin

text \<open>
  The event handlers of \<open>src/selective_trace_mysql.cc\<close>: \<open>handle_table_access_event\<close>,
  \<open>handle_status_event\<close>, \<open>notify_impl\<close> and \<open>selective_trace_notify\<close>, over the whole state of the plugin.

  A handler returns \<open>None\<close> where the code would follow the \<open>NULL\<close> pointer \<open>state_map\<close>; that this never
  happens is part of the invariant.  What the operating system answers during one callback is the
  record \<open>callback\<close>; \<open>stdio\<close> is the parameter of the FILE writer.  Callbacks are atomic here: they are
  run one after the other, which \<open>handlers_atomic\<close> in \<open>Plugin_Locks\<close> justifies.
\<close>

record timespec =
  tv_sec :: int
  tv_nsec :: int

text \<open>One callback: the thread it runs on, the two clocks, and what \<open>pthread_create\<close> and the memory for
  a queue element would give.\<close>

record callback =
  self_tid :: thread_id
  monotonic :: timespec
  wall_tm :: tm
  wall_usec :: int
  new_thread :: "thread_id option"
  push_memory :: bool

definition now_ns :: "timespec \<Rightarrow> u64" where
  "now_ns ts = of_int (tv_sec ts) * 1000000000 + of_int (tv_nsec ts)"

section \<open>Table accesses\<close>

record mysql_event_table_access =
  table_database :: string
  table_name :: string

text \<open>What one table contributes to the mask; \<open>None\<close> where the handler returns early.\<close>

definition table_cmds :: "FilterRules option \<Rightarrow> string \<Rightarrow> string \<Rightarrow> u32 option" where
  "table_cmds rules db tbl =
     (let explicit_cmds = (case rules of None \<Rightarrow> 0 | Some r \<Rightarrow> match_table r (Some db) (Some tbl));
          schema_cmds = (case rules of None \<Rightarrow> 0 | Some r \<Rightarrow> match_schema r (Some db))
      in if explicit_cmds = 0 \<and> is_internal_stats_table db tbl then None
         else Some (explicit_cmds OR schema_cmds))"

definition access_table :: "FilterRules option \<Rightarrow> mysql_event_table_access \<Rightarrow> StatementState \<Rightarrow> StatementState" where
  "access_table rules event st =
     (let st0 = (if in_statement st then st else state_begin_statement st False 0);
          db = table_database event; tbl = table_name event
      in case table_cmds rules db tbl of
           None \<Rightarrow> st0
         | Some cmds \<Rightarrow> let st1 = state_add_table st0 db tbl in st1\<lparr>cmd_mask := cmd_mask st1 OR cmds\<rparr>)"

definition handle_table_access_event :: "thd \<Rightarrow> mysql_event_table_access \<Rightarrow> plugin \<Rightarrow> plugin option" where
  "handle_table_access_event thd event p =
     (case states p of
        None \<Rightarrow> None
      | Some m \<Rightarrow> let (st, m1) = get_state m thd
                  in Some (p\<lparr>states := Some (m1(thd \<mapsto> access_table (active_rules p) event st))\<rparr>))"

section \<open>The end of a statement\<close>

definition statement_command :: "string \<Rightarrow> string" where
  "statement_command qtext = (case extract_command qtext 24 of None \<Rightarrow> [] | Some cmdbuf \<Rightarrow> cmdbuf)"

definition allowed_commands :: "FilterRules option \<Rightarrow> u64 \<Rightarrow> u32 \<Rightarrow> StatementState \<Rightarrow> u32" where
  "allowed_commands rules thread_id cmd_bit st =
     (let allowed = (if in_statement st then cmd_mask st else 0) in
      if allowed AND cmd_bit \<noteq> 0 then allowed
      else (case rules of
              None \<Rightarrow> allowed
            | Some r \<Rightarrow>
                if match_connection r thread_id then CMD_ALL
                else if current_db_len st > 0 then allowed OR match_schema r (Some (db_text st))
                else allowed))"

definition duration_ms :: "u64 \<Rightarrow> StatementState \<Rightarrow> double option" where
  "duration_ms now st = (if in_statement st \<and> have_start st then Some (elapsed_ms now (start_ns st)) else None)"

definition too_fast :: "u32 \<Rightarrow> double option \<Rightarrow> bool" where
  "too_fast min_ms duration \<longleftrightarrow>
     min_ms > 0 \<and> (case duration of None \<Rightarrow> True | Some d \<Rightarrow> double_less d min_ms)"

definition logged_query :: "bool \<Rightarrow> string \<Rightarrow> string" where
  "logged_query masking qtext =
     (if masking then (let (masked, any) = mask_secrets qtext in if any then masked else qtext) else qtext)"

definition make_event :: "bool \<Rightarrow> callback \<Rightarrow> mysql_event_general \<Rightarrow> StatementState \<Rightarrow> log_event" where
  "make_event masking cb event st =
     \<lparr>le_ts = fmt_ts (wall_tm cb) (wall_usec cb), le_conn_id = general_thread_id event, le_seq = local_seq st,
      le_user_host = general_user event @ ''@'' @ general_host event,
      le_db = (if current_db_len st > 0 then db_text st else []),
      le_have_tables = (in_statement st \<and> tables_len st > 0), le_tables = tables_text st,
      le_truncated = tables_truncated st, le_command = statement_command (general_query event),
      le_duration = duration_ms (now_ns (monotonic cb)) st, le_error_code = sint (general_error_code event),
      le_query = logged_query masking (general_query event)\<rparr>"

definition emit :: "stdio \<Rightarrow> callback \<Rightarrow> log_event \<Rightarrow> plugin \<Rightarrow> plugin" where
  "emit io cb e p =
     (case opt_output p of
        OUTPUT_FILE \<Rightarrow>
          let (ok, w) = file_writer_write io (json_line e) (opt_file_path p) (files p);
              p1 = p\<lparr>files := w\<rparr>
          in if ok then p1\<lparr>status_events_logged := status_events_logged p1 + 1\<rparr> else p1
      | OUTPUT_TABLE \<Rightarrow>
          let (ok, q) = table_writer_enqueue (new_thread cb) (push_memory cb) (insert_sql e) (events p);
              p1 = p\<lparr>events := q\<rparr>
          in if ok then p1\<lparr>status_events_logged := status_events_logged p1 + 1\<rparr> else p1)"

text \<open>The two tests in front of the output.\<close>

definition wanted_statement :: "callback \<Rightarrow> mysql_event_general \<Rightarrow> StatementState \<Rightarrow> plugin \<Rightarrow> bool" where
  "wanted_statement cb event st p \<longleftrightarrow>
     (let cmd_bit = command_bit (statement_command (general_query event)) in
      allowed_commands (active_rules p) (general_thread_id event) cmd_bit st AND cmd_bit \<noteq> 0) \<and>
     \<not> too_fast (opt_min_duration_ms p) (duration_ms (now_ns (monotonic cb)) st)"

definition handle_status_event :: "stdio \<Rightarrow> callback \<Rightarrow> thd \<Rightarrow> mysql_event_general \<Rightarrow> plugin \<Rightarrow> plugin option" where
  "handle_status_event io cb thd event p =
     (case states p of
        None \<Rightarrow> None
      | Some m \<Rightarrow>
          let (st0, m1) = get_state m thd;
              st = track_current_db st0 event
          in if \<not> is_query_command event then Some (p\<lparr>states := Some (m1(thd \<mapsto> st))\<rparr>)
             else
               let p1 = (if wanted_statement cb event st p
                         then emit io cb (make_event (opt_mask_passwords p) cb event st) p else p)
               in Some (p1\<lparr>states := Some (m1(thd \<mapsto> state_reset st))\<rparr>))"

section \<open>Dispatch\<close>

datatype general_subclass = GENERAL_LOG | GENERAL_STATUS | GENERAL_ERROR | GENERAL_RESULT
datatype connection_subclass = CONNECTION_CONNECT | CONNECTION_DISCONNECT | CONNECTION_CHANGE_USER | CONNECTION_PRE_AUTHENTICATE

datatype audit_event =
    General_class general_subclass mysql_event_general
  | Table_access_class mysql_event_table_access
  | Connection_class connection_subclass
  | Other_class

definition notify_impl :: "stdio \<Rightarrow> callback \<Rightarrow> thd \<Rightarrow> audit_event \<Rightarrow> plugin \<Rightarrow> plugin option" where
  "notify_impl io cb thd event p =
     (case event of
        General_class sub ev \<Rightarrow>
          if sub = GENERAL_LOG then
            (case states p of
               None \<Rightarrow> None
             | Some m \<Rightarrow> let (st, m1) = get_state m thd
                         in Some (p\<lparr>states := Some (m1(thd \<mapsto> state_begin_statement st True (now_ns (monotonic cb))))\<rparr>))
          else if sub = GENERAL_STATUS then handle_status_event io cb thd ev p
          else Some p
      | Table_access_class ev \<Rightarrow> handle_table_access_event thd ev p
      | _ \<Rightarrow> Some p)"

definition selective_trace_notify :: "stdio \<Rightarrow> callback \<Rightarrow> thd \<Rightarrow> audit_event \<Rightarrow> plugin \<Rightarrow> plugin option" where
  "selective_trace_notify io cb thd event p =
     (if \<not> plugin_ready p \<or> thd = 0 then Some p
      else if table_writer_is_self (self_tid cb) (events p) then Some p
      else (case event of
              Connection_class sub \<Rightarrow>
                if sub = CONNECTION_DISCONNECT
                then (case states p of None \<Rightarrow> None | Some m \<Rightarrow> Some (p\<lparr>states := Some (forget_state m thd)\<rparr>))
                else Some p
            | _ \<Rightarrow> if \<not> opt_enabled p then Some p else notify_impl io cb thd event p))"


section \<open>The decision\<close>

text \<open>What the filters say of a statement: it runs on a listed connection, or the session schema is
  listed for its command, or one of its tables is.  Statistics tables count only where they are listed
  themselves.\<close>

definition table_selects :: "FilterRules \<Rightarrow> u32 \<Rightarrow> mysql_event_table_access \<Rightarrow> bool" where
  "table_selects r cmd_bit ev \<longleftrightarrow>
     (let db = table_database ev; tbl = table_name ev in
      match_table r (Some db) (Some tbl) AND cmd_bit \<noteq> 0 \<or>
      (match_table r (Some db) (Some tbl) \<noteq> 0 \<or> \<not> is_internal_stats_table db tbl) \<and> match_schema r (Some db) AND cmd_bit \<noteq> 0)"

definition statement_selected ::
    "FilterRules \<Rightarrow> u64 \<Rightarrow> string \<Rightarrow> mysql_event_table_access list \<Rightarrow> u32 \<Rightarrow> bool" where
  "statement_selected r conn_id db accesses cmd_bit \<longleftrightarrow>
     match_connection r conn_id \<or> match_schema r (Some db) AND cmd_bit \<noteq> 0 \<or> list_ex (table_selects r cmd_bit) accesses"

definition access_tables :: "FilterRules option \<Rightarrow> mysql_event_table_access list \<Rightarrow> StatementState \<Rightarrow> StatementState" where
  "access_tables rules evs st = fold (access_table rules) evs st"

lemma access_tables_simps [simp]:
  "access_tables rules [] st = st" "access_tables rules (e # es) st = access_tables rules es (access_table rules e st)"
  by (simp_all add: access_tables_def)

lemma and_or_zero: "(a OR b) AND (c :: u32) = 0 \<longleftrightarrow> a AND c = 0 \<and> b AND c = 0"
  by (simp add: bit.conj_disj_distrib2 or_eq_0_iff)

lemma add_table_fields [simp]:
  "cmd_mask (state_add_table st db tbl) = cmd_mask st" "in_statement (state_add_table st db tbl) = in_statement st"
  "have_start (state_add_table st db tbl) = have_start st" "start_ns (state_add_table st db tbl) = start_ns st"
  "local_seq (state_add_table st db tbl) = local_seq st" "current_db_len (state_add_table st db tbl) = current_db_len st"
  "current_db (state_add_table st db tbl) = current_db st"
  by (simp_all add: state_add_table_cases append_table_def append_text_def)

lemma begin_fields [simp]:
  "in_statement (state_begin_statement st b now)" "have_start (state_begin_statement st b now) = b"
  "start_ns (state_begin_statement st b now) = (if b then now else 0)" "cmd_mask (state_begin_statement st b now) = 0"
  "local_seq (state_begin_statement st b now) = local_seq st + 1"
  by (simp_all add: state_begin_statement_def)

lemma track_fields [simp]:
  "cmd_mask (track_current_db st ev) = cmd_mask st" "in_statement (track_current_db st ev) = in_statement st"
  "have_start (track_current_db st ev) = have_start st" "start_ns (track_current_db st ev) = start_ns st"
  "local_seq (track_current_db st ev) = local_seq st" "tables_len (track_current_db st ev) = tables_len st"
  "tables_buf (track_current_db st ev) = tables_buf st" "tables_truncated (track_current_db st ev) = tables_truncated st"
  by (simp_all add: track_current_db_def set_current_db_def Let_def split: option.split)

lemma access_table_fields:
  assumes "in_statement st"
  shows "in_statement (access_table rules ev st)" "have_start (access_table rules ev st) = have_start st"
    "start_ns (access_table rules ev st) = start_ns st" "local_seq (access_table rules ev st) = local_seq st"
    "current_db_len (access_table rules ev st) = current_db_len st" "current_db (access_table rules ev st) = current_db st"
  using assms by (simp_all add: access_table_def Let_def split: option.split)

lemma access_table_mask:
  assumes "in_statement st"
  shows "cmd_mask (access_table (Some r) ev st) AND cmd_bit = 0 \<longleftrightarrow> cmd_mask st AND cmd_bit = 0 \<and> \<not> table_selects r cmd_bit ev"
  using assms by (auto simp: access_table_def table_cmds_def table_selects_def and_or_zero Let_def)

lemma access_tables_fields:
  assumes "in_statement st"
  shows "in_statement (access_tables rules evs st)" "have_start (access_tables rules evs st) = have_start st"
    "start_ns (access_tables rules evs st) = start_ns st" "local_seq (access_tables rules evs st) = local_seq st"
    "current_db_len (access_tables rules evs st) = current_db_len st" "current_db (access_tables rules evs st) = current_db st"
  using assms by (induction evs arbitrary: st) (simp_all add: access_table_fields)

lemma access_tables_mask:
  "in_statement st \<Longrightarrow>
   cmd_mask (access_tables (Some r) evs st) AND cmd_bit = 0 \<longleftrightarrow>
     cmd_mask st AND cmd_bit = 0 \<and> \<not> list_ex (table_selects r cmd_bit) evs"
  by (induction evs arbitrary: st) (auto simp: access_table_fields access_table_mask)

lemma access_tables_None: "in_statement st \<Longrightarrow> cmd_mask (access_tables None evs st) = cmd_mask st"
proof (induction evs arbitrary: st)
  case (Cons e es)
  have "cmd_mask (access_table None e st) = cmd_mask st"
    using Cons.prems by (simp add: access_table_def table_cmds_def Let_def)
  then show ?case using Cons by (simp add: access_table_fields)
qed simp

lemma match_schema_Nil [simp]: "match_schema r (Some []) = 0"
  by (simp add: match_schema_def)

lemma db_text_zero: "current_db_len st = 0 \<Longrightarrow> db_text st = []"
  by (simp add: db_text_def)

text \<open>The fallback to connection and schema adds to the masks of the tables, it never hides them.\<close>

lemma allowed_commands_iff:
  assumes "cmd_bit \<noteq> 0"
  shows "allowed_commands (Some r) conn_id cmd_bit st AND cmd_bit \<noteq> 0 \<longleftrightarrow>
    in_statement st \<and> cmd_mask st AND cmd_bit \<noteq> 0 \<or> match_connection r conn_id \<or> match_schema r (Some (db_text st)) AND cmd_bit \<noteq> 0"
  using assms db_text_zero [of st] by (auto simp: allowed_commands_def and_or_zero Let_def)

lemma allowed_commands_None:
  "allowed_commands None conn_id cmd_bit st = (if in_statement st then cmd_mask st else 0)"
  by (simp add: allowed_commands_def Let_def)

section \<open>One connection's view of the callbacks\<close>

text \<open>The state a callback leaves for its connection depends on that connection's state, the rules and
  the switch \<open>selective_trace_enabled\<close> alone.  \<open>None\<close> is a connection without an entry.\<close>

definition entry_state :: "StatementState option \<Rightarrow> StatementState" where
  "entry_state s = (case s of None \<Rightarrow> zero_state | Some st \<Rightarrow> st)"

definition entry_step ::
    "bool \<Rightarrow> FilterRules option \<Rightarrow> callback \<Rightarrow> audit_event \<Rightarrow> StatementState option \<Rightarrow> StatementState option" where
  "entry_step enabled rules cb event s =
     (case event of
        Connection_class sub \<Rightarrow> if sub = CONNECTION_DISCONNECT then None else s
      | Other_class \<Rightarrow> s
      | Table_access_class ev \<Rightarrow> if enabled then Some (access_table rules ev (entry_state s)) else s
      | General_class sub ev \<Rightarrow>
          if \<not> enabled then s
          else if sub = GENERAL_LOG then Some (state_begin_statement (entry_state s) True (now_ns (monotonic cb)))
          else if sub = GENERAL_STATUS then
            (let st = track_current_db (entry_state s) ev in Some (if is_query_command ev then state_reset st else st))
          else s)"

text \<open>The statement a callback writes out, if it does.\<close>

definition output_of :: "callback \<Rightarrow> audit_event \<Rightarrow> StatementState option \<Rightarrow> plugin \<Rightarrow> log_event option" where
  "output_of cb event s p =
     (case event of
        General_class sub ev \<Rightarrow>
          let st = track_current_db (entry_state s) ev in
          if opt_enabled p \<and> sub = GENERAL_STATUS \<and> is_query_command ev \<and> wanted_statement cb ev st p
          then Some (make_event (opt_mask_passwords p) cb ev st) else None
      | _ \<Rightarrow> None)"

definition emit_opt :: "stdio \<Rightarrow> callback \<Rightarrow> log_event option \<Rightarrow> plugin \<Rightarrow> plugin" where
  "emit_opt io cb e p = (case e of None \<Rightarrow> p | Some e \<Rightarrow> emit io cb e p)"

definition listens :: "callback \<Rightarrow> thd \<Rightarrow> plugin \<Rightarrow> bool" where
  "listens cb thd p \<longleftrightarrow> plugin_ready p \<and> thd \<noteq> 0 \<and> \<not> table_writer_is_self (self_tid cb) (events p)"

lemma get_state_eq: "get_state m thd = (entry_state (m thd), if m thd = None then m(thd \<mapsto> zero_state) else m)"
  by (simp add: get_state_def entry_state_def split: option.split)

lemma map_upd_get: "(if m k = None then m(k \<mapsto> a) else m)(k := b) = m(k := b)"
  by auto

lemma emit_states [simp]: "(emit io cb e p)\<lparr>states := s\<rparr> = emit io cb e (p\<lparr>states := s\<rparr>)"
  by (simp add: emit_def split_beta Let_def split: output_mode.split)

lemma notify_deaf: "\<not> listens cb thd p \<Longrightarrow> selective_trace_notify io cb thd event p = Some p"
  by (auto simp: selective_trace_notify_def listens_def)

lemma notify_eq:
  assumes "listens cb thd p" and "states p = Some m"
  shows "selective_trace_notify io cb thd event p =
    Some (emit_opt io cb (output_of cb event (m thd) p)
      (p\<lparr>states := Some (m(thd := entry_step (opt_enabled p) (active_rules p) cb event (m thd)))\<rparr>))"
proof -
  have id: "p\<lparr>states := Some m\<rparr> = p" using assms(2) by simp
  show ?thesis
    using assms
    by (cases event)
      (auto simp: selective_trace_notify_def listens_def notify_impl_def handle_status_event_def handle_table_access_event_def
        get_state_eq map_upd_get emit_opt_def output_of_def entry_step_def Let_def forget_state_def id split: option.split)
qed

section \<open>What a statement records\<close>

lemma add_table_cmd_mask [simp]: "state_add_table (st\<lparr>cmd_mask := c\<rparr>) db tbl = (state_add_table st db tbl)\<lparr>cmd_mask := c\<rparr>"
  by (simp add: state_add_table_def Let_def)

text \<open>The accesses that are recorded, as pairs.\<close>

definition counted :: "FilterRules option \<Rightarrow> mysql_event_table_access list \<Rightarrow> (string \<times> string) list" where
  "counted rules evs =
     map (\<lambda>ev. (table_database ev, table_name ev))
       (filter (\<lambda>ev. table_cmds rules (table_database ev) (table_name ev) \<noteq> None) evs)"

lemma add_tables_cmd_mask: "add_tables ts (st\<lparr>cmd_mask := c\<rparr>) = (add_tables ts st)\<lparr>cmd_mask := c\<rparr>"
  by (induction ts arbitrary: st) (simp_all add: add_tables_def split_beta)

lemma access_tables_recorded:
  "in_statement st \<Longrightarrow> \<exists>c. access_tables rules evs st = (add_tables (counted rules evs) st)\<lparr>cmd_mask := c\<rparr>"
proof (induction evs arbitrary: st)
  case Nil
  show ?case by (rule exI [of _ "cmd_mask st"]) (simp add: counted_def add_tables_def)
next
  case (Cons e es)
  obtain c where c: "access_tables rules es (access_table rules e st) =
      (add_tables (counted rules es) (access_table rules e st))\<lparr>cmd_mask := c\<rparr>"
    using Cons.IH [OF access_table_fields(1) [OF Cons.prems]] by blast
  show ?case
  proof (cases "table_cmds rules (table_database e) (table_name e)")
    case None
    then show ?thesis using c Cons.prems by (simp add: counted_def access_table_def) blast
  next
    case (Some cmds)
    then have "access_table rules e st = (state_add_table st (table_database e) (table_name e))\<lparr>cmd_mask := cmd_mask st OR cmds\<rparr>"
      using Cons.prems by (simp add: access_table_def Let_def)
    then show ?thesis
      using c Some by (simp add: add_tables_cmd_mask) (simp add: counted_def add_tables_def, blast)
  qed
qed

lemma state_inv_access: "state_inv st \<Longrightarrow> state_inv (access_table rules ev st)"
  by (auto simp: access_table_def Let_def state_inv_cmd_mask intro!: state_inv_add_table state_inv_begin split: option.split)

lemma state_inv_entry_step:
  assumes "\<And>st. s = Some st \<Longrightarrow> state_inv st" and "entry_step enabled rules cb event s = Some st'"
  shows "state_inv st'"
proof -
  have "state_inv (entry_state s)" using assms(1) by (simp add: entry_state_def state_inv_zero split: option.split)
  then show ?thesis
    using assms
    by (auto simp: entry_step_def Let_def state_inv_access state_inv_begin state_inv_reset state_inv_track_current_db
        split: audit_event.splits if_splits)
qed

text \<open>Every event the handlers assemble meets the limits of the output buffers, as long as the
  connection id does.\<close>

lemma statement_command_text: "kw_text (statement_command qtext)"
proof -
  define w q where "w = fst (read_keyword 16 (skip_leading qtext))" and "q = snd (read_keyword 16 (skip_leading qtext))"
  have "extract_command qtext 24 = Some (if w = [] then take (min 5 23) ''OTHER''
      else if w = ''START'' \<and> second_word q = ''TRANSACTION'' then ''BEGIN'' else w)"
    by (simp add: extract_command_def w_def q_def split_beta)
  moreover have "kw_text w" using read_keyword_bounds [of 16 "skip_leading qtext" w q] by (simp add: w_def q_def)
  ultimately show ?thesis
    using kw_text_words(1) kw_text_words(2) [of "min 5 23"] by (auto simp: statement_command_def)
qed

lemma make_event_printable:
  assumes "unat (general_thread_id ev) < 10 ^ 18"
  shows "printable (make_event masking cb ev st)"
proof -
  have "\<bar>sint (general_error_code ev)\<bar> < 10 ^ 10"
    using sint_range_size [of "general_error_code ev"] by (simp add: word_size abs_less_iff)
  moreover have "duration_ok d" if "duration_ms (now_ns (monotonic cb)) st = Some d" for d
    using that elapsed_ms_ok by (metis duration_ms_def option.distinct(1) option.inject)
  ultimately show ?thesis
    using assms by (simp add: printable_def make_event_def fmt_ts_plain statement_command_text)
qed

text \<open>The decision to trace a statement, after \<open>GENERAL_LOG\<close> and any number of table accesses.\<close>

lemma statement_decision:
  fixes st0 :: StatementState and t0 :: u64 and evs :: "mysql_event_table_access list"
    and p :: plugin and event :: mysql_event_general
  defines "st \<equiv> track_current_db (access_tables (active_rules p) evs (state_begin_statement st0 True t0)) event"
  shows "wanted_statement cb event st p \<longleftrightarrow>
    (case active_rules p of None \<Rightarrow> False
     | Some r \<Rightarrow> statement_selected r (general_thread_id event) (db_text st) evs
                  (command_bit (statement_command (general_query event)))) \<and>
    \<not> (opt_min_duration_ms p > 0 \<and> double_less (elapsed_ms (now_ns (monotonic cb)) t0) (opt_min_duration_ms p))"
proof -
  let ?bit = "command_bit (statement_command (general_query event))"
  let ?st = "access_tables (active_rules p) evs (state_begin_statement st0 True t0)"
  have st: "in_statement st" "have_start st" "start_ns st = t0" "cmd_mask st = cmd_mask ?st"
    using access_tables_fields [of "state_begin_statement st0 True t0" "active_rules p" evs] by (simp_all add: st_def)
  have dur: "too_fast (opt_min_duration_ms p) (duration_ms (now_ns (monotonic cb)) st) \<longleftrightarrow>
      opt_min_duration_ms p > 0 \<and> double_less (elapsed_ms (now_ns (monotonic cb)) t0) (opt_min_duration_ms p)"
    using st(1-3) by (simp add: too_fast_def duration_ms_def)
  show ?thesis
  proof (cases "active_rules p")
    case None
    then have "cmd_mask st = 0" by (simp add: st(4) access_tables_None)
    then show ?thesis by (simp add: wanted_statement_def None allowed_commands_None)
  next
    case (Some r)
    have "cmd_mask st AND ?bit = 0 \<longleftrightarrow> \<not> list_ex (table_selects r ?bit) evs"
      using access_tables_mask [of "state_begin_statement st0 True t0" r evs ?bit] Some st(4) by simp
    then show ?thesis
      unfolding wanted_statement_def Let_def Some allowed_commands_iff [OF command_bit_nonzero] statement_selected_def dur
      using st(1) by auto
  qed
qed

end
