(* ===== verification/Plugin_Trace.thy ===== *)
theory Plugin_Trace
  imports Plugin_Events
begin

text \<open>
  Sequences of callbacks of all connections, and the life of the plugin: what a statement leaves in
  the log, that connections do not disturb one another, what the two outputs and the counter hold
  after any sequence, and the invariant of every reachable state.
\<close>

type_synonym notification = "callback \<times> thd \<times> audit_event"

fun trace_run :: "stdio \<Rightarrow> notification list \<Rightarrow> plugin \<Rightarrow> plugin option" where
  "trace_run io [] p = Some p"
| "trace_run io ((cb, thd, event) # ns) p =
     (case selective_trace_notify io cb thd event p of None \<Rightarrow> None | Some p1 \<Rightarrow> trace_run io ns p1)"

lemma trace_run_append:
  "trace_run io (ns @ ms) p = (case trace_run io ns p of None \<Rightarrow> None | Some p1 \<Rightarrow> trace_run io ms p1)"
  by (induction io ns p rule: trace_run.induct) (simp_all split: option.split)

section \<open>What a callback leaves alone\<close>

lemma emit_frame [simp]:
  "active_rules (emit io cb e p) = active_rules p" "plugin_ready (emit io cb e p) = plugin_ready p"
  "states (emit io cb e p) = states p" "opt_enabled (emit io cb e p) = opt_enabled p"
  "opt_output (emit io cb e p) = opt_output p" "opt_file_path (emit io cb e p) = opt_file_path p"
  "opt_min_duration_ms (emit io cb e p) = opt_min_duration_ms p" "opt_mask_passwords (emit io cb e p) = opt_mask_passwords p"
  "schemas_storage (emit io cb e p) = schemas_storage p" "tables_storage (emit io cb e p) = tables_storage p"
  "connections_storage (emit io cb e p) = connections_storage p" "opt_schemas (emit io cb e p) = opt_schemas p"
  "opt_tables (emit io cb e p) = opt_tables p" "opt_connections (emit io cb e p) = opt_connections p"
  "sql_conn (emit io cb e p) = sql_conn p"
  by (simp_all add: emit_def split_beta Let_def split: output_mode.split)

lemma emit_opt_frame [simp]:
  "active_rules (emit_opt io cb e p) = active_rules p" "plugin_ready (emit_opt io cb e p) = plugin_ready p"
  "states (emit_opt io cb e p) = states p" "opt_enabled (emit_opt io cb e p) = opt_enabled p"
  "opt_output (emit_opt io cb e p) = opt_output p" "opt_file_path (emit_opt io cb e p) = opt_file_path p"
  "opt_min_duration_ms (emit_opt io cb e p) = opt_min_duration_ms p"
  "opt_mask_passwords (emit_opt io cb e p) = opt_mask_passwords p"
  "schemas_storage (emit_opt io cb e p) = schemas_storage p" "tables_storage (emit_opt io cb e p) = tables_storage p"
  "connections_storage (emit_opt io cb e p) = connections_storage p" "opt_schemas (emit_opt io cb e p) = opt_schemas p"
  "opt_tables (emit_opt io cb e p) = opt_tables p" "opt_connections (emit_opt io cb e p) = opt_connections p"
  "sql_conn (emit_opt io cb e p) = sql_conn p"
  by (simp_all add: emit_opt_def split: option.split)

lemma config_inv_frame:
  "schemas_storage q = schemas_storage p \<Longrightarrow> tables_storage q = tables_storage p \<Longrightarrow>
   connections_storage q = connections_storage p \<Longrightarrow> active_rules q = active_rules p \<Longrightarrow>
   opt_schemas q = opt_schemas p \<Longrightarrow> opt_tables q = opt_tables p \<Longrightarrow> opt_connections q = opt_connections p \<Longrightarrow>
   config_inv q = config_inv p"
  by (simp add: config_inv_def)

text \<open>The thread that writes events is one \<open>pthread_create\<close> made, and stays so.\<close>

definition writer_in :: "thread_id set \<Rightarrow> table_queue \<Rightarrow> bool" where
  "writer_in W q \<longleftrightarrow> (thread_running q \<longrightarrow> writer_tid q \<in> W)"

lemma enqueue_writer_in:
  "writer_in W q \<Longrightarrow> set_option created \<subseteq> W \<Longrightarrow> writer_in W (snd (table_writer_enqueue created push_ok sql q))"
  by (auto simp: writer_in_def table_writer_enqueue_def start_thread_locked_def Let_def split: option.splits)

lemma emit_writer_in: "writer_in W (events p) \<Longrightarrow> set_option (new_thread cb) \<subseteq> W \<Longrightarrow> writer_in W (events (emit io cb e p))"
  using enqueue_writer_in [of W "events p" "new_thread cb"]
  by (auto simp: emit_def split_beta Let_def split: output_mode.split)

lemma emit_opt_writer_in:
  "writer_in W (events p) \<Longrightarrow> set_option (new_thread cb) \<subseteq> W \<Longrightarrow> writer_in W (events (emit_opt io cb e p))"
  by (simp add: emit_opt_def emit_writer_in split: option.split)

section \<open>Connections do not disturb one another\<close>

text \<open>
  A system of sessions under one roof: an action of a session answers, keeps the invariant, and updates
  the view of its own session as \<open>upd\<close> says and no other.
\<close>

locale keyed_sessions =
  fixes inv :: "'s \<Rightarrow> bool"
    and act :: "'e \<Rightarrow> 's \<Rightarrow> 's option"
    and ok :: "'e \<Rightarrow> bool"
    and key :: "'e \<Rightarrow> 'k"
    and view :: "'s \<Rightarrow> 'k \<Rightarrow> 'v"
    and upd :: "'e \<Rightarrow> 'v \<Rightarrow> 'v"
  assumes act_ok: "inv s \<Longrightarrow> ok e \<Longrightarrow>
    \<exists>s'. act e s = Some s' \<and> inv s' \<and> view s' = (view s)(key e := upd e (view s (key e)))"
begin

fun run :: "'e list \<Rightarrow> 's \<Rightarrow> 's option" where
  "run [] s = Some s"
| "run (e # es) s = (case act e s of None \<Rightarrow> None | Some s1 \<Rightarrow> run es s1)"

text \<open>After any interleaving every session is where its own actions alone bring it.\<close>

lemma run_projection:
  "inv s \<Longrightarrow> list_all ok es \<Longrightarrow>
   \<exists>s'. run es s = Some s' \<and> inv s' \<and> (\<forall>k. view s' k = fold upd (filter (\<lambda>e. key e = k) es) (view s k))"
proof (induction es arbitrary: s)
  case (Cons e es)
  then obtain s1 where s1: "act e s = Some s1" "inv s1" "view s1 = (view s)(key e := upd e (view s (key e)))"
    using act_ok [of s e] by auto
  with Cons.prems Cons.IH [OF s1(2)] show ?case by auto
qed simp

end

text \<open>While no variable is set: the switch, the rules and the set of threads that may be writers.\<close>

definition session_inv :: "bool \<Rightarrow> FilterRules option \<Rightarrow> thread_id set \<Rightarrow> plugin \<Rightarrow> bool" where
  "session_inv enabled rules W p \<longleftrightarrow>
     plugin_ready p \<and> states p \<noteq> None \<and> opt_enabled p = enabled \<and> active_rules p = rules \<and> writer_in W (events p)"

text \<open>A callback of a client: not on a writer's thread, and a thread it may start is a writer's.\<close>

definition client_call :: "thread_id set \<Rightarrow> notification \<Rightarrow> bool" where
  "client_call W n \<longleftrightarrow> (case n of (cb, thd, event) \<Rightarrow>
     thd \<noteq> 0 \<and> self_tid cb \<notin> W \<and> set_option (new_thread cb) \<subseteq> W)"

definition entry_of :: "plugin \<Rightarrow> state_map" where
  "entry_of p = (case states p of None \<Rightarrow> Map.empty | Some m \<Rightarrow> m)"

lemma client_listens: "session_inv enabled rules W p \<Longrightarrow> client_call W (cb, thd, event) \<Longrightarrow> listens cb thd p"
  by (auto simp: session_inv_def client_call_def listens_def writer_in_def table_writer_is_self_def)

interpretation sessions: keyed_sessions "session_inv enabled rules W" "\<lambda>(cb, thd, event). selective_trace_notify io cb thd event"
  "client_call W" "\<lambda>(cb, thd, event). thd" entry_of "\<lambda>(cb, thd, event). entry_step enabled rules cb event"
proof
  fix p :: plugin and n :: notification
  obtain cb thd event where n: "n = (cb, thd, event)" by (cases n)
  assume inv: "session_inv enabled rules W p" and client: "client_call W n"
  then obtain m where m: "states p = Some m" by (auto simp: session_inv_def)
  have "set_option (new_thread cb) \<subseteq> W" using client by (simp add: client_call_def n)
  then show "\<exists>p'. (case n of (cb, thd, event) \<Rightarrow> selective_trace_notify io cb thd event) p = Some p' \<and> session_inv enabled rules W p' \<and>
      entry_of p' = (entry_of p)((case n of (cb, thd, event) \<Rightarrow> thd) :=
        (case n of (cb, thd, event) \<Rightarrow> entry_step enabled rules cb event) (entry_of p (case n of (cb, thd, event) \<Rightarrow> thd)))"
    using inv client notify_eq [OF client_listens m, of enabled rules W cb thd event io]
    by (simp add: n session_inv_def entry_of_def m emit_opt_writer_in)
qed

lemma trace_run_sessions: "trace_run io ns p = sessions.run io ns p"
  by (induction io ns p rule: trace_run.induct) (simp_all split: option.split)

section \<open>What the outputs receive\<close>

definition queued :: "table_queue \<Rightarrow> string list" where
  "queued q = (case queue q of None \<Rightarrow> [] | Some evs \<Rightarrow> evs)"

lemma enqueue_queued:
  "queued (snd (table_writer_enqueue created push_ok sql q)) =
     queued q @ (if fst (table_writer_enqueue created push_ok sql q) then [sql] else [])"
  by (auto simp: queued_def table_writer_enqueue_def start_thread_locked_def Let_def split: option.splits)

text \<open>The lines and the statements that were accepted on the way from \<open>p\<close> to \<open>p'\<close>, one for each count
  of \<open>status_events_logged\<close>, and all of them texts of events \<open>E\<close> contains.\<close>

definition grows :: "stdio \<Rightarrow> (log_event \<Rightarrow> bool) \<Rightarrow> plugin \<Rightarrow> plugin \<Rightarrow> bool" where
  "grows io E p p' \<longleftrightarrow> (\<exists>ls qs. list_all E ls \<and> list_all E qs \<and>
     delivered io (io_calls (files p')) = delivered io (io_calls (files p)) @ map json_line ls \<and>
     queued (events p') = queued (events p) @ map insert_sql qs \<and>
     status_events_logged p' = status_events_logged p + of_nat (length ls + length qs))"

lemma grows_refl: "grows io E p p"
  unfolding grows_def by (intro exI [of _ "[]"]) simp

lemma grows_trans: "grows io E p q \<Longrightarrow> grows io E q r \<Longrightarrow> grows io E p r"
  unfolding grows_def
proof (elim exE conjE)
  fix ls qs ls' qs'
  assume "list_all E ls" "list_all E qs" "list_all E ls'" "list_all E qs'"
    "delivered io (io_calls (files q)) = delivered io (io_calls (files p)) @ map json_line ls"
    "queued (events q) = queued (events p) @ map insert_sql qs"
    "status_events_logged q = status_events_logged p + of_nat (length ls + length qs)"
    "delivered io (io_calls (files r)) = delivered io (io_calls (files q)) @ map json_line ls'"
    "queued (events r) = queued (events q) @ map insert_sql qs'"
    "status_events_logged r = status_events_logged q + of_nat (length ls' + length qs')"
  then show "\<exists>ls qs. list_all E ls \<and> list_all E qs \<and>
     delivered io (io_calls (files r)) = delivered io (io_calls (files p)) @ map json_line ls \<and>
     queued (events r) = queued (events p) @ map insert_sql qs \<and>
     status_events_logged r = status_events_logged p + of_nat (length ls + length qs)"
    by (intro exI [of _ "ls @ ls'"] exI [of _ "qs @ qs'"]) (simp add: algebra_simps)
qed

lemma grows_mono: "grows io E p q \<Longrightarrow> (\<And>e. E e \<Longrightarrow> F e) \<Longrightarrow> grows io F p q"
  unfolding grows_def using list.pred_mono_strong by (metis (mono_tags, lifting))

lemma grows_frame:
  "files q = files p \<Longrightarrow> events q = events p \<Longrightarrow> status_events_logged q = status_events_logged p \<Longrightarrow> grows io E p q"
  using grows_refl [of io E p] by (simp add: grows_def)

lemma grows_emit: "E e \<Longrightarrow> grows io E p (emit io cb e p)"
proof (cases "opt_output p")
  case OUTPUT_FILE
  let ?w = "file_writer_write io (json_line e) (opt_file_path p) (files p)"
  assume "E e"
  then show ?thesis
    unfolding grows_def
    by (intro exI [of _ "if fst ?w then [e] else []"] exI [of _ "[]"])
      (simp add: emit_def OUTPUT_FILE split_beta delivered_write)
next
  case OUTPUT_TABLE
  let ?w = "table_writer_enqueue (new_thread cb) (push_memory cb) (insert_sql e) (events p)"
  assume "E e"
  then show ?thesis
    unfolding grows_def
    by (intro exI [of _ "[]"] exI [of _ "if fst ?w then [e] else []"])
      (simp add: emit_def OUTPUT_TABLE split_beta enqueue_queued)
qed

text \<open>The events a callback may write: those of its own statement.\<close>

definition from_call :: "notification list \<Rightarrow> bool \<Rightarrow> log_event \<Rightarrow> bool" where
  "from_call ns masking e \<longleftrightarrow> (\<exists>cb thd ev st. (cb, thd, General_class GENERAL_STATUS ev) \<in> set ns \<and>
     is_query_command ev \<and> state_inv st \<and> e = make_event masking cb ev st)"

definition states_inv :: "plugin \<Rightarrow> bool" where
  "states_inv p \<longleftrightarrow> (\<forall>thd st. entry_of p thd = Some st \<longrightarrow> state_inv st)"

lemma entry_state_inv: "states_inv p \<Longrightarrow> states p = Some m \<Longrightarrow> state_inv (entry_state (m thd))"
  by (auto simp: states_inv_def entry_of_def entry_state_def state_inv_zero split: option.split)

text \<open>One callback, whoever calls: it answers whenever the state map exists.\<close>

lemma notify_step:
  assumes "states p = Some m" and "states_inv p"
  shows "\<exists>p'. selective_trace_notify io cb thd event p = Some p' \<and> states p' \<noteq> None \<and> states_inv p' \<and>
    opt_mask_passwords p' = opt_mask_passwords p \<and> grows io (from_call [(cb, thd, event)] (opt_mask_passwords p)) p p'"
proof (cases "listens cb thd p")
  case False
  then show ?thesis using assms by (simp add: notify_deaf grows_refl)
next
  case True
  let ?s = "entry_step (opt_enabled p) (active_rules p) cb event (m thd)"
  let ?p = "p\<lparr>states := Some (m(thd := ?s))\<rparr>"
  have inv: "states_inv (emit_opt io cb e ?p)" for e
    using assms state_inv_entry_step [of "m thd" "opt_enabled p" "active_rules p" cb event]
    by (auto simp: states_inv_def entry_of_def)
  have frame: "grows io E p ?p" for E by (rule grows_frame) simp_all
  have "grows io (from_call [(cb, thd, event)] (opt_mask_passwords p)) p (emit_opt io cb (output_of cb event (m thd) p) ?p)"
  proof (cases "output_of cb event (m thd) p")
    case None
    then show ?thesis by (simp add: emit_opt_def frame)
  next
    case (Some e)
    then have "from_call [(cb, thd, event)] (opt_mask_passwords p) e"
      using state_inv_track_current_db [OF entry_state_inv [OF assms(2,1), of thd]]
      by (auto simp: output_of_def from_call_def Let_def split: audit_event.splits if_splits)
    then show ?thesis by (simp add: emit_opt_def Some) (rule grows_trans [OF frame grows_emit])
  qed
  then show ?thesis using inv by (simp add: notify_eq [OF True assms(1)])
qed

lemma from_call_mono: "from_call ns masking e \<Longrightarrow> set ns \<subseteq> set ms \<Longrightarrow> from_call ms masking e"
  by (auto simp: from_call_def)

lemma trace_run_grows:
  "states p \<noteq> None \<Longrightarrow> states_inv p \<Longrightarrow>
   \<exists>p'. trace_run io ns p = Some p' \<and> states p' \<noteq> None \<and> states_inv p' \<and>
     grows io (from_call ns (opt_mask_passwords p)) p p'"
proof (induction io ns p rule: trace_run.induct)
  case (1 io p)
  then show ?case by (simp add: grows_refl)
next
  case (2 io cb thd event ns p)
  let ?E = "from_call ((cb, thd, event) # ns) (opt_mask_passwords p)"
  obtain p1 where p1: "selective_trace_notify io cb thd event p = Some p1" "states p1 \<noteq> None" "states_inv p1"
    "opt_mask_passwords p1 = opt_mask_passwords p" "grows io (from_call [(cb, thd, event)] (opt_mask_passwords p)) p p1"
    using notify_step "2.prems" by blast
  obtain p' where p': "trace_run io ns p1 = Some p'" "states p' \<noteq> None" "states_inv p'"
    "grows io (from_call ns (opt_mask_passwords p1)) p1 p'"
    using "2.IH" [OF p1(1-3)] by blast
  have "grows io ?E p p1" by (rule grows_mono [OF p1(5)]) (erule from_call_mono, simp)
  moreover have "grows io ?E p1 p'" using p'(4) unfolding p1(4) by (rule grows_mono) (erule from_call_mono, auto)
  ultimately show ?case using p1(1) p' by (auto intro: grows_trans)
qed

section \<open>The life of the plugin\<close>

text \<open>The server loads the library with the variables of its configuration, initialises the plugin, sets
  variables, sends callbacks and unloads the plugin; the writer thread takes and runs its batches.
  \<open>sql_conn\<close> belongs to that thread alone, so its work on the connection is put where it starts, where it
  takes a batch and, on unloading, where it is joined: \<open>table_writer_shutdown\<close> waits for the thread to
  run what is queued and to end.\<close>

definition configured :: "plugin \<Rightarrow> bool" where
  "configured p \<longleftrightarrow> active_rules p = None \<and> \<not> plugin_ready p \<and> states p = None \<and> status_events_logged p = 0 \<and>
     files p = file_writer_init \<and> events p = load_queue \<and> sql_conn p = new_writer (threshold (recycle_policy (sql_conn p)))"

definition start_writer :: "plugin \<Rightarrow> plugin \<Rightarrow> plugin" where
  "start_writer p p' =
     (if \<not> thread_running (events p) \<and> thread_running (events p') then p'\<lparr>sql_conn := thread_start (sql_conn p')\<rparr> else p')"

definition join_writer :: "services \<Rightarrow> plugin \<Rightarrow> plugin" where
  "join_writer srv p =
     (if plugin_ready p \<and> thread_running (events p)
      then p\<lparr>events := (events p)\<lparr>queue := Some [], stop_requested := True\<rparr>,
             sql_conn := thread_finish (run_batch srv (queued (events p)) (sql_conn p))\<rparr>
      else p)"

inductive plugin_step :: "stdio \<Rightarrow> services \<Rightarrow> plugin \<Rightarrow> plugin \<Rightarrow> bool" for io srv where
  init: "\<not> plugin_ready p \<Longrightarrow> plugin_step io srv p (snd (selective_trace_init p))"
| set_list: "plugin_ready p \<Longrightarrow> plugin_step io srv p (snd (set_filter kind str p))"
| set_path: "plugin_ready p \<Longrightarrow> plugin_step io srv p (update_file_path io save p)"
| set_scalars: "plugin_ready p \<Longrightarrow>
    plugin_step io srv p (p\<lparr>opt_enabled := en, opt_output := out, opt_min_duration_ms := ms, opt_mask_passwords := mp\<rparr>)"
| notify: "selective_trace_notify io cb thd event p = Some p' \<Longrightarrow> plugin_step io srv p (start_writer p p')"
| writer: "thread_running (events p) \<Longrightarrow> writer_take (events p) = Some (evs, stop, q) \<Longrightarrow>
    plugin_step io srv p (p\<lparr>events := q, sql_conn := run_batch srv evs (sql_conn p)\<rparr>)"
| deinit: "plugin_step io srv p (selective_trace_deinit (join_writer srv p))"

inductive plugin_reach :: "stdio \<Rightarrow> services \<Rightarrow> plugin \<Rightarrow> bool" for io srv where
  start: "configured p \<Longrightarrow> plugin_reach io srv p"
| step: "plugin_reach io srv p \<Longrightarrow> plugin_step io srv p p' \<Longrightarrow> plugin_reach io srv p'"

definition plugin_inv :: "stdio \<Rightarrow> plugin \<Rightarrow> bool" where
  "plugin_inv io p \<longleftrightarrow> (plugin_ready p \<longrightarrow> config_inv p \<and> opt_file_path p = file_path_storage p) \<and>
     plugin_ready p = (states p \<noteq> None) \<and> states_inv p \<and> (plugin_ready p \<longrightarrow> path_inv p) \<and>
     (\<not> plugin_ready p \<longrightarrow> log_fp (files p) = None) \<and> file_inv io (files p)"

lemma rebuild_frame [simp]:
  "states (snd (rebuild_rules_locked a b c p)) = states p" "files (snd (rebuild_rules_locked a b c p)) = files p"
  "plugin_ready (snd (rebuild_rules_locked a b c p)) = plugin_ready p"
  "opt_file_path (snd (rebuild_rules_locked a b c p)) = opt_file_path p"
  "file_path_storage (snd (rebuild_rules_locked a b c p)) = file_path_storage p"
  by (simp_all add: rebuild_rules_locked_def split: sum.split)

lemma set_filter_frame [simp]:
  "states (snd (set_filter kind str p)) = states p" "files (snd (set_filter kind str p)) = files p"
  "plugin_ready (snd (set_filter kind str p)) = plugin_ready p"
  "opt_file_path (snd (set_filter kind str p)) = opt_file_path p"
  "file_path_storage (snd (set_filter kind str p)) = file_path_storage p"
  by (simp_all add: set_filter_def update_filter_list_def Let_def store_list_def split: sum.split filter_kind.split)

lemma set_filter_config: "config_inv p \<Longrightarrow> config_inv (snd (set_filter kind str p))"
proof (cases str)
  case None
  assume "config_inv p"
  then show ?thesis
    using update_valid [of p kind "[]"] valid_empty by (simp add: None set_filter_def check_kind_None update_filter_list_def)
next
  case (Some s)
  assume "config_inv p"
  then show ?thesis
    using update_valid [of p kind s] check_kind_Inr [of kind s] by (auto simp: Some set_filter_def split: sum.split)
qed

lemma states_inv_frame: "states q = states p \<Longrightarrow> states_inv q = states_inv p"
  by (simp add: states_inv_def entry_of_def)

lemma path_inv_frame: "files q = files p \<Longrightarrow> opt_file_path q = opt_file_path p \<Longrightarrow> path_inv q = path_inv p"
  by (simp add: path_inv_def)

lemma plugin_inv_set_filter: "plugin_inv io p \<Longrightarrow> plugin_inv io (snd (set_filter kind str p))"
  using set_filter_config [of p kind str] states_inv_frame [of "snd (set_filter kind str p)" p]
    path_inv_frame [of "snd (set_filter kind str p)" p]
  by (simp add: plugin_inv_def)

lemma plugin_inv_path: "plugin_inv io p \<Longrightarrow> plugin_ready p \<Longrightarrow> plugin_inv io (update_file_path io save p)"
proof -
  assume inv: "plugin_inv io p" "plugin_ready p"
  let ?q = "update_file_path io save p"
  have f: "states ?q = states p" "plugin_ready ?q = plugin_ready p" "opt_file_path ?q = file_path_storage ?q" "config_inv ?q = config_inv p"
    by (simp_all add: update_file_path_def Let_def config_inv_def)
  have "file_inv io (files ?q)"
    using inv(1) by (simp add: plugin_inv_def update_file_path_def Let_def file_writer_reopen_inv file_writer_close_inv)
  then show ?thesis
    using inv path_inv_update [of io save p] states_inv_frame [OF f(1)] by (simp add: plugin_inv_def f)
qed

lemma plugin_inv_emit:
  assumes "plugin_inv io p" and "plugin_ready p"
  shows "plugin_inv io (emit io cb e p)"
proof -
  let ?q = "emit io cb e p"
  have path: "log_fp (files p) = None \<or> log_fp (files p) = opt_file_path p"
    using assms by (auto simp: plugin_inv_def path_inv_def)
  have "file_inv io (files ?q)"
    using assms(1) file_writer_write_inv [of io "files p"]
    by (simp add: plugin_inv_def emit_def split_beta Let_def split: output_mode.split)
  moreover have "path_inv ?q"
    using path file_writer_write_path [OF path, of io "json_line e"] unfolding path_inv_def emit_frame
    by (simp add: emit_def split_beta Let_def split: output_mode.split)
  moreover have "file_path_storage ?q = file_path_storage p"
    by (simp add: emit_def split_beta Let_def split: output_mode.split)
  moreover have "config_inv ?q = config_inv p" by (rule config_inv_frame) simp_all
  ultimately show ?thesis using assms states_inv_frame [of ?q p] by (simp add: plugin_inv_def)
qed

lemma plugin_inv_notify:
  assumes "plugin_inv io p" and "selective_trace_notify io cb thd event p = Some p'"
  shows "plugin_inv io p'"
proof (cases "listens cb thd p")
  case True
  then obtain m where m: "states p = Some m" using assms(1) by (auto simp: plugin_inv_def listens_def)
  let ?p = "p\<lparr>states := Some (m(thd := entry_step (opt_enabled p) (active_rules p) cb event (m thd)))\<rparr>"
  have ready: "plugin_ready p" using True by (simp add: listens_def)
  have "states_inv ?p"
    using assms(1) state_inv_entry_step [of "m thd" "opt_enabled p" "active_rules p" cb event]
    by (auto simp: plugin_inv_def states_inv_def entry_of_def m)
  then have inv: "plugin_inv io ?p" using assms(1) ready by (auto simp: plugin_inv_def config_inv_def path_inv_def)
  then have "plugin_inv io (emit_opt io cb e ?p)" for e
    using plugin_inv_emit [OF inv] ready by (simp add: emit_opt_def split: option.split)
  then show ?thesis using assms(2) by (auto simp: notify_eq [OF True m])
next
  case False
  then show ?thesis using assms notify_deaf by auto
qed

lemma init_frame:
  assumes "selective_trace_init p = (failed, p')"
  shows "files p' = (if failed then file_writer_close (files p) else files p)" "opt_file_path p' = text_or_empty (opt_file_path p)"
    "states p' = (if failed then None else Some Map.empty)" "plugin_ready p' = (if failed then plugin_ready p else True)"
  using assms by (auto simp: selective_trace_init_def Let_def split_beta split: if_splits)

lemma init_config: "selective_trace_init p = (False, p') \<Longrightarrow> config_inv p' \<and> opt_file_path p' = file_path_storage p'"
proof -
  assume run: "selective_trace_init p = (False, p')"
  obtain s t c f where lists: "text_or_empty (opt_schemas p) = Some s" "text_or_empty (opt_tables p) = Some t"
    "text_or_empty (opt_connections p) = Some c" "text_or_empty (opt_file_path p) = Some f"
    using text_or_empty_Some by metis
  then show ?thesis
    using run
    by (auto simp: selective_trace_init_def Let_def split_beta rebuild_rules_locked_def config_inv_def split: if_splits sum.splits)
qed

lemma plugin_inv_init:
  assumes "plugin_inv io p" and "\<not> plugin_ready p"
  shows "plugin_inv io (snd (selective_trace_init p))"
proof -
  obtain failed p' where run: "selective_trace_init p = (failed, p')" by (cases "selective_trace_init p")
  note frame = init_frame [OF run]
  have "states_inv p'" by (simp add: states_inv_def entry_of_def frame(3))
  then show ?thesis
    using assms frame init_config [of p p'] run
    by (cases failed) (simp_all add: plugin_inv_def path_inv_def file_writer_close_inv)
qed

lemma plugin_inv_writer [simp]:
  "plugin_inv io (start_writer p p') = plugin_inv io p'" "plugin_inv io (join_writer srv p) = plugin_inv io p"
  by (simp_all add: start_writer_def join_writer_def plugin_inv_def states_inv_def entry_of_def config_inv_def path_inv_def)

lemma plugin_inv_deinit: "plugin_inv io p \<Longrightarrow> plugin_inv io (selective_trace_deinit p)"
  by (auto simp: plugin_inv_def selective_trace_deinit_def states_inv_def entry_of_def file_writer_close_inv)

lemma plugin_inv_step: "plugin_step io srv p p' \<Longrightarrow> plugin_inv io p \<Longrightarrow> plugin_inv io p'"
proof (induction rule: plugin_step.induct)
  case (set_scalars p en out ms mp)
  then show ?case by (auto simp: plugin_inv_def states_inv_def entry_of_def config_inv_def path_inv_def)
next
  case (writer p evs stop q)
  then show ?case by (auto simp: plugin_inv_def states_inv_def entry_of_def config_inv_def path_inv_def)
qed (simp_all add: plugin_inv_init plugin_inv_set_filter plugin_inv_path plugin_inv_notify plugin_inv_deinit)

lemma plugin_inv_reach: "plugin_reach io srv p \<Longrightarrow> plugin_inv io p"
proof (induction rule: plugin_reach.induct)
  case (start p)
  then show ?case
    using file_inv_init [of io] by (simp add: configured_def plugin_inv_def states_inv_def entry_of_def file_writer_init_def)
next
  case (step p p')
  then show ?case by (simp add: plugin_inv_step)
qed

section \<open>When nothing is listed\<close>

text \<open>No statement in flight has a mask; rules without entries keep it so and select nothing.\<close>

definition masks_clear :: "plugin \<Rightarrow> bool" where
  "masks_clear p \<longleftrightarrow> (\<forall>thd st. entry_of p thd = Some st \<longrightarrow> cmd_mask st = 0)"

definition lists_nothing :: "FilterRules option \<Rightarrow> bool" where
  "lists_nothing rules \<longleftrightarrow> (case rules of None \<Rightarrow> True | Some r \<Rightarrow> rules_empty r)"

lemma rules_empty_matches:
  assumes "rules_empty r"
  shows "match_schema r d = 0" "match_table r d t = 0" "\<not> match_connection r c"
  using assms
  by (auto simp: rules_empty_def match_schema_def match_table_def match_connection_def binary_search_def lower_bound.simps
      split: option.split)

lemma lists_nothing_mask:
  assumes "lists_nothing rules"
  shows "table_cmds rules db tbl = None \<or> table_cmds rules db tbl = Some 0"
    "allowed_commands rules conn_id cmd_bit st = (if in_statement st then cmd_mask st else 0)"
  using assms
  by (auto simp: lists_nothing_def table_cmds_def allowed_commands_def Let_def rules_empty_matches split: option.splits)

lemma entry_step_clear:
  assumes "lists_nothing rules" and "cmd_mask (entry_state s) = 0" and "entry_step enabled rules cb event s = Some st"
  shows "cmd_mask st = 0"
proof -
  have "cmd_mask (access_table rules ev st') = 0" if "cmd_mask st' = 0" for ev st'
    using lists_nothing_mask(1) [OF assms(1), of "table_database ev" "table_name ev"] that
    by (auto simp: access_table_def Let_def)
  then show ?thesis
    using assms(2,3)
    by (auto simp: entry_step_def Let_def state_reset_def entry_state_def split: audit_event.splits if_splits option.splits)
qed

lemma silent_step:
  assumes "lists_nothing (active_rules p)" and "masks_clear p" and "states p = Some m"
  shows "\<exists>s. selective_trace_notify io cb thd event p = Some (p\<lparr>states := Some s\<rparr>) \<and> masks_clear (p\<lparr>states := Some s\<rparr>)"
proof (cases "listens cb thd p")
  case True
  have clear: "cmd_mask (entry_state (m thd)) = 0"
    using assms(2,3) by (auto simp: masks_clear_def entry_of_def entry_state_def zero_state_def split: option.split)
  have "output_of cb event (m thd) p = None"
    using clear by (auto simp: output_of_def wanted_statement_def lists_nothing_mask(2) [OF assms(1)] Let_def split: audit_event.split)
  moreover have "masks_clear (p\<lparr>states := Some (m(thd := entry_step (opt_enabled p) (active_rules p) cb event (m thd)))\<rparr>)"
    using assms(2,3) entry_step_clear [OF assms(1) clear] by (auto simp: masks_clear_def entry_of_def)
  ultimately show ?thesis by (auto simp: notify_eq [OF True assms(3)] emit_opt_def)
next
  case False
  then show ?thesis
    using assms notify_deaf [of cb thd p io event] by (intro exI [of _ m]) (simp add: masks_clear_def entry_of_def)
qed

lemma silent_run:
  "lists_nothing (active_rules p) \<Longrightarrow> masks_clear p \<Longrightarrow> states p \<noteq> None \<Longrightarrow>
   \<exists>s. trace_run io ns p = Some (p\<lparr>states := Some s\<rparr>)"
proof (induction io ns p rule: trace_run.induct)
  case (1 io p)
  then show ?case by (auto intro!: exI [of _ "the (states p)"])
next
  case (2 io cb thd event ns p)
  then obtain s where "selective_trace_notify io cb thd event p = Some (p\<lparr>states := Some s\<rparr>)" "masks_clear (p\<lparr>states := Some s\<rparr>)"
    using silent_step by blast
  then show ?case using 2 by fastforce
qed

section \<open>A statement from start to end\<close>

definition access_calls :: "thd \<Rightarrow> (callback \<times> mysql_event_table_access) list \<Rightarrow> notification list" where
  "access_calls thd accs = map (\<lambda>(cb, ev). (cb, thd, Table_access_class ev)) accs"

definition statement_calls ::
    "thd \<Rightarrow> callback \<Rightarrow> mysql_event_general \<Rightarrow> (callback \<times> mysql_event_table_access) list \<Rightarrow> callback \<Rightarrow> mysql_event_general \<Rightarrow>
     notification list" where
  "statement_calls thd cb0 ev0 accs cb event =
     (cb0, thd, General_class GENERAL_LOG ev0) # access_calls thd accs @ [(cb, thd, General_class GENERAL_STATUS event)]"

lemma listens_states [simp]: "listens cb thd (p\<lparr>states := s\<rparr>) = listens cb thd p"
  by (simp add: listens_def)

lemma access_run:
  "opt_enabled p \<Longrightarrow> (\<And>cb. cb \<in> fst ` set accs \<Longrightarrow> listens cb thd p) \<Longrightarrow>
   trace_run io (access_calls thd accs) (p\<lparr>states := Some (m(thd \<mapsto> st))\<rparr>) =
     Some (p\<lparr>states := Some (m(thd \<mapsto> access_tables (active_rules p) (map snd accs) st))\<rparr>)"
proof (induction accs arbitrary: st)
  case (Cons a accs)
  obtain cb ev where a: "a = (cb, ev)" by (cases a)
  have step: "selective_trace_notify io cb thd (Table_access_class ev) (p\<lparr>states := Some (m(thd \<mapsto> st))\<rparr>) =
      Some (p\<lparr>states := Some (m(thd \<mapsto> access_table (active_rules p) ev st))\<rparr>)"
    using Cons.prems
    by (subst notify_eq [where m = "m(thd \<mapsto> st)"]) (auto simp: a emit_opt_def output_of_def entry_step_def entry_state_def)
  have "trace_run io (access_calls thd accs) (p\<lparr>states := Some (m(thd \<mapsto> access_table (active_rules p) ev st))\<rparr>) =
      Some (p\<lparr>states := Some (m(thd \<mapsto> access_tables (active_rules p) (map snd accs) (access_table (active_rules p) ev st)))\<rparr>)"
    using Cons.prems by (intro Cons.IH) auto
  then show ?case
    unfolding access_calls_def a list.map prod.case trace_run.simps step option.case snd_conv access_tables_simps .
qed (simp add: access_calls_def)

text \<open>The state in which \<open>GENERAL_STATUS\<close> finds its connection.\<close>

definition statement_state ::
    "FilterRules option \<Rightarrow> StatementState option \<Rightarrow> callback \<Rightarrow> mysql_event_table_access list \<Rightarrow> mysql_event_general \<Rightarrow> StatementState" where
  "statement_state rules s cb0 evs event =
     track_current_db (access_tables rules evs (state_begin_statement (entry_state s) True (now_ns (monotonic cb0)))) event"

lemma statement_run:
  assumes "states p = Some m" and "opt_enabled p" and "is_query_command event"
    and "listens cb0 thd p" and "listens cb thd p" and "\<And>c. c \<in> fst ` set accs \<Longrightarrow> listens c thd p"
  defines "st \<equiv> statement_state (active_rules p) (m thd) cb0 (map snd accs) event"
  shows "trace_run io (statement_calls thd cb0 ev0 accs cb event) p =
    (let p' = p\<lparr>states := Some (m(thd \<mapsto> state_reset st))\<rparr> in
     Some (if wanted_statement cb event st p then emit io cb (make_event (opt_mask_passwords p) cb event st) p' else p'))"
proof -
  let ?st0 = "state_begin_statement (entry_state (m thd)) True (now_ns (monotonic cb0))"
  let ?st1 = "access_tables (active_rules p) (map snd accs) ?st0"
  have log: "selective_trace_notify io cb0 thd (General_class GENERAL_LOG ev0) p = Some (p\<lparr>states := Some (m(thd \<mapsto> ?st0))\<rparr>)"
    using assms(2) by (simp add: notify_eq [OF assms(4,1)] emit_opt_def output_of_def entry_step_def)
  have status: "selective_trace_notify io cb thd (General_class GENERAL_STATUS event) (p\<lparr>states := Some (m(thd \<mapsto> ?st1))\<rparr>) =
      (let p' = p\<lparr>states := Some (m(thd \<mapsto> state_reset st))\<rparr> in
       Some (if wanted_statement cb event st p then emit io cb (make_event (opt_mask_passwords p) cb event st) p' else p'))"
    using assms(2,3,5)
    by (subst notify_eq [where m = "m(thd \<mapsto> ?st1)"])
      (auto simp: st_def statement_state_def emit_opt_def output_of_def entry_step_def entry_state_def Let_def wanted_statement_def)
  show ?thesis
    using access_run [OF assms(2,6), where io = io and m = m and st = ?st0]
    by (simp add: statement_calls_def log trace_run_append status Let_def)
qed

text \<open>What the event of a statement says.\<close>

lemma table_items_entries:
  "state_inv st \<Longrightarrow> tables_len st > 0 \<Longrightarrow> [] \<notin> set (Statement_State.table_entries st) \<Longrightarrow>
   table_items (tables_text st) = Statement_State.table_entries st"
proof -
  have items: "[] \<notin> set (split_on CHR '','' s) \<Longrightarrow> table_items s = split_on CHR '','' s" for s
  proof (induction s rule: table_items.induct)
    case (2 c s)
    show ?case
    proof (cases "dropWhile (\<lambda>d. d \<noteq> CHR '','') (c # s)")
      case Nil
      then show ?thesis by (subst takeWhile_split_on) (simp add: table_items.simps(2) Nil del: dropWhile.simps takeWhile.simps dropWhile_eq_Nil_conv)
    next
      case (Cons d r)
      have split: "split_on CHR '','' (c # s) = takeWhile (\<lambda>d. d \<noteq> CHR '','') (c # s) # split_on CHR '','' r"
        by (subst takeWhile_split_on) (simp add: Cons del: dropWhile.simps takeWhile.simps)
      then have "[] \<notin> set (split_on CHR '','' r)" using "2.prems" by (simp del: split_on.simps)
      then show ?thesis
        using "2.IH" [OF Cons] by (simp add: split table_items.simps(2) Cons del: dropWhile.simps takeWhile.simps split_on.simps)
    qed
  qed simp
  show "state_inv st \<Longrightarrow> tables_len st > 0 \<Longrightarrow> [] \<notin> set (Statement_State.table_entries st) \<Longrightarrow>
   table_items (tables_text st) = Statement_State.table_entries st"
    by (simp add: items Statement_State.table_entries_def)
qed

lemma state_inv_entry: "(\<And>st. s = Some st \<Longrightarrow> state_inv st) \<Longrightarrow> state_inv (entry_state s)"
  by (simp add: entry_state_def state_inv_zero split: option.split)

lemma insert_entry_nonempty: "[] \<notin> set es \<Longrightarrow> [] \<notin> set xs \<Longrightarrow> [] \<notin> set (foldl insert_entry es xs)"
  by (simp add: foldl_insert_entry)

text \<open>The text of the tables is that of the counted accesses, whatever masks were gathered.\<close>

lemma statement_state_tables:
  fixes rules :: "FilterRules option" and s :: "StatementState option" and cb0 :: callback
    and evs :: "mysql_event_table_access list" and event :: mysql_event_general
  defines "rec \<equiv> add_tables (counted rules evs) (state_begin_statement (entry_state s) True (now_ns (monotonic cb0)))"
  shows "tables_len (statement_state rules s cb0 evs event) = tables_len rec"
    "tables_text (statement_state rules s cb0 evs event) = tables_text rec"
    "tables_truncated (statement_state rules s cb0 evs event) = tables_truncated rec"
proof -
  obtain c where "access_tables rules evs (state_begin_statement (entry_state s) True (now_ns (monotonic cb0))) = rec\<lparr>cmd_mask := c\<rparr>"
    using access_tables_recorded [of "state_begin_statement (entry_state s) True (now_ns (monotonic cb0))" rules evs]
    by (auto simp: rec_def)
  then show "tables_len (statement_state rules s cb0 evs event) = tables_len rec"
    "tables_text (statement_state rules s cb0 evs event) = tables_text rec"
    "tables_truncated (statement_state rules s cb0 evs event) = tables_truncated rec"
    by (simp_all add: statement_state_def tables_text_def)
qed

lemma state_inv_add_tables: "state_inv st \<Longrightarrow> state_inv (add_tables ts st)"
  by (induction ts arbitrary: st) (auto simp: add_tables_def state_inv_add_table)

text \<open>The tables an event names, as the JSON line lists them.\<close>

definition event_tables :: "log_event \<Rightarrow> string list" where
  "event_tables e = (if le_have_tables e then table_items (le_tables e) else [])"

lemma statement_event_tables:
  assumes "state_inv (entry_state s)" and "list_all plain_table (counted rules evs)"
  shows "event_tables (make_event masking cb event (statement_state rules s cb0 evs event)) =
    Statement_State.table_entries (add_tables (counted rules evs) (state_begin_statement (entry_state s) True (now_ns (monotonic cb0))))"
proof -
  define rec where "rec = add_tables (counted rules evs) (state_begin_statement (entry_state s) True (now_ns (monotonic cb0)))"
  note same = statement_state_tables [of rules s cb0 evs event, folded rec_def]
  have "set (Statement_State.table_entries rec) \<subseteq> (\<lambda>(db, tbl). full_name db tbl) ` set (counted rules evs)"
    using recorded_tables [OF assms, of True "now_ns (monotonic cb0)"] by (simp add: rec_def)
  then have "[] \<notin> set (Statement_State.table_entries rec)" by (auto simp: full_name_def)
  moreover have "state_inv rec" unfolding rec_def by (intro state_inv_add_tables state_inv_begin assms(1))
  moreover have "in_statement (statement_state rules s cb0 evs event)"
    by (simp add: statement_state_def access_tables_fields)
  ultimately show ?thesis
    using table_items_entries [of rec]
    by (simp add: event_tables_def make_event_def same rec_def [symmetric]) (simp add: Statement_State.table_entries_def)
qed

section \<open>Properties\<close>


definition sample_call :: "int \<Rightarrow> callback" where
  "sample_call t = \<lparr>self_tid = 1, monotonic = \<lparr>tv_sec = t, tv_nsec = 0\<rparr>,
     wall_tm = \<lparr>tm_year = 126, tm_mon = 7, tm_mday = 6, tm_hour = 1, tm_min = 2, tm_sec = 3\<rparr>, wall_usec = 45000,
     new_thread = None, push_memory = True\<rparr>"

definition sample_plugin :: plugin where
  "sample_plugin = ready_plugin\<lparr>opt_enabled := True, active_rules := Some
     \<lparr>schemas = [], wildcard_schemas = [], tables = [\<lparr>fe_name = ''app.orders'', fe_cmds = CMD_INSERT\<rparr>], connections = []\<rparr>\<rparr>"

definition sample_access :: mysql_event_table_access where
  "sample_access = \<lparr>table_database = ''app'', table_name = ''Orders''\<rparr>"

lemma sample_listens: "thd \<noteq> 0 \<Longrightarrow> listens (sample_call t) thd sample_plugin"
  by (simp add: listens_def sample_plugin_def ready_plugin_eq table_writer_is_self_def table_writer_init_def load_queue_def)

lemma sample_states: "states sample_plugin = Some Map.empty" "opt_enabled sample_plugin" "opt_min_duration_ms sample_plugin = 0"
  by (simp_all add: sample_plugin_def ready_plugin_eq loaded_plugin_def)

definition sample_io :: stdio where
  "sample_io = \<lparr>fopen_ok = \<lambda>_. True, fwrite_count = \<lambda>calls. case calls of Fwrite p line # _ \<Rightarrow> length line | _ \<Rightarrow> 0\<rparr>"


text \<open>
  (C3) What the log says of a statement: the number of the statement on its connection, the time from
  \<open>GENERAL_LOG\<close> to \<open>GENERAL_STATUS\<close>, the tracked schema, and the tables the statement accessed, each once
  and in the order of first access, statistics tables left out unless listed.  Unless the event says
  that its list is truncated it names all of them, and it does not say so while the names fit the
  buffer.
\<close>

theorem statement_event_content:
  fixes s :: "StatementState option" and rules :: "FilterRules option" and evs :: "mysql_event_table_access list"
    and event :: mysql_event_general and cb0 cb :: callback and masking :: bool
  assumes "state_inv (entry_state s)" and "list_all plain_table (counted rules evs)"
  defines "e \<equiv> make_event masking cb event (statement_state rules s cb0 evs event)"
    and "names \<equiv> map (\<lambda>(db, tbl). full_name db tbl) (counted rules evs)"
  shows "le_seq e = local_seq (entry_state s) + 1 \<and>
    le_duration e = Some (elapsed_ms (now_ns (monotonic cb)) (now_ns (monotonic cb0))) \<and>
    le_db e = db_text (statement_state rules s cb0 evs event) \<and>
    distinct (event_tables e) \<and> set (event_tables e) \<subseteq> set names \<and>
    (\<not> le_truncated e \<longrightarrow> event_tables e = foldl insert_entry [] names) \<and>
    (sum_list (map (\<lambda>n. length n + 1) names) < STATE_TABLES_BUF \<longrightarrow> \<not> le_truncated e)"
proof -
  let ?st = "statement_state rules s cb0 evs event"
  have fields: "in_statement ?st" "have_start ?st" "start_ns ?st = now_ns (monotonic cb0)" "local_seq ?st = local_seq (entry_state s) + 1"
    by (simp_all add: statement_state_def access_tables_fields)
  have e: "le_seq e = local_seq (entry_state s) + 1" "le_duration e = Some (elapsed_ms (now_ns (monotonic cb)) (now_ns (monotonic cb0)))"
    "le_db e = db_text ?st" "le_truncated e = tables_truncated ?st"
    by (simp_all add: e_def make_event_def duration_ms_def fields db_text_zero)
  have "sum_list (map (\<lambda>n. length n + 1) names) = sum_list (map (\<lambda>(db, tbl). length (full_name db tbl) + 1) (counted rules evs))"
    by (simp add: names_def comp_def case_prod_unfold)
  moreover have "event_tables e = Statement_State.table_entries
      (add_tables (counted rules evs) (state_begin_statement (entry_state s) True (now_ns (monotonic cb0))))"
    unfolding e_def by (rule statement_event_tables [OF assms(1,2)])
  ultimately show ?thesis
    using recorded_tables [OF assms(1,2), of True "now_ns (monotonic cb0)"]
    by (simp add: e statement_state_tables(3) names_def case_prod_unfold)
qed

theorem statement_event_content_witness:
  "event_tables (make_event True (sample_call 3) (query_event ''SELECT 1'' 0)
     (statement_state None None (sample_call 1)
       [sample_access, \<lparr>table_database = ''mysql'', table_name = ''innodb_table_stats''\<rparr>, sample_access] (query_event ''SELECT 1'' 0))) =
   [''app.Orders'']"
proof -
  let ?evs = "[sample_access, \<lparr>table_database = ''mysql'', table_name = ''innodb_table_stats''\<rparr>, sample_access]"
  have counted: "counted None ?evs = [(''app'', ''Orders''), (''app'', ''Orders'')]" by code_simp
  have inv: "state_inv (entry_state None)" by (simp add: entry_state_def state_inv_zero)
  have plain: "list_all plain_table (counted None ?evs)" unfolding counted by code_simp
  have room: "sum_list (map (\<lambda>n. length n + 1) (map (\<lambda>(db, tbl). full_name db tbl) (counted None ?evs))) < STATE_TABLES_BUF"
    by (simp add: counted full_name_def STATE_TABLES_BUF_def)
  show ?thesis
    using statement_event_content [OF inv plain, of True "sample_call 3" "query_event ''SELECT 1'' 0" "sample_call 1"] room
    by (simp add: counted insert_entry_def full_name_def)
qed

text \<open>
  (C11) Connections do not disturb one another.  After any interleaving of callbacks of any connections
  the state kept for each of them is the one its own callbacks alone would have left, starting from the
  same entry; and no callback ever fails.  (Callbacks are made by client threads; the threads
  \<open>pthread_create\<close> makes for the writer are others.)
\<close>

theorem connection_isolation:
  assumes "session_inv enabled rules W p" and "list_all (client_call W) ns"
  shows "\<exists>p'. trace_run io ns p = Some p' \<and> session_inv enabled rules W p' \<and>
    (\<forall>thd. entry_of p' thd =
       fold (\<lambda>(cb, _, event). entry_step enabled rules cb event) (filter (\<lambda>(_, k, _). k = thd) ns) (entry_of p thd))"
proof -
  have "(\<lambda>(cb, uu, event). entry_step enabled rules cb event) = (\<lambda>(cb, thd :: thd, event). entry_step enabled rules cb event)"
    by (simp add: fun_eq_iff)
  moreover have "(\<lambda>n :: notification. (case n of (cb, thd, event) \<Rightarrow> thd) = k) = (\<lambda>(_, k', _). k' = k)" for k by auto
  ultimately show ?thesis
    using sessions.run_projection [OF assms, of io] by (simp add: trace_run_sessions)
qed

theorem connection_isolation_witness:
  "\<exists>p'. trace_run sample_io [(sample_call 1, 9, General_class GENERAL_LOG (query_event [] 0)), (sample_call 2, 5, Table_access_class sample_access)]
     sample_plugin = Some p' \<and> entry_of p' 9 = Some (state_begin_statement zero_state True 1000000000)"
proof -
  let ?ns = "[(sample_call 1, 9, General_class GENERAL_LOG (query_event [] 0)), (sample_call 2, 5, Table_access_class sample_access)]"
  have inv: "session_inv True (active_rules sample_plugin) {} sample_plugin"
    by (simp add: session_inv_def sample_states) (simp add: sample_plugin_def ready_plugin_eq writer_in_def table_writer_init_def load_queue_def)
  have calls: "list_all (client_call {}) ?ns" by (simp add: client_call_def sample_call_def)
  have entry: "entry_of sample_plugin 9 = None" by (simp add: entry_of_def sample_states)
  show ?thesis
    using connection_isolation [OF inv calls, of sample_io]
    by (auto simp: entry entry_step_def entry_state_def now_ns_def sample_call_def)
qed

text \<open>
  (C4) Every reachable state of the plugin, whatever the server does with it (failed and successful
  initialisation, variables set, callbacks, the writer thread, unloading): while the plugin is ready
  its rules are well formed and are those of the three lists \<open>SHOW VARIABLES\<close> shows, no connection's
  buffers are overrun, an open log file is the one the path variable names, no file handle is leaked,
  and a callback never meets the \<open>NULL\<close> state map; while it is not ready there is neither a state map
  nor an open file.
\<close>

theorem reachable_safe:
  assumes "plugin_reach io srv p"
  shows "selective_trace_notify io cb thd event p \<noteq> None \<and>
    (if plugin_ready p
     then (\<exists>r s t c r0. active_rules p = Some r \<and> wf_rules r \<and> opt_schemas p = Some s \<and> opt_tables p = Some t \<and>
             opt_connections p = Some c \<and> parse_filter_lists (Some s) (Some t) empty_rules = Inr r0 \<and>
             parse_connection_list (Some c) r0 = Inr r) \<and>
          states_inv p \<and> states p \<noteq> None \<and> path_inv p
     else states p = None \<and> log_fp (files p) = None) \<and>
    file_inv io (files p)"
proof -
  have inv: "plugin_inv io p" by (rule plugin_inv_reach [OF assms])
  have "selective_trace_notify io cb thd event p \<noteq> None"
  proof (cases "plugin_ready p")
    case True
    then obtain m where "states p = Some m" using inv by (auto simp: plugin_inv_def)
    then show ?thesis using notify_step [of p m io cb thd event] inv by (auto simp: plugin_inv_def)
  next
    case False
    then show ?thesis by (simp add: selective_trace_notify_def)
  qed
  moreover have "\<exists>r s t c r0. active_rules p = Some r \<and> wf_rules r \<and> opt_schemas p = Some s \<and> opt_tables p = Some t \<and>
      opt_connections p = Some c \<and> parse_filter_lists (Some s) (Some t) empty_rules = Inr r0 \<and>
      parse_connection_list (Some c) r0 = Inr r" if "plugin_ready p"
  proof -
    have "config_inv p" using inv that by (simp add: plugin_inv_def)
    then show ?thesis using config_inv_wf [of p] unfolding config_inv_def by auto
  qed
  ultimately show ?thesis using inv by (auto simp: plugin_inv_def)
qed

lemma ready_reach: "plugin_reach io srv ready_plugin"
proof -
  have "configured loaded_plugin" by (simp add: configured_def loaded_plugin_def new_writer_def new_policy_def)
  then have "plugin_reach io srv loaded_plugin" by (rule plugin_reach.start)
  moreover have "\<not> plugin_ready loaded_plugin" by (simp add: loaded_plugin_def)
  ultimately show ?thesis unfolding ready_plugin_def by (blast intro: plugin_reach.step plugin_step.init)
qed

theorem reachable_safe_witness:
  "\<exists>r. active_rules (snd (set_filter FK_TABLES (Some ''app.orders:insert'') ready_plugin)) = Some r \<and> wf_rules r"
proof -
  have ready: "plugin_ready ready_plugin" by (simp add: ready_plugin_eq)
  have "plugin_reach sample_io willing_server
      (snd (set_filter FK_TABLES (Some ''app.orders:insert'') ready_plugin))"
    by (rule plugin_reach.step [OF ready_reach plugin_step.set_list [OF ready]])
  from reachable_safe [OF this, of "sample_call 1" 9 Other_class] show ?thesis using ready by auto
qed

text \<open>
  (C12) Without filters nothing is traced.  If the rules have no entry (or there are none), and no
  statement in flight was matched under earlier rules, then no sequence of callbacks, of whatever
  statements and connections, writes a byte, queues an event or counts one: only the state map changes.
\<close>

theorem fail_safe_off:
  assumes "lists_nothing (active_rules p)" and "masks_clear p" and "states p \<noteq> None"
  shows "\<exists>s. trace_run io ns p = Some (p\<lparr>states := Some s\<rparr>)"
  using assms by (rule silent_run)

theorem fail_safe_off_witness:
  "\<exists>s. trace_run sample_io [(sample_call 1, 9, General_class GENERAL_STATUS (query_event ''DROP TABLE t'' 0))]
     (ready_plugin\<lparr>opt_enabled := True\<rparr>) = Some (ready_plugin\<lparr>opt_enabled := True, states := Some s\<rparr>)"
proof -
  let ?p = "ready_plugin\<lparr>opt_enabled := True\<rparr>"
  have "lists_nothing (active_rules ?p)" "masks_clear ?p" "states ?p \<noteq> None"
    by (simp_all add: ready_plugin_eq lists_nothing_def rules_empty_def empty_rules_def masks_clear_def entry_of_def)
  then show ?thesis
    using fail_safe_off [of ?p sample_io "[(sample_call 1, 9, General_class GENERAL_STATUS (query_event ''DROP TABLE t'' 0))]"] by simp
qed

text \<open>
  What any sequence of callbacks adds to the outputs: behind the lines the file had accepted
  before come lines, and behind the queued statements come statements, each of which is the text of a
  \<open>GENERAL_STATUS\<close> of a query in the sequence, with its query masked as the variable says; and
  \<open>selective_trace_events_logged\<close> grows by their number exactly, whatever the file system and the queue
  refuse.
\<close>

lemma output_exact:
  assumes "states p \<noteq> None" and "states_inv p"
  shows "\<exists>p' ls qs. trace_run io ns p = Some p' \<and>
    delivered io (io_calls (files p')) = delivered io (io_calls (files p)) @ map json_line ls \<and>
    queued (events p') = queued (events p) @ map insert_sql qs \<and>
    status_events_logged p' = status_events_logged p + of_nat (length ls + length qs) \<and>
    list_all (from_call ns (opt_mask_passwords p)) (ls @ qs)"
  using trace_run_grows [OF assms, of io ns] unfolding grows_def by auto

lemma output_exact_witness:
  "\<exists>p' ls. trace_run sample_io [(sample_call 1, 9, Other_class)] sample_plugin = Some p' \<and>
     delivered sample_io (io_calls (files p')) = map json_line ls"
proof -
  have "states sample_plugin \<noteq> None" "states_inv sample_plugin" "delivered sample_io (io_calls (files sample_plugin)) = []"
    by (simp_all add: sample_states states_inv_def entry_of_def)
      (simp add: sample_plugin_def ready_plugin_eq loaded_plugin_def file_writer_init_def)
  then show ?thesis using output_exact [of sample_plugin sample_io "[(sample_call 1, 9, Other_class)]"] by auto
qed

text \<open>
  With \<open>selective_trace_enabled\<close> off, and on the threads of the writer itself, callbacks write
  nothing and change no connection's state, but a disconnect still removes the entry of its connection,
  so switching tracing off leaks none.
\<close>

lemma disabled_silent:
  assumes "states p = Some m" and "plugin_ready p" and "\<not> opt_enabled p"
  shows "selective_trace_notify io cb thd event p =
    Some (if event = Connection_class CONNECTION_DISCONNECT \<and> thd \<noteq> 0 \<and> \<not> table_writer_is_self (self_tid cb) (events p)
          then p\<lparr>states := Some (m(thd := None))\<rparr> else p)"
  using assms by (cases event) (auto simp: selective_trace_notify_def forget_state_def)

lemma disabled_silent_witness:
  "selective_trace_notify sample_io (sample_call 1) 9 (Connection_class CONNECTION_DISCONNECT)
     (ready_plugin\<lparr>states := Some [9 \<mapsto> zero_state, 4 \<mapsto> zero_state]\<rparr>) =
   Some (ready_plugin\<lparr>states := Some [4 \<mapsto> zero_state]\<rparr>)"
proof -
  let ?m = "[9 \<mapsto> zero_state, 4 \<mapsto> zero_state] :: state_map"
  have "?m(9 := None) = [4 \<mapsto> zero_state]" by auto
  then show ?thesis
    using disabled_silent [of "ready_plugin\<lparr>states := Some ?m\<rparr>" ?m sample_io "sample_call 1" 9 "Connection_class CONNECTION_DISCONNECT"]
    by (simp add: ready_plugin_eq loaded_plugin_def table_writer_is_self_def table_writer_init_def load_queue_def)
qed

end
