(* ===== verification/Plugin_Accounting.thy ===== *)
theory Plugin_Accounting
  imports Plugin_Trace
begin

text \<open>
  Where the logged events are.  Over the whole life of the plugin every event counted by
  \<open>selective_trace_events_logged\<close> is a line of the file, an executed \<open>INSERT\<close>, a counted insert failure or
  an element of the queue; after unloading the queue is gone and so are the events in it, by being written.
\<close>

lemma insert_sql_event: "event_sql (insert_sql e)"
proof -
  have "hd (insert_sql e) = CHR ''I''" "hd set_mode \<noteq> CHR ''I''" "hd CREATE_LOG_TABLE_SQL \<noteq> CHR ''I''"
    by (simp_all add: insert_sql_def set_mode_def CREATE_LOG_TABLE_SQL_def)
  then show ?thesis by (auto simp: event_sql_def)
qed

text \<open>A thread that is not running has nothing to do.\<close>

definition queue_idle :: "table_queue \<Rightarrow> bool" where
  "queue_idle q \<longleftrightarrow> (\<not> thread_running q \<longrightarrow> queued q = [])"

lemma enqueue_idle: "queue_idle q \<Longrightarrow> queue_idle (snd (table_writer_enqueue created push_ok sql q))"
  by (auto simp: queue_idle_def queued_def table_writer_enqueue_def start_thread_locked_def Let_def split: option.splits)

lemma emit_idle: "queue_idle (events p) \<Longrightarrow> queue_idle (events (emit io cb e p))"
  by (simp add: emit_def split_beta Let_def enqueue_idle split: output_mode.split)

lemma emit_opt_idle: "queue_idle (events p) \<Longrightarrow> queue_idle (events (emit_opt io cb e p))"
  by (simp add: emit_opt_def emit_idle split: option.split)

lemma notify_sql_conn_idle:
  assumes "selective_trace_notify io cb thd event p = Some p'" and "states p = Some m"
  shows "sql_conn p' = sql_conn p" "queue_idle (events p) \<Longrightarrow> queue_idle (events p')"
    "plugin_ready p' = plugin_ready p"
  using assms notify_deaf [of cb thd p io event] notify_eq [of cb thd p m io event]
  by (cases "listens cb thd p"; auto simp: emit_opt_idle)+

text \<open>A batch moves events from the queue to the log table or to the count of failures.\<close>

lemma run_batch_accounts:
  assumes "conn_inv srv w" and "list_all event_sql evs"
  shows "of_nat (length (executed srv (svc_calls (run_batch srv evs w)))) + insert_failures (run_batch srv evs w) =
    (of_nat (length (executed srv (svc_calls w)) + length evs) + insert_failures w :: u64)"
proof -
  obtain kept where kept: "subseq kept evs" "executed srv (svc_calls (run_batch srv evs w)) = executed srv (svc_calls w) @ kept"
    "insert_failures (run_batch srv evs w) = insert_failures w + of_nat (length evs - length kept)"
    using sink.fold_outcome [OF assms] unfolding run_batch_def by blast
  have "length kept \<le> length evs" by (rule list_emb_length [OF kept(1)])
  then have "of_nat (length kept) + of_nat (length evs - length kept) = (of_nat (length evs) :: u64)"
    by (simp flip: of_nat_add)
  then show ?thesis by (simp add: kept algebra_simps)
qed

definition written :: "stdio \<Rightarrow> services \<Rightarrow> plugin \<Rightarrow> u64" where
  "written io srv p = of_nat (length (delivered io (io_calls (files p))) + length (executed srv (svc_calls (sql_conn p)))) +
     table_writer_failures (sql_conn p)"

definition ledger :: "stdio \<Rightarrow> services \<Rightarrow> plugin \<Rightarrow> bool" where
  "ledger io srv p \<longleftrightarrow> conn_inv srv (sql_conn p) \<and> list_all event_sql (queued (events p)) \<and> queue_idle (events p) \<and>
     (\<not> plugin_ready p \<longrightarrow> \<not> thread_running (events p)) \<and>
     status_events_logged p = written io srv p + of_nat (length (queued (events p)))"

lemma ledger_frame:
  assumes "ledger io srv p" and "events q = events p" and "sql_conn q = sql_conn p" and "plugin_ready q = plugin_ready p"
    and "delivered io (io_calls (files q)) = delivered io (io_calls (files p))" and "status_events_logged q = status_events_logged p"
  shows "ledger io srv q"
  using assms by (simp add: ledger_def written_def)

lemma ledger_configured: "configured p \<Longrightarrow> ledger io srv p"
proof -
  assume c: "configured p"
  then obtain t where "sql_conn p = new_writer t" by (auto simp: configured_def)
  then show ?thesis
    using c conn_inv_new [of srv t]
    by (simp add: ledger_def written_def configured_def load_queue_def queue_idle_def queued_def file_writer_init_def
        table_writer_failures_def new_writer_def)
qed

lemma set_filter_outputs [simp]:
  "events (snd (set_filter kind str p)) = events p" "sql_conn (snd (set_filter kind str p)) = sql_conn p"
  "status_events_logged (snd (set_filter kind str p)) = status_events_logged p"
  by (simp_all add: set_filter_def update_filter_list_def rebuild_rules_locked_def Let_def store_list_def
      split: sum.split filter_kind.split)

lemma update_file_path_outputs [simp]:
  "events (update_file_path io save p) = events p" "sql_conn (update_file_path io save p) = sql_conn p"
  "status_events_logged (update_file_path io save p) = status_events_logged p"
  "plugin_ready (update_file_path io save p) = plugin_ready p"
  "delivered io (io_calls (files (update_file_path io save p))) = delivered io (io_calls (files p))"
  by (simp_all add: update_file_path_def Let_def file_writer_reopen_eq)

lemma ledger_start_writer: "ledger io srv p' \<Longrightarrow> ledger io srv (start_writer p p')"
  by (auto simp: ledger_def written_def start_writer_def thread_start_def table_writer_failures_def)

lemma ledger_notify:
  assumes "ledger io srv p" and "states p = Some m" and "states_inv p" and "selective_trace_notify io cb thd event p = Some p'"
  shows "ledger io srv p'"
proof -
  obtain ls qs where g: "delivered io (io_calls (files p')) = delivered io (io_calls (files p)) @ map json_line ls"
    "queued (events p') = queued (events p) @ map insert_sql qs"
    "status_events_logged p' = status_events_logged p + of_nat (length ls + length qs)"
    using notify_step [OF assms(2,3), of io cb thd event] assms(4) unfolding grows_def by auto
  have sqls: "list_all event_sql (map insert_sql qs)" by (simp add: list_all_iff insert_sql_event)
  have ready: "plugin_ready p"
    if "p' \<noteq> p" using that assms(4) by (auto simp: selective_trace_notify_def split: if_splits)
  show ?thesis
  proof (cases "p' = p")
    case False
    then show ?thesis
      using assms(1) notify_sql_conn_idle [OF assms(4,2)] ready sqls
      by (simp add: ledger_def written_def g algebra_simps)
  qed (simp add: assms(1))
qed

lemma ledger_writer:
  assumes "ledger io srv p" and "thread_running (events p)" and "writer_take (events p) = Some (evs, stop, q)"
  shows "ledger io srv (p\<lparr>events := q, sql_conn := run_batch srv evs (sql_conn p)\<rparr>)"
proof -
  have q: "queued (events p) = evs" "queued q = []" "thread_running q"
    using assms(2,3) by (auto simp: writer_take_def queued_def split: option.splits if_splits)
  then show ?thesis
    using assms(1,2) run_batch_accounts [of srv "sql_conn p" evs] conn_inv_run_batch [of srv "sql_conn p" evs]
    by (simp add: ledger_def written_def table_writer_failures_def queue_idle_def algebra_simps)
qed

lemma drained_queue: "queued (q\<lparr>queue := Some [], stop_requested := b\<rparr>) = []"
  by (simp add: queued_def)

lemma ledger_join_writer: "ledger io srv p \<Longrightarrow> ledger io srv (join_writer srv p)"
proof (cases "plugin_ready p \<and> thread_running (events p)")
  case True
  assume l: "ledger io srv p"
  let ?w = "run_batch srv (queued (events p)) (sql_conn p)"
  have inv: "conn_inv srv ?w" using l by (simp add: ledger_def conn_inv_run_batch)
  show ?thesis
    using l True run_batch_accounts [of srv "sql_conn p" "queued (events p)"] conn_inv_finish(1) [OF inv] thread_finish_log [OF inv]
    by (simp add: join_writer_def ledger_def written_def table_writer_failures_def queue_idle_def drained_queue algebra_simps)
next
  case False
  then have "join_writer srv p = p" unfolding join_writer_def by (rule if_not_P)
  then show "ledger io srv p \<Longrightarrow> ledger io srv (join_writer srv p)" by simp
qed

lemma join_writer_drained:
  "ledger io srv p \<Longrightarrow> plugin_ready (join_writer srv p) \<Longrightarrow> queued (events (join_writer srv p)) = []"
  by (auto simp: join_writer_def ledger_def queue_idle_def drained_queue)

lemma ledger_deinit:
  assumes "ledger io srv p" and "plugin_ready p \<Longrightarrow> queued (events p) = []"
  shows "ledger io srv (selective_trace_deinit p)"
proof (cases "plugin_ready p")
  case True
  have "queued (table_writer_shutdown (events p)) = []" "\<not> thread_running (table_writer_shutdown (events p))"
    by (simp_all add: table_writer_shutdown_def shutdown_finish_def queued_def)
  then show ?thesis
    using assms True by (simp add: selective_trace_deinit_def ledger_def written_def queue_idle_def)
next
  case False
  then show ?thesis using assms by (simp add: selective_trace_deinit_def)
qed

lemma ledger_init:
  assumes "ledger io srv p" and "\<not> plugin_ready p"
  shows "ledger io srv (snd (selective_trace_init p))"
proof -
  have idle: "queued (events p) = []" "\<not> thread_running (events p)"
    using assms by (simp_all add: ledger_def queue_idle_def)
  have q: "queued (table_writer_init True (events p)) = []" "\<not> thread_running (table_writer_init True (events p))"
    "queued (table_writer_shutdown e) = []" "\<not> thread_running (table_writer_shutdown e)" for e
    using idle by (auto simp: table_writer_init_def queued_def table_writer_shutdown_def shutdown_finish_def)
  have out: "events (snd (rebuild_rules_locked a b c v)) = events v" "sql_conn (snd (rebuild_rules_locked a b c v)) = sql_conn v"
    "status_events_logged (snd (rebuild_rules_locked a b c v)) = status_events_logged v" for a b c v
    by (simp_all add: rebuild_rules_locked_def split: sum.split)
  show ?thesis
    using assms idle q
    by (simp add: selective_trace_init_def Let_def split_beta out ledger_def written_def queue_idle_def)
qed

lemma ledger_step: "plugin_step io srv p p' \<Longrightarrow> plugin_inv io p \<Longrightarrow> ledger io srv p \<Longrightarrow> ledger io srv p'"
proof (induction rule: plugin_step.induct)
  case (init p)
  then show ?case by (simp add: ledger_init)
next
  case (set_list p kind str)
  then show ?case by (intro ledger_frame [OF set_list.prems(2)]) simp_all
next
  case (set_path p save)
  then show ?case by (intro ledger_frame [OF set_path.prems(2)]) simp_all
next
  case (set_scalars p en out ms mp)
  then show ?case by (intro ledger_frame [OF set_scalars.prems(2)]) simp_all
next
  case (notify cb thd event p p')
  show ?case
  proof (cases "plugin_ready p")
    case True
    then obtain m where "states p = Some m" "states_inv p" using notify.prems(1) by (auto simp: plugin_inv_def)
    then show ?thesis using ledger_notify [OF notify.prems(2) _ _ notify.hyps] by (simp add: ledger_start_writer)
  next
    case False
    then show ?thesis using notify by (simp add: selective_trace_notify_def ledger_start_writer)
  qed
next
  case (writer p evs stop q)
  then show ?case by (simp add: ledger_writer)
next
  case (deinit p)
  then show ?case by (intro ledger_deinit ledger_join_writer join_writer_drained)
qed

lemma ledger_reach: "plugin_reach io srv p \<Longrightarrow> ledger io srv p"
proof (induction rule: plugin_reach.induct)
  case (start p)
  then show ?case by (rule ledger_configured)
next
  case (step p p')
  then show ?case using ledger_step plugin_inv_reach by blast
qed

section \<open>Properties\<close>


definition tracing_plugin :: plugin where
  "tracing_plugin = (snd (set_filter FK_CONNECTIONS (Some ''7'') ready_plugin))\<lparr>opt_enabled := True, opt_output := OUTPUT_FILE,
     opt_min_duration_ms := 0, opt_mask_passwords := True\<rparr>"

lemma tracing_reach: "plugin_reach io srv tracing_plugin"
proof -
  have ready: "plugin_ready ready_plugin" by (simp add: ready_plugin_eq)
  have "plugin_reach io srv (snd (set_filter FK_CONNECTIONS (Some ''7'') ready_plugin))"
    by (rule plugin_reach.step [OF ready_reach plugin_step.set_list [OF ready]])
  then show ?thesis unfolding tracing_plugin_def by (rule plugin_reach.step) (simp add: plugin_step.set_scalars ready)
qed

lemma tracing_plugin_eq:
  "tracing_plugin = ready_plugin\<lparr>connections_storage := Some ''7'', opt_connections := Some ''7'', opt_enabled := True,
     active_rules := Some (empty_rules\<lparr>connections := [7]\<rparr>)\<rparr>"
proof -
  have "parse_filter_lists (Some []) (Some []) empty_rules = Inr empty_rules"
    "parse_connection_list (Some ''7'') empty_rules = Inr (empty_rules\<lparr>connections := [7]\<rparr>)"
    by code_simp+
  then show ?thesis
    by (simp add: tracing_plugin_def set_filter_def check_kind_def check_connections_def update_filter_list_def store_list_def
        rebuild_rules_locked_def ready_plugin_eq loaded_plugin_def Let_def)
qed

text \<open>A query on the listed connection is written to the file.\<close>

lemma tracing_notify:
  "\<exists>line p'. selective_trace_notify sample_io (sample_call 1) 9 (General_class GENERAL_STATUS (query_event ''SELECT 1'' 0)) tracing_plugin =
     Some p' \<and> delivered sample_io (io_calls (files p')) = [line] \<and> events p' = events ready_plugin \<and>
     sql_conn p' = sql_conn ready_plugin"
proof -
  let ?ev = "General_class GENERAL_STATUS (query_event ''SELECT 1'' 0)"
  have listens: "listens (sample_call 1) 9 tracing_plugin" and m: "states tracing_plugin = Some Map.empty"
    by (simp_all add: listens_def tracing_plugin_eq ready_plugin_eq table_writer_is_self_def table_writer_init_def load_queue_def)
  have "match_connection (empty_rules\<lparr>connections := [7]\<rparr>) 7" by code_simp
  then have "wanted_statement (sample_call 1) (query_event ''SELECT 1'' 0) st tracing_plugin" for st
    unfolding wanted_statement_def Let_def
    by (simp add: tracing_plugin_eq ready_plugin_eq loaded_plugin_def query_event_def too_fast_def
        allowed_commands_iff [OF command_bit_nonzero])
  then obtain e where e: "output_of (sample_call 1) ?ev None tracing_plugin = Some e"
    by (simp add: output_of_def Let_def) (simp add: tracing_plugin_eq query_event_def is_query_command_def general_command_is_def)
  show ?thesis
    unfolding notify_eq [OF listens m] using e
    by (simp add: emit_opt_def emit_def tracing_plugin_eq ready_plugin_eq loaded_plugin_def file_writer_write_def open_locked_def
        file_writer_init_def sample_io_def Let_def)
qed


end
