(* ===== verification/Plugin_Locks.thy ===== *)
theory Plugin_Locks
  imports Plugin_Events
begin

text \<open>
  Callbacks of several threads, lock by lock.  The handlers and the update callbacks of
  \<open>src/selective_trace_mysql.cc\<close> are broken up at every lock operation, at every load of a shared pointer
  and at every use of one: \<open>get_state\<close> with its search and its later insertion, the section under
  \<open>filter_lock\<close>, the rebuilding of the rules with the deletion of the old ones, and the load of
  \<open>opt_file_path\<close>.  Rules and path texts live in a heap; a freed address is not in its domain.  What a
  thread does to the state of its own connection between two such points is one step; the output is the
  file.  A call of \<open>get_state\<close> may throw where it inserts, an update of the lists may fail.  The field
  \<open>decided\<close> records, for the statements below, the statements that were found to be traced.
\<close>

record rwlock =
  rd :: "thread_id set"
  wr :: "thread_id option"

definition free_lock :: rwlock where
  "free_lock = \<lparr>rd = {}, wr = None\<rparr>"

definition can_read :: "rwlock \<Rightarrow> bool" where
  "can_read l \<longleftrightarrow> wr l = None"

definition can_write :: "rwlock \<Rightarrow> bool" where
  "can_write l \<longleftrightarrow> wr l = None \<and> rd l = {}"

type_synonym addr = nat

text \<open>The three callbacks that use a connection's state.  \<open>Do_status\<close> carries whether the statement
  passes \<open>selective_trace_min_duration_ms\<close>.\<close>

datatype job = Do_log u64 | Do_access mysql_event_table_access | Do_status mysql_event_general bool

datatype outcome = Cmds "u32 option" | Allowed u32

datatype pc =
    At_rest
  | Map_find thd job
  | Map_upgrade thd job
  | Map_insert thd job
  | Map_done thd job
  | Map_erase thd
  | Rules_load thd job
  | Rules_use thd job "addr option"
  | Rules_matched thd job outcome
  | Emit_load thd
  | Emit_write thd addr
  | Set_hold FilterRules
  | Set_free "addr option"
  | Path_assigned

record locks =
  filter_rw :: rwlock
  map_rw :: rwlock
  rules_heap :: "addr \<Rightarrow> FilterRules option"
  active_ptr :: "addr option"
  path_heap :: "addr \<Rightarrow> string option"
  opt_path_ptr :: addr
  storage_ptr :: addr
  smap :: state_map
  caught :: nat
  decided :: "(thd \<times> mysql_event_general) list"
  pcs :: "thread_id \<Rightarrow> pc"

definition rules_at :: "locks \<Rightarrow> addr option \<Rightarrow> FilterRules option" where
  "rules_at s p = (case p of None \<Rightarrow> None | Some a \<Rightarrow> rules_heap s a)"

text \<open>The writes of \<open>handle_table_access_event\<close> once the mask is known.\<close>

definition apply_cmds :: "mysql_event_table_access \<Rightarrow> u32 option \<Rightarrow> StatementState \<Rightarrow> StatementState" where
  "apply_cmds event cmds st =
     (let st0 = (if in_statement st then st else state_begin_statement st False 0) in
      case cmds of
        None \<Rightarrow> st0
      | Some c \<Rightarrow> let st1 = state_add_table st0 (table_database event) (table_name event) in st1\<lparr>cmd_mask := cmd_mask st1 OR c\<rparr>)"

lemma access_table_cmds:
  "access_table rules event st = apply_cmds event (table_cmds rules (table_database event) (table_name event)) st"
  by (simp add: access_table_def apply_cmds_def Let_def)

definition status_bit :: "mysql_event_general \<Rightarrow> u32" where
  "status_bit event = command_bit (statement_command (general_query event))"

fun connection_of :: "pc \<Rightarrow> thd option" where
  "connection_of (Map_find k j) = Some k"
| "connection_of (Map_upgrade k j) = Some k"
| "connection_of (Map_insert k j) = Some k"
| "connection_of (Map_erase k) = Some k"
| "connection_of (Map_done k j) = Some k"
| "connection_of (Rules_load k j) = Some k"
| "connection_of (Rules_use k j p) = Some k"
| "connection_of (Rules_matched k j out) = Some k"
| "connection_of (Emit_load k) = Some k"
| "connection_of (Emit_write k a) = Some k"
| "connection_of _ = None"

text \<open>The server runs the callbacks of one connection on one thread at a time.\<close>

definition unused :: "locks \<Rightarrow> thd \<Rightarrow> bool" where
  "unused s k \<longleftrightarrow> (\<forall>u. connection_of (pcs s u) \<noteq> Some k)"

text \<open>\<open>get_state\<close>: the search under the read lock, and the insertion under the write lock when it finds nothing.  The
  insertion may throw, and then leaves the lock as it is.\<close>

inductive get_state_step :: "thread_id \<Rightarrow> locks \<Rightarrow> locks \<Rightarrow> bool" for u where
  begin_callback: "pcs s u = At_rest \<Longrightarrow> unused s k \<Longrightarrow> can_read (map_rw s) \<Longrightarrow>
    get_state_step u s (s\<lparr>map_rw := (map_rw s)\<lparr>rd := insert u (rd (map_rw s))\<rparr>, pcs := (pcs s)(u := Map_find k j)\<rparr>)"
| find_hit: "pcs s u = Map_find k j \<Longrightarrow> smap s k \<noteq> None \<Longrightarrow>
    get_state_step u s (s\<lparr>map_rw := (map_rw s)\<lparr>rd := rd (map_rw s) - {u}\<rparr>, pcs := (pcs s)(u := Map_done k j)\<rparr>)"
| find_miss: "pcs s u = Map_find k j \<Longrightarrow> smap s k = None \<Longrightarrow>
    get_state_step u s (s\<lparr>map_rw := (map_rw s)\<lparr>rd := rd (map_rw s) - {u}\<rparr>, pcs := (pcs s)(u := Map_upgrade k j)\<rparr>)"
| upgrade: "pcs s u = Map_upgrade k j \<Longrightarrow> can_write (map_rw s) \<Longrightarrow>
    get_state_step u s (s\<lparr>map_rw := (map_rw s)\<lparr>wr := Some u\<rparr>, pcs := (pcs s)(u := Map_insert k j)\<rparr>)"
| insert_entry: "pcs s u = Map_insert k j \<Longrightarrow>
    get_state_step u s (s\<lparr>smap := (if smap s k = None then (smap s)(k \<mapsto> zero_state) else smap s),
      map_rw := (map_rw s)\<lparr>wr := None\<rparr>, pcs := (pcs s)(u := Map_done k j)\<rparr>)"
| insert_throws: "pcs s u = Map_insert k j \<Longrightarrow>
    get_state_step u s (s\<lparr>caught := caught s + 1, pcs := (pcs s)(u := At_rest)\<rparr>)"

text \<open>\<open>forget_state\<close>, on a disconnection.\<close>

inductive forget_state_step :: "thread_id \<Rightarrow> locks \<Rightarrow> locks \<Rightarrow> bool" for u where
  begin_disconnect: "pcs s u = At_rest \<Longrightarrow> unused s k \<Longrightarrow> can_write (map_rw s) \<Longrightarrow>
    forget_state_step u s (s\<lparr>map_rw := (map_rw s)\<lparr>wr := Some u\<rparr>, pcs := (pcs s)(u := Map_erase k)\<rparr>)"
| erase: "pcs s u = Map_erase k \<Longrightarrow>
    forget_state_step u s (s\<lparr>smap := (smap s)(k := None), map_rw := (map_rw s)\<lparr>wr := None\<rparr>, pcs := (pcs s)(u := At_rest)\<rparr>)"

text \<open>The three handlers after \<open>get_state\<close>.  \<open>rules_at\<close> reads through the pointer loaded under \<open>filter_lock\<close>; a step that would read
  freed rules, or write with a freed path, does not exist.\<close>

inductive handler_step :: "thread_id \<Rightarrow> locks \<Rightarrow> locks \<Rightarrow> bool" for u where
  log_start: "pcs s u = Map_done k (Do_log now) \<Longrightarrow> smap s k = Some st \<Longrightarrow>
    handler_step u s (s\<lparr>smap := (smap s)(k \<mapsto> state_begin_statement st True now), pcs := (pcs s)(u := At_rest)\<rparr>)"
| lock_access: "pcs s u = Map_done k (Do_access ev) \<Longrightarrow> can_read (filter_rw s) \<Longrightarrow>
    handler_step u s (s\<lparr>filter_rw := (filter_rw s)\<lparr>rd := insert u (rd (filter_rw s))\<rparr>, pcs := (pcs s)(u := Rules_load k (Do_access ev))\<rparr>)"
| status_other: "pcs s u = Map_done k (Do_status ev slow) \<Longrightarrow> smap s k = Some st \<Longrightarrow> \<not> is_query_command ev \<Longrightarrow>
    handler_step u s (s\<lparr>smap := (smap s)(k \<mapsto> track_current_db st ev), pcs := (pcs s)(u := At_rest)\<rparr>)"
| status_direct: "pcs s u = Map_done k (Do_status ev slow) \<Longrightarrow> smap s k = Some st \<Longrightarrow> is_query_command ev \<Longrightarrow>
    in_statement st \<Longrightarrow> cmd_mask st AND status_bit ev \<noteq> 0 \<Longrightarrow>
    handler_step u s (s\<lparr>smap := (smap s)(k \<mapsto> (if slow then track_current_db st ev else state_reset (track_current_db st ev))),
      decided := decided s @ (if slow then [(k, ev)] else []), pcs := (pcs s)(u := (if slow then Emit_load k else At_rest))\<rparr>)"
| lock_status: "pcs s u = Map_done k (Do_status ev slow) \<Longrightarrow> smap s k = Some st \<Longrightarrow> is_query_command ev \<Longrightarrow>
    \<not> (in_statement st \<and> cmd_mask st AND status_bit ev \<noteq> 0) \<Longrightarrow> can_read (filter_rw s) \<Longrightarrow>
    handler_step u s (s\<lparr>filter_rw := (filter_rw s)\<lparr>rd := insert u (rd (filter_rw s))\<rparr>, pcs := (pcs s)(u := Rules_load k (Do_status ev slow))\<rparr>)"
| load_rules: "pcs s u = Rules_load k j \<Longrightarrow>
    handler_step u s (s\<lparr>pcs := (pcs s)(u := Rules_use k j (active_ptr s))\<rparr>)"
| match_access: "pcs s u = Rules_use k (Do_access ev) p \<Longrightarrow> p \<noteq> None \<longrightarrow> rules_at s p \<noteq> None \<Longrightarrow>
    handler_step u s (s\<lparr>pcs := (pcs s)(u := Rules_matched k (Do_access ev)
      (Cmds (table_cmds (rules_at s p) (table_database ev) (table_name ev))))\<rparr>)"
| match_status: "pcs s u = Rules_use k (Do_status ev slow) p \<Longrightarrow> p \<noteq> None \<longrightarrow> rules_at s p \<noteq> None \<Longrightarrow> smap s k = Some st \<Longrightarrow>
    handler_step u s (s\<lparr>pcs := (pcs s)(u := Rules_matched k (Do_status ev slow)
      (Allowed (allowed_commands (rules_at s p) (general_thread_id ev) (status_bit ev) (track_current_db st ev))))\<rparr>)"
| unlock_access: "pcs s u = Rules_matched k (Do_access ev) (Cmds c) \<Longrightarrow> smap s k = Some st \<Longrightarrow>
    handler_step u s (s\<lparr>filter_rw := (filter_rw s)\<lparr>rd := rd (filter_rw s) - {u}\<rparr>, smap := (smap s)(k \<mapsto> apply_cmds ev c st),
      pcs := (pcs s)(u := At_rest)\<rparr>)"
| unlock_status: "pcs s u = Rules_matched k (Do_status ev slow) (Allowed c) \<Longrightarrow> smap s k = Some st \<Longrightarrow>
    traced = (c AND status_bit ev \<noteq> 0 \<and> slow) \<Longrightarrow>
    handler_step u s (s\<lparr>filter_rw := (filter_rw s)\<lparr>rd := rd (filter_rw s) - {u}\<rparr>,
      smap := (smap s)(k \<mapsto> (if traced then track_current_db st ev else state_reset (track_current_db st ev))),
      decided := decided s @ (if traced then [(k, ev)] else []), pcs := (pcs s)(u := (if traced then Emit_load k else At_rest))\<rparr>)"
| load_path: "pcs s u = Emit_load k \<Longrightarrow> handler_step u s (s\<lparr>pcs := (pcs s)(u := Emit_write k (opt_path_ptr s))\<rparr>)"
| write_event: "pcs s u = Emit_write k a \<Longrightarrow> path_heap s a \<noteq> None \<Longrightarrow> smap s k = Some st \<Longrightarrow>
    handler_step u s (s\<lparr>smap := (smap s)(k \<mapsto> state_reset st), pcs := (pcs s)(u := At_rest)\<rparr>)"

text \<open>\<open>update_filter_list\<close> with \<open>rebuild_rules_locked\<close>: the fresh rules \<open>r\<close> get an address that is free; on every failure
  the lock is given back and nothing else happens.\<close>

inductive update_list_step :: "thread_id \<Rightarrow> locks \<Rightarrow> locks \<Rightarrow> bool" for u where
  begin_set: "pcs s u = At_rest \<Longrightarrow> can_write (filter_rw s) \<Longrightarrow>
    update_list_step u s (s\<lparr>filter_rw := (filter_rw s)\<lparr>wr := Some u\<rparr>, pcs := (pcs s)(u := Set_hold r)\<rparr>)"
| set_fails: "pcs s u = Set_hold r \<Longrightarrow>
    update_list_step u s (s\<lparr>filter_rw := (filter_rw s)\<lparr>wr := None\<rparr>, pcs := (pcs s)(u := At_rest)\<rparr>)"
| swap_rules: "pcs s u = Set_hold r \<Longrightarrow> rules_heap s a = None \<Longrightarrow>
    update_list_step u s (s\<lparr>rules_heap := (rules_heap s)(a \<mapsto> r), active_ptr := Some a, pcs := (pcs s)(u := Set_free (active_ptr s))\<rparr>)"
| free_rules: "pcs s u = Set_free old \<Longrightarrow>
    update_list_step u s (s\<lparr>rules_heap := (case old of None \<Rightarrow> rules_heap s | Some a \<Rightarrow> (rules_heap s)(a := None)),
      filter_rw := (filter_rw s)\<lparr>wr := None\<rparr>, pcs := (pcs s)(u := At_rest)\<rparr>)"

text \<open>\<open>update_file_path\<close>: the assignment, which moves the text to another address unless it fits, and the new value of
  \<open>opt_file_path\<close>.  No lock is taken.\<close>

inductive update_path_step :: "thread_id \<Rightarrow> locks \<Rightarrow> locks \<Rightarrow> bool" for u where
  assign_path: "pcs s u = At_rest \<Longrightarrow> path_heap s b = None \<Longrightarrow>
    update_path_step u s (s\<lparr>path_heap := (path_heap s)(storage_ptr s := None, b \<mapsto> text), storage_ptr := b,
      pcs := (pcs s)(u := Path_assigned)\<rparr>)"
| assign_path_in_place: "pcs s u = At_rest \<Longrightarrow>
    update_path_step u s (s\<lparr>path_heap := (path_heap s)(storage_ptr s \<mapsto> text), pcs := (pcs s)(u := Path_assigned)\<rparr>)"
| publish_path: "pcs s u = Path_assigned \<Longrightarrow>
    update_path_step u s (s\<lparr>opt_path_ptr := storage_ptr s, pcs := (pcs s)(u := At_rest)\<rparr>)"

text \<open>A step of the thread \<open>u\<close> is a step of one of these functions.\<close>

inductive lstep :: "thread_id \<Rightarrow> locks \<Rightarrow> locks \<Rightarrow> bool" for u where
  in_get_state: "get_state_step u s s' \<Longrightarrow> lstep u s s'"
| in_forget_state: "forget_state_step u s s' \<Longrightarrow> lstep u s s'"
| in_handler: "handler_step u s s' \<Longrightarrow> lstep u s s'"
| in_update_list: "update_list_step u s s' \<Longrightarrow> lstep u s s'"
| in_update_path: "update_path_step u s s' \<Longrightarrow> lstep u s s'"

lemmas lstep_begin_callback = begin_callback [THEN in_get_state]
lemmas lstep_find_hit = find_hit [THEN in_get_state]
lemmas lstep_find_miss = find_miss [THEN in_get_state]
lemmas lstep_upgrade = upgrade [THEN in_get_state]
lemmas lstep_insert_entry = insert_entry [THEN in_get_state]
lemmas lstep_insert_throws = insert_throws [THEN in_get_state]
lemmas lstep_erase = erase [THEN in_forget_state]
lemmas lstep_log_start = log_start [THEN in_handler]
lemmas lstep_lock_access = lock_access [THEN in_handler]
lemmas lstep_status_other = status_other [THEN in_handler]
lemmas lstep_status_direct = status_direct [THEN in_handler]
lemmas lstep_lock_status = lock_status [THEN in_handler]
lemmas lstep_load_rules = load_rules [THEN in_handler]
lemmas lstep_match_access = match_access [THEN in_handler]
lemmas lstep_match_status = match_status [THEN in_handler]
lemmas lstep_unlock_access = unlock_access [THEN in_handler]
lemmas lstep_unlock_status = unlock_status [THEN in_handler]
lemmas lstep_load_path = load_path [THEN in_handler]
lemmas lstep_write_event = write_event [THEN in_handler]
lemmas lstep_set_fails = set_fails [THEN in_update_list]
lemmas lstep_free_rules = free_rules [THEN in_update_list]
lemmas lstep_assign_path = assign_path [THEN in_update_path]
lemmas lstep_publish_path = publish_path [THEN in_update_path]

lemmas step_elims = lstep.cases get_state_step.cases forget_state_step.cases handler_step.cases update_list_step.cases
  update_path_step.cases

definition quiet_locks :: "FilterRules option \<Rightarrow> string \<Rightarrow> state_map \<Rightarrow> locks" where
  "quiet_locks rules path m = \<lparr>filter_rw = free_lock, map_rw = free_lock,
     rules_heap = (\<lambda>a. if a = 0 then rules else None), active_ptr = (if rules = None then None else Some 0),
     path_heap = (\<lambda>a. if a = 0 then Some path else None), opt_path_ptr = 0, storage_ptr = 0, smap = m, caught = 0,
     decided = [], pcs = (\<lambda>_. At_rest)\<rparr>"

inductive lreach :: "locks \<Rightarrow> bool" where
  start: "lreach (quiet_locks rules path m)"
| step: "lreach s \<Longrightarrow> lstep u s s' \<Longrightarrow> lreach s'"

section \<open>Who holds which lock\<close>

fun reads_map :: "pc \<Rightarrow> bool" where
  "reads_map (Map_find k j) = True"
| "reads_map _ = False"

fun writes_map :: "pc \<Rightarrow> bool" where
  "writes_map (Map_insert k j) = True"
| "writes_map (Map_erase k) = True"
| "writes_map _ = False"

fun reads_rules :: "pc \<Rightarrow> bool" where
  "reads_rules (Rules_load k j) = True"
| "reads_rules (Rules_use k j p) = True"
| "reads_rules (Rules_matched k j out) = True"
| "reads_rules _ = False"

fun writes_rules :: "pc \<Rightarrow> bool" where
  "writes_rules (Set_hold r) = True"
| "writes_rules (Set_free old) = True"
| "writes_rules _ = False"

lemmas lock_guards = can_read_def can_write_def

definition map_lock_inv :: "locks \<Rightarrow> bool" where
  "map_lock_inv s \<longleftrightarrow> rd (map_rw s) = {u. reads_map (pcs s u)} \<and> (\<forall>u. writes_map (pcs s u) \<longrightarrow> wr (map_rw s) = Some u) \<and>
     (wr (map_rw s) \<noteq> None \<longrightarrow> rd (map_rw s) = {})"

definition filter_lock_inv :: "locks \<Rightarrow> bool" where
  "filter_lock_inv s \<longleftrightarrow> rd (filter_rw s) = {u. reads_rules (pcs s u)} \<and>
     (\<forall>u. wr (filter_rw s) = Some u \<longleftrightarrow> writes_rules (pcs s u)) \<and> (wr (filter_rw s) \<noteq> None \<longrightarrow> rd (filter_rw s) = {})"

lemma map_lock_inv_step: "lstep u s s' \<Longrightarrow> map_lock_inv s \<Longrightarrow> map_lock_inv s'"
  by (elim step_elims; hypsubst) (auto simp: map_lock_inv_def lock_guards, (metis option.inject writes_map.simps)+)

lemma filter_lock_inv_step: "lstep u s s' \<Longrightarrow> filter_lock_inv s \<Longrightarrow> filter_lock_inv s'"
  by (elim step_elims; hypsubst) (auto simp: filter_lock_inv_def lock_guards, (metis option.inject writes_rules.simps)+)

section \<open>What the pointers point to\<close>

abbreviation rules_now :: "locks \<Rightarrow> FilterRules option" where
  "rules_now s \<equiv> rules_at s (active_ptr s)"

definition heap_inv :: "locks \<Rightarrow> bool" where
  "heap_inv s \<longleftrightarrow> (\<forall>a. rules_heap s a \<noteq> None \<longleftrightarrow> active_ptr s = Some a \<or> (\<exists>u. pcs s u = Set_free (Some a))) \<and>
     (\<forall>u a. pcs s u = Set_free (Some a) \<longrightarrow> active_ptr s \<noteq> Some a) \<and>
     (\<forall>u k j p. pcs s u = Rules_use k j p \<longrightarrow> p = active_ptr s)"

definition connection_inv :: "locks \<Rightarrow> bool" where
  "connection_inv s \<longleftrightarrow>
     (\<forall>u v k. connection_of (pcs s u) = Some k \<longrightarrow> connection_of (pcs s v) = Some k \<longrightarrow> u = v)"

text \<open>A thread past \<open>get_state\<close> has the entry of its connection.\<close>

fun has_entry :: "pc \<Rightarrow> thd option" where
  "has_entry (Map_done k j) = Some k"
| "has_entry (Rules_load k j) = Some k"
| "has_entry (Rules_use k j p) = Some k"
| "has_entry (Rules_matched k j out) = Some k"
| "has_entry (Emit_load k) = Some k"
| "has_entry (Emit_write k a) = Some k"
| "has_entry _ = None"

definition entry_inv :: "locks \<Rightarrow> bool" where
  "entry_inv s \<longleftrightarrow> (\<forall>u k. has_entry (pcs s u) = Some k \<longrightarrow> smap s k \<noteq> None)"

lemma has_entry_connection: "has_entry c = Some k \<Longrightarrow> connection_of c = Some k"
  by (cases c) simp_all

text \<open>What a step of one thread may touch: its own program counter, and the entry of its connection.\<close>

lemma lstep_own:
  assumes "lstep u s s'"
  shows "\<exists>c. pcs s' = (pcs s)(u := c) \<and>
      (connection_of c = None \<or> connection_of c = connection_of (pcs s u) \<or> (\<exists>k. connection_of c = Some k \<and> unused s k))"
    and "smap s' k \<noteq> smap s k \<Longrightarrow> connection_of (pcs s u) = Some k"
    and "smap s' k = None \<Longrightarrow> smap s k \<noteq> None \<Longrightarrow> pcs s u = Map_erase k"
  using assms by - (elim step_elims; hypsubst; auto split: if_splits)+

lemma connection_inv_step:
  assumes "lstep u s s'" and "connection_inv s"
  shows "connection_inv s'"
proof -
  obtain c where "pcs s' = (pcs s)(u := c)" "connection_of c = None \<or> connection_of c = connection_of (pcs s u) \<or>
      (\<exists>k. connection_of c = Some k \<and> unused s k)"
    using lstep_own(1) [OF assms(1)] by blast
  moreover have "connection_of (pcs s v) = Some k \<Longrightarrow> connection_of (pcs s w) = Some k \<Longrightarrow> v = w" for v w k
    using assms(2) unfolding connection_inv_def by blast
  ultimately show ?thesis unfolding connection_inv_def unused_def by (smt (verit) fun_upd_apply option.distinct(1) option.inject)
qed

lemma entry_inv_step:
  assumes "lstep u s s'" and "entry_inv s" and "connection_inv s"
  shows "entry_inv s'"
proof -
  have before: "has_entry (pcs s u) = Some k \<Longrightarrow> smap s k \<noteq> None" for k
    using assms(2) by (auto simp: entry_inv_def)
  have own: "has_entry (pcs s' u) = Some k \<Longrightarrow> smap s' k \<noteq> None" for k
    using assms(1) before by (elim step_elims; hypsubst) (auto split: if_splits)
  have other: "smap s' k \<noteq> None" if "v \<noteq> u" "has_entry (pcs s v) = Some k" for v k
  proof
    assume none: "smap s' k = None"
    have "smap s k \<noteq> None" using assms(2) that(2) by (auto simp: entry_inv_def)
    then have "connection_of (pcs s u) = Some k" using lstep_own(3) [OF assms(1) none] by simp
    then show False using assms(3) that has_entry_connection [OF that(2)] by (auto simp: connection_inv_def)
  qed
  obtain c where "pcs s' = (pcs s)(u := c)" using lstep_own(1) [OF assms(1)] by blast
  then have same: "pcs s' v = pcs s v" if "v \<noteq> u" for v using that by simp
  show ?thesis unfolding entry_inv_def
  proof (intro allI impI)
    fix v k
    assume "has_entry (pcs s' v) = Some k"
    then show "smap s' k \<noteq> None" using own other [of v k] same [of v] by (cases "v = u") auto
  qed
qed

text \<open>While a thread reads the rules nobody changes them.\<close>

lemma rules_stable:
  assumes "lstep u s s'" and "filter_lock_inv s" and "reads_rules (pcs s v)"
  shows "active_ptr s' = active_ptr s \<and> rules_heap s' = rules_heap s"
proof -
  have "\<not> writes_rules (pcs s u)" using assms(2,3) by (auto simp: filter_lock_inv_def)
  with assms(1) show ?thesis by (elim step_elims; hypsubst) (auto)
qed

lemma heap_frame:
  assumes "heap_inv s" and "pcs s' = (pcs s)(u := pcs s' u)" and "active_ptr s' = active_ptr s" and "rules_heap s' = rules_heap s"
    and "\<forall>a. pcs s u \<noteq> Set_free (Some a) \<and> pcs s' u \<noteq> Set_free (Some a)"
    and "\<forall>k j p. pcs s' u = Rules_use k j p \<longrightarrow> p = active_ptr s"
  shows "heap_inv s'"
proof -
  have free: "pcs s' v = Set_free (Some a) \<longleftrightarrow> pcs s v = Set_free (Some a)" for v a
    using assms(2,5) by (metis fun_upd_apply)
  have "pcs s' v = Rules_use k j p \<Longrightarrow> p = active_ptr s" for v k j p
    using assms(1,2,6) unfolding heap_inv_def by (metis fun_upd_apply)
  then show ?thesis using assms(1) free unfolding heap_inv_def assms(3,4) by simp
qed

lemma heap_inv_update_list:
  assumes "update_list_step u s s'" and "filter_lock_inv s" and "heap_inv s"
  shows "heap_inv s'"
  using assms
proof (induction rule: update_list_step.induct)
  case (swap_rules s r a)
  have none: "pcs s v \<noteq> Set_free old" for v old
  proof
    assume free: "pcs s v = Set_free old"
    then have "wr (filter_rw s) = Some v" "wr (filter_rw s) = Some u"
      using swap_rules unfolding filter_lock_inv_def by auto
    then show False using free swap_rules by simp
  qed
  have "wr (filter_rw s) = Some u" using swap_rules unfolding filter_lock_inv_def by simp
  then have "\<not> reads_rules (pcs s v)" for v using swap_rules(3) unfolding filter_lock_inv_def by blast
  then have "pcs s v \<noteq> Rules_use k j p" for v k j p by (metis reads_rules.simps(2))
  moreover have "active_ptr s \<noteq> Some a" using swap_rules unfolding heap_inv_def by metis
  ultimately show ?case using swap_rules none by (auto simp: heap_inv_def)
next
  case (free_rules s old)
  let ?s' = "s\<lparr>rules_heap := (case old of None \<Rightarrow> rules_heap s | Some a \<Rightarrow> (rules_heap s)(a := None)),
      filter_rw := (filter_rw s)\<lparr>wr := None\<rparr>, pcs := (pcs s)(u := At_rest)\<rparr>"
  have "writes_rules (pcs s v) \<Longrightarrow> v = u" for v
    using free_rules(1,2) unfolding filter_lock_inv_def by (metis option.inject writes_rules.simps(2))
  then have only: "pcs s v = Set_free old' \<Longrightarrow> v = u" for v old' by simp
  then have none: "pcs ?s' v \<noteq> Set_free old'" for v old' by (cases "v = u") (simp, fastforce)
  have old: "old = Some a \<Longrightarrow> active_ptr s \<noteq> Some a" for a using free_rules unfolding heap_inv_def by blast
  have "rules_heap ?s' a \<noteq> None \<longleftrightarrow> active_ptr ?s' = Some a" for a
  proof -
    have "(\<exists>v. pcs s v = Set_free (Some a)) \<longleftrightarrow> old = Some a"
    proof
      assume "\<exists>v. pcs s v = Set_free (Some a)"
      then obtain v where v: "pcs s v = Set_free (Some a)" ..
      then show "old = Some a" using only [OF v] free_rules(1) by simp
    qed (use free_rules(1) in blast)
    then have "rules_heap s a \<noteq> None \<longleftrightarrow> active_ptr s = Some a \<or> old = Some a"
      using free_rules(3) unfolding heap_inv_def by presburger
    then show ?thesis using old by (auto split: option.split)
  qed
  moreover have "pcs ?s' v = Rules_use k j p \<Longrightarrow> p = active_ptr ?s'" for v k j p
    using free_rules(3) unfolding heap_inv_def by (simp split: if_splits)
  ultimately show ?case unfolding heap_inv_def using none by blast
qed (erule heap_frame [where u = u]; simp)+

lemma heap_inv_step:
  assumes "lstep u s s'" and "filter_lock_inv s" and "heap_inv s"
  shows "heap_inv s'"
  using assms(1)
proof (cases rule: lstep.cases)
  case in_update_list
  then show ?thesis using heap_inv_update_list assms(2,3) by blast
next
  case in_get_state
  then show ?thesis using heap_frame [OF assms(3), where u = u] by (auto elim!: get_state_step.cases)
next
  case in_forget_state
  then show ?thesis using heap_frame [OF assms(3), where u = u] by (auto elim!: forget_state_step.cases)
next
  case in_handler
  then show ?thesis using heap_frame [OF assms(3), where u = u and s' = s'] by (auto elim!: handler_step.cases)
next
  case in_update_path
  then show ?thesis using heap_frame [OF assms(3), where u = u] by (auto elim!: update_path_step.cases)
qed

text \<open>A statement that reads the rules at its end is a query; \<open>GENERAL_LOG\<close> never reads them.\<close>

fun log_reads_rules :: "pc \<Rightarrow> bool" where
  "log_reads_rules (Rules_load k (Do_log now)) = True"
| "log_reads_rules (Rules_use k (Do_log now) p) = True"
| "log_reads_rules _ = False"

fun ending_statement :: "pc \<Rightarrow> mysql_event_general option" where
  "ending_statement (Rules_load k (Do_status ev slow)) = Some ev"
| "ending_statement (Rules_use k (Do_status ev slow) p) = Some ev"
| "ending_statement (Rules_matched k (Do_status ev slow) out) = Some ev"
| "ending_statement _ = None"

definition query_inv :: "locks \<Rightarrow> bool" where
  "query_inv s \<longleftrightarrow> (\<forall>u. \<not> log_reads_rules (pcs s u) \<and> (\<forall>ev. ending_statement (pcs s u) = Some ev \<longrightarrow> is_query_command ev))"

lemma query_inv_step:
  assumes "lstep u s s'" and "query_inv s"
  shows "query_inv s'"
proof -
  have before: "\<not> log_reads_rules (pcs s v)" "ending_statement (pcs s v) = Some ev \<Longrightarrow> is_query_command ev" for v ev
    using assms(2) by (auto simp: query_inv_def)
  have own: "\<not> log_reads_rules (pcs s' u) \<and> (ending_statement (pcs s' u) = Some ev \<longrightarrow> is_query_command ev)" for ev
  proof (cases "\<exists>k j. pcs s u = Rules_load k j")
    case True
    then obtain k j where "pcs s u = Rules_load k j" by blast
    then show ?thesis using assms(1) before [of u] by (cases j) (elim step_elims; hypsubst; auto)+
  next
    case False
    then show ?thesis using assms(1) before [of u] by (elim step_elims; hypsubst) (auto split: if_splits)
  qed
  obtain c where "pcs s' = (pcs s)(u := c)" using lstep_own(1) [OF assms(1)] by blast
  then show ?thesis using own before unfolding query_inv_def by (metis fun_upd_apply)
qed

text \<open>What a thread has read off the rules is what the rules in force give.\<close>

fun read_off :: "FilterRules option \<Rightarrow> StatementState \<Rightarrow> job \<Rightarrow> outcome option" where
  "read_off rules st (Do_log now) = None"
| "read_off rules st (Do_access ev) = Some (Cmds (table_cmds rules (table_database ev) (table_name ev)))"
| "read_off rules st (Do_status ev slow) =
     Some (Allowed (allowed_commands rules (general_thread_id ev) (status_bit ev) (track_current_db st ev)))"

definition matched_inv :: "locks \<Rightarrow> bool" where
  "matched_inv s \<longleftrightarrow> (\<forall>u k j out st. pcs s u = Rules_matched k j out \<longrightarrow> smap s k = Some st \<longrightarrow> read_off (rules_now s) st j = Some out)"

lemma matched_inv_step:
  assumes "lstep u s s'" and "filter_lock_inv s" and "heap_inv s" and "connection_inv s" and "matched_inv s"
  shows "matched_inv s'"
proof -
  have "pcs s u = Rules_use k j p \<Longrightarrow> p = active_ptr s" for k j p
    using assms(3) unfolding heap_inv_def by blast
  then have own: "pcs s' u = Rules_matched k j out \<Longrightarrow> smap s' k = Some st \<Longrightarrow> read_off (rules_now s') st j = Some out" for k j out st
    using assms(1) by (elim step_elims; hypsubst) (auto simp: rules_at_def split: if_splits option.splits)
  obtain c where c: "pcs s' = (pcs s)(u := c)" using lstep_own(1) [OF assms(1)] by blast
  have other: "read_off (rules_now s') st j = Some out"
    if "v \<noteq> u" "pcs s v = Rules_matched k j out" "smap s' k = Some st" for v k j out st
  proof -
    have "connection_of (pcs s u) \<noteq> Some k"
      using assms(4) that(1,2) unfolding connection_inv_def by (metis connection_of.simps(8))
    then have "smap s k = Some st" using lstep_own(2) [OF assms(1), of k] that(3) by metis
    moreover have "rules_now s' = rules_now s"
      using rules_stable [OF assms(1,2), of v] that(2) by (simp add: rules_at_def split: option.split)
    ultimately show ?thesis using assms(5) that(2) unfolding matched_inv_def by auto
  qed
  show ?thesis unfolding matched_inv_def
  proof (intro allI impI)
    fix v k j out st
    assume "pcs s' v = Rules_matched k j out" "smap s' k = Some st"
    then show "read_off (rules_now s') st j = Some out"
      using own other [of v k j out st] c by (cases "v = u") auto
  qed
qed

definition locks_inv :: "locks \<Rightarrow> bool" where
  "locks_inv s \<longleftrightarrow> map_lock_inv s \<and> filter_lock_inv s \<and> heap_inv s \<and> connection_inv s \<and> entry_inv s \<and> query_inv s \<and> matched_inv s"

lemma locks_inv_start: "locks_inv (quiet_locks rules path m)"
  by (simp add: locks_inv_def map_lock_inv_def filter_lock_inv_def heap_inv_def connection_inv_def entry_inv_def
      query_inv_def matched_inv_def quiet_locks_def free_lock_def)

lemma locks_inv_step: "lstep u s s' \<Longrightarrow> locks_inv s \<Longrightarrow> locks_inv s'"
  unfolding locks_inv_def
  by (blast intro: map_lock_inv_step filter_lock_inv_step heap_inv_step connection_inv_step entry_inv_step query_inv_step
      matched_inv_step)

lemma lreach_inv: "lreach s \<Longrightarrow> locks_inv s"
  by (induction rule: lreach.induct) (auto simp: locks_inv_start intro: locks_inv_step)

section \<open>The handlers as atomic steps\<close>

text \<open>What the callbacks do when they are run one after the other: the entries as the handlers see
  them (a missing entry reads as a zero one), the rules in force, and the statements found to be traced.\<close>

record atomic =
  entries :: "thd \<Rightarrow> StatementState"
  in_force :: "FilterRules option"
  traced :: "(thd \<times> mysql_event_general) list"

datatype act = Run thd job | Forget thd | Set_rules FilterRules

fun job_effect :: "FilterRules option \<Rightarrow> job \<Rightarrow> StatementState \<Rightarrow> StatementState \<times> mysql_event_general option" where
  "job_effect rules (Do_log now) st = (state_begin_statement st True now, None)"
| "job_effect rules (Do_access ev) st = (access_table rules ev st, None)"
| "job_effect rules (Do_status ev slow) st =
     (let st1 = track_current_db st ev in
      if \<not> is_query_command ev then (st1, None)
      else (state_reset st1,
            if allowed_commands rules (general_thread_id ev) (status_bit ev) st1 AND status_bit ev \<noteq> 0 \<and> slow
            then Some ev else None))"

fun perform :: "act \<Rightarrow> atomic \<Rightarrow> atomic" where
  "perform (Run k j) a = (let (st, out) = job_effect (in_force a) j (entries a k) in
     a\<lparr>entries := (entries a)(k := st), traced := traced a @ (case out of None \<Rightarrow> [] | Some ev \<Rightarrow> [(k, ev)])\<rparr>)"
| "perform (Forget k) a = a\<lparr>entries := (entries a)(k := zero_state)\<rparr>"
| "perform (Set_rules r) a = a\<lparr>in_force := Some r\<rparr>"

text \<open>A statement that is being written out is over; its entry counts as reset.\<close>

fun emitting :: "pc \<Rightarrow> thd option" where
  "emitting (Emit_load k) = Some k"
| "emitting (Emit_write k a) = Some k"
| "emitting _ = None"

definition entry_view :: "locks \<Rightarrow> thd \<Rightarrow> StatementState" where
  "entry_view s k = (if \<exists>u. emitting (pcs s u) = Some k then state_reset (entry_state (smap s k)) else entry_state (smap s k))"

definition atomic_view :: "locks \<Rightarrow> atomic" where
  "atomic_view s = \<lparr>entries = entry_view s, in_force = rules_now s, traced = decided s\<rparr>"

text \<open>What a thread still has to do, and the steps that do it.\<close>

fun to_do :: "pc \<Rightarrow> act option" where
  "to_do (Map_find k j) = Some (Run k j)"
| "to_do (Map_upgrade k j) = Some (Run k j)"
| "to_do (Map_insert k j) = Some (Run k j)"
| "to_do (Map_done k j) = Some (Run k j)"
| "to_do (Map_erase k) = Some (Forget k)"
| "to_do (Rules_load k j) = Some (Run k j)"
| "to_do (Rules_use k j p) = Some (Run k j)"
| "to_do (Rules_matched k j out) = Some (Run k j)"
| "to_do (Set_hold r) = Some (Set_rules r)"
| "to_do _ = None"

fun gives_up :: "pc \<Rightarrow> pc \<Rightarrow> bool" where
  "gives_up (Map_insert k j) At_rest = True"
| "gives_up (Set_hold r) At_rest = True"
| "gives_up _ _ = False"

definition commits :: "pc \<Rightarrow> pc \<Rightarrow> bool" where
  "commits c c' \<longleftrightarrow> to_do c \<noteq> None \<and> to_do c' = None \<and> \<not> gives_up c c'"

lemma emitting_connection: "emitting c = Some k \<Longrightarrow> connection_of c = Some k"
  by (cases c) simp_all

definition own_view :: "pc \<Rightarrow> state_map \<Rightarrow> thd \<Rightarrow> StatementState" where
  "own_view c m k = (if emitting c = Some k then state_reset (entry_state (m k)) else entry_state (m k))"

lemma entry_view_own:
  assumes "connection_inv s" and "connection_of (pcs s u) = Some k"
  shows "entry_view s k = own_view (pcs s u) (smap s) k"
proof -
  have "(\<exists>v. emitting (pcs s v) = Some k) \<longleftrightarrow> emitting (pcs s u) = Some k"
    using assms emitting_connection unfolding connection_inv_def by metis
  then show ?thesis by (simp add: entry_view_def own_view_def)
qed

lemma emitting_step: "lstep u s s' \<Longrightarrow> emitting (pcs s' u) = Some k \<Longrightarrow> connection_of (pcs s u) = Some k"
  by (elim step_elims; hypsubst) (auto split: if_splits)

text \<open>A step changes the view of the connection it works for, if any.\<close>

lemma entry_view_step:
  assumes "lstep u s s'" and "connection_inv s"
  shows "entry_view s' = (case connection_of (pcs s u) of None \<Rightarrow> entry_view s
      | Some k \<Rightarrow> (entry_view s)(k := own_view (pcs s' u) (smap s') k))"
proof -
  obtain c where c: "pcs s' = (pcs s)(u := c)" using lstep_own(1) [OF assms(1)] by blast
  have other: "entry_view s' k = entry_view s k" if "connection_of (pcs s u) \<noteq> Some k" for k
  proof -
    have "emitting (pcs s' v) = Some k \<longleftrightarrow> emitting (pcs s v) = Some k" for v
      using c that emitting_connection emitting_step [OF assms(1)] by (cases "v = u") auto
    moreover have "smap s' k = smap s k" using lstep_own(2) [OF assms(1)] that by blast
    ultimately show ?thesis by (simp add: entry_view_def)
  qed
  have own: "entry_view s' k = own_view (pcs s' u) (smap s') k" if "connection_of (pcs s u) = Some k" for k
  proof -
    have "v = u" if "emitting (pcs s' v) = Some k" for v
      using c that \<open>connection_of (pcs s u) = Some k\<close> emitting_connection [of "pcs s v" k] assms(2)
      unfolding connection_inv_def by (metis fun_upd_apply)
    then show ?thesis unfolding entry_view_def own_view_def by metis
  qed
  show ?thesis using other own by (auto split: option.split)
qed

lemma state_reset_twice [simp]: "state_reset (state_reset st) = state_reset st"
  by (simp add: state_reset_def)

text \<open>The rules in force change at the one step that publishes the new ones.\<close>

lemma rules_now_step:
  assumes "lstep u s s'" and "heap_inv s"
  shows "rules_now s' = (case (pcs s u, pcs s' u) of (Set_hold r, Set_free old) \<Rightarrow> Some r | _ \<Rightarrow> rules_now s)"
proof (cases "\<exists>old. pcs s u = Set_free old")
  case True
  then obtain old where old: "pcs s u = Set_free old" ..
  then have "old = Some a \<Longrightarrow> active_ptr s \<noteq> Some a" for a using assms(2) unfolding heap_inv_def by blast
  then show ?thesis using assms(1) old by (elim step_elims; hypsubst) (auto simp: rules_at_def split: option.split)
next
  case False
  then show ?thesis using assms(1) by (elim step_elims; hypsubst) (auto simp: rules_at_def split: option.split)
qed

lemma allowed_by_tables:
  "in_statement st \<Longrightarrow> cmd_mask st AND b \<noteq> 0 \<Longrightarrow> allowed_commands rules conn_id b st AND b \<noteq> 0"
  by (simp add: allowed_commands_def Let_def)

text \<open>One connection under one step: its view and the traced statements.\<close>

definition run_own :: "locks \<Rightarrow> pc \<Rightarrow> thd \<Rightarrow> atomic" where
  "run_own s c k = perform (the (to_do c)) \<lparr>entries = own_view c (smap s), in_force = rules_now s, traced = decided s\<rparr>"

lemma own_step:
  assumes "lstep u s s'" and "locks_inv s" and "connection_of (pcs s u) = Some k"
  shows "(own_view (pcs s' u) (smap s') k, decided s') =
    (if commits (pcs s u) (pcs s' u) then (entries (run_own s (pcs s u) k) k, traced (run_own s (pcs s u) k))
     else (own_view (pcs s u) (smap s) k, decided s))"
proof -
  have query: "ending_statement (pcs s u) = Some ev \<Longrightarrow> is_query_command ev" for ev
    using assms(2) by (auto simp: locks_inv_def query_inv_def)
  have matched: "pcs s u = Rules_matched k j out \<Longrightarrow> smap s k = Some st \<Longrightarrow> read_off (rules_now s) st j = Some out" for k j out st
    using assms(2) by (auto simp: locks_inv_def matched_inv_def)
  note defs = own_view_def run_own_def commits_def entry_state_def Let_def
  show ?thesis
    using assms(1)
  proof (cases rule: lstep.cases)
    case in_handler
    then show ?thesis using assms(3) query matched
    proof (induction rule: handler_step.induct)
      case (unlock_access s k' ev c st)
      then show ?case
        using unlock_access(5) [of k' "Do_access ev" "Cmds c" st] by (auto simp: defs access_table_cmds)
    next
      case (unlock_status s k' ev slow c st traced)
      then show ?case
        using unlock_status(5) [of ev] unlock_status(6) [of k' "Do_status ev slow" "Allowed c" st] by (auto simp: defs)
    next
      case (status_direct s k' ev slow st)
      then show ?case using allowed_by_tables [of "track_current_db st ev" "status_bit ev"] by (auto simp: defs)
    qed (auto simp: defs)
  qed (use assms(3) in \<open>auto elim!: get_state_step.cases forget_state_step.cases update_list_step.cases update_path_step.cases simp: defs\<close>)
qed

lemma idle_step:
  assumes "lstep u s s'" and "connection_of (pcs s u) = None"
  shows "decided s' = decided s \<and> (commits (pcs s u) (pcs s' u) \<longrightarrow> (\<exists>r old. pcs s u = Set_hold r \<and> pcs s' u = Set_free old))"
    and "pcs s u = Set_hold r \<and> pcs s' u = Set_free old \<Longrightarrow> commits (pcs s u) (pcs s' u)"
  using assms by (elim step_elims; hypsubst) (auto simp: commits_def)

lemma pending_connection:
  "to_do c = Some (Run k j) \<Longrightarrow> connection_of c = Some k" "to_do c = Some (Forget k) \<Longrightarrow> connection_of c = Some k"
  "to_do c = Some (Set_rules r) \<Longrightarrow> c = Set_hold r"
  by (cases c; simp)+

lemma perform_own:
  assumes "to_do c = Some a" and "connection_of c = Some k" and "entry_view s k = own_view c (smap s) k"
  shows "perform a (atomic_view s) = \<lparr>entries = (entry_view s)(k := entries (run_own s c k) k), in_force = rules_now s,
    traced = traced (run_own s c k)\<rparr>"
proof (cases a)
  case (Run k' j)
  then have "k' = k" using pending_connection(1) [of c k' j] assms(1,2) by simp
  then show ?thesis using assms(1,3) Run by (simp add: atomic_view_def run_own_def split: prod.split)
next
  case (Forget k')
  then have "k' = k" using pending_connection(2) [of c k'] assms(1,2) by simp
  then show ?thesis using assms(1,3) Forget by (simp add: atomic_view_def run_own_def)
next
  case (Set_rules r)
  then show ?thesis using pending_connection(3) [of c r] assms(1,2) by simp
qed

lemma atomic_step:
  assumes "lstep u s s'" and "locks_inv s"
  shows "atomic_view s' = (if commits (pcs s u) (pcs s' u) then perform (the (to_do (pcs s u))) (atomic_view s) else atomic_view s)"
proof -
  have conn: "connection_inv s" and heap: "heap_inv s" using assms(2) by (auto simp: locks_inv_def)
  note rules = rules_now_step [OF assms(1) heap]
  note entries = entry_view_step [OF assms(1) conn]
  show ?thesis
  proof (cases "connection_of (pcs s u)")
    case None
    then have "entry_view s' = entry_view s" using entries by simp
    then show ?thesis
      using idle_step [OF assms(1) None] rules by (auto simp: atomic_view_def split: pc.splits)
  next
    case (Some k)
    have same: "rules_now s' = rules_now s" using rules Some by (cases "pcs s u") simp_all
    note own = own_step [OF assms Some] and view = entry_view_own [OF conn Some]
    show ?thesis
    proof (cases "commits (pcs s u) (pcs s' u)")
      case True
      then obtain a where a: "to_do (pcs s u) = Some a" by (auto simp: commits_def)
      show ?thesis using own True perform_own [OF a Some view] a entries same Some by (simp add: atomic_view_def)
    next
      case False
      then show ?thesis using own view entries same Some by (simp add: atomic_view_def fun_upd_idem)
    qed
  qed
qed

section \<open>Progress\<close>

definition moves :: "locks \<Rightarrow> thread_id \<Rightarrow> bool" where
  "moves s u \<longleftrightarrow> (\<exists>s'. lstep u s s')"

lemma movesI: "lstep u s s' \<Longrightarrow> moves s u"
  by (auto simp: moves_def)

lemma moves_freely:
  "pcs s u = Map_insert k j \<Longrightarrow> moves s u" "pcs s u = Map_erase k \<Longrightarrow> moves s u" "pcs s u = Rules_load k j \<Longrightarrow> moves s u"
  "pcs s u = Emit_load k \<Longrightarrow> moves s u" "pcs s u = Set_hold r \<Longrightarrow> moves s u" "pcs s u = Set_free old \<Longrightarrow> moves s u"
  "pcs s u = Path_assigned \<Longrightarrow> moves s u"
  by (erule movesI [OF lstep_insert_entry] movesI [OF lstep_erase] movesI [OF lstep_load_rules] movesI [OF lstep_load_path] movesI [OF lstep_set_fails]
      movesI [OF lstep_free_rules] movesI [OF lstep_publish_path])+

lemma moves_unguarded:
  assumes "locks_inv s" and "\<forall>k a. pcs s u = Emit_write k a \<longrightarrow> path_heap s a \<noteq> None"
    and "\<forall>k j. pcs s u \<noteq> At_rest \<and> pcs s u \<noteq> Map_upgrade k j \<and> pcs s u \<noteq> Map_done k j"
  shows "moves s u"
proof -
  have entry: "has_entry (pcs s u) = Some k \<Longrightarrow> \<exists>st. smap s k = Some st" for k
    using assms(1) by (auto simp: locks_inv_def entry_inv_def)
  have matched: "pcs s u = Rules_matched k j out \<Longrightarrow> smap s k = Some st \<Longrightarrow> read_off (rules_now s) st j = Some out" for k j out st
    using assms(1) by (auto simp: locks_inv_def matched_inv_def)
  show ?thesis
  proof (cases "pcs s u")
    case (Map_find k j)
    then show ?thesis unfolding moves_def using lstep_find_hit lstep_find_miss by (cases "smap s k") blast+
  next
    case (Rules_use k j p)
    then have p: "p \<noteq> None \<longrightarrow> rules_at s p \<noteq> None"
      using assms(1) unfolding locks_inv_def heap_inv_def rules_at_def by (auto split: option.splits)
    obtain st where st: "smap s k = Some st" using entry Rules_use by auto
    show ?thesis
    proof (cases j)
      case (Do_log now)
      then show ?thesis using assms(1) Rules_use by (auto simp: locks_inv_def query_inv_def dest!: spec [of _ u])
    next
      case (Do_access ev)
      then show ?thesis unfolding moves_def using lstep_match_access [OF _ p] Rules_use by blast
    next
      case (Do_status ev slow)
      then show ?thesis unfolding moves_def using lstep_match_status [OF _ p st] Rules_use by blast
    qed
  next
    case (Rules_matched k j out)
    obtain st where st: "smap s k = Some st" using entry Rules_matched by auto
    have out: "read_off (rules_now s) st j = Some out" by (rule matched [OF Rules_matched st])
    show ?thesis
    proof (cases j)
      case (Do_status ev slow)
      then obtain c where "out = Allowed c" using out by auto
      then show ?thesis unfolding moves_def using lstep_unlock_status [OF _ st refl] Rules_matched Do_status by blast
    qed (use out lstep_unlock_access [OF _ st] Rules_matched in \<open>auto simp: moves_def\<close>)
  next
    case (Emit_write k a)
    then show ?thesis unfolding moves_def using lstep_write_event entry assms(2) by fastforce
  qed (use assms(3) in \<open>auto intro: moves_freely\<close>)
qed

text \<open>As long as no exception left \<open>get_state\<close>, the holder of \<open>state_map_lock\<close> is about to give it back.\<close>

definition map_owner_inv :: "locks \<Rightarrow> bool" where
  "map_owner_inv s \<longleftrightarrow> (caught s = 0 \<longrightarrow> (\<forall>u. wr (map_rw s) = Some u \<longrightarrow> writes_map (pcs s u)))"

lemma map_owner_inv_step: "lstep u s s' \<Longrightarrow> map_owner_inv s \<Longrightarrow> map_owner_inv s'"
  by (elim step_elims; hypsubst) (auto simp: map_owner_inv_def lock_guards)

lemma lreach_map_owner: "lreach s \<Longrightarrow> map_owner_inv s"
  by (induction rule: lreach.induct) (auto simp: map_owner_inv_def quiet_locks_def free_lock_def intro: map_owner_inv_step [unfolded map_owner_inv_def, rule_format])

text \<open>A bound on the own steps of a callback.\<close>

fun rank :: "pc \<Rightarrow> nat" where
  "rank (Map_find k j) = 9"
| "rank (Map_upgrade k j) = 8"
| "rank (Map_insert k j) = 7"
| "rank (Map_done k j) = 6"
| "rank (Rules_load k j) = 5"
| "rank (Rules_use k j p) = 4"
| "rank (Rules_matched k j out) = 3"
| "rank (Emit_load k) = 2"
| "rank (Emit_write k a) = 1"
| "rank (Set_hold r) = 2"
| "rank (Set_free old) = 1"
| "rank (Map_erase k) = 1"
| "rank Path_assigned = 1"
| "rank At_rest = 0"

lemma rank_step: "lstep u s s' \<Longrightarrow> pcs s u \<noteq> At_rest \<Longrightarrow> rank (pcs s' u) < rank (pcs s u)"
  by (elim step_elims; hypsubst) (auto split: if_splits)

lemma rank_bound: "rank c \<le> 9" "rank c = 0 \<longleftrightarrow> c = At_rest"
  by (cases c; simp)+

lemma active_finite: "lreach s \<Longrightarrow> finite {u. pcs s u \<noteq> At_rest}"
proof (induction rule: lreach.induct)
  case (step s u s')
  obtain c where "pcs s' = (pcs s)(u := c)" using lstep_own(1) [OF step(2)] by blast
  then have "{u. pcs s' u \<noteq> At_rest} \<subseteq> insert u {u. pcs s u \<noteq> At_rest}" by auto
  then show ?case using step(3) finite_subset by blast
qed (simp add: quiet_locks_def)

text \<open>Steps of threads that are in a callback already.\<close>

definition busy_step :: "locks \<Rightarrow> locks \<Rightarrow> bool" where
  "busy_step s s' \<longleftrightarrow> (\<exists>u. pcs s u \<noteq> At_rest \<and> lstep u s s')"

definition remaining :: "locks \<Rightarrow> nat" where
  "remaining s = (\<Sum>u\<in>{u. pcs s u \<noteq> At_rest}. rank (pcs s u))"

lemma remaining_step:
  assumes "busy_step s s'" and "finite {u. pcs s u \<noteq> At_rest}"
  shows "remaining s' < remaining s"
proof -
  obtain u where u: "pcs s u \<noteq> At_rest" "lstep u s s'" using assms(1) by (auto simp: busy_step_def)
  obtain c where c: "pcs s' = (pcs s)(u := c)" using lstep_own(1) [OF u(2)] by blast
  let ?A = "{u. pcs s u \<noteq> At_rest}"
  have "remaining s' = (\<Sum>v\<in>?A. rank (pcs s' v))"
    unfolding remaining_def using assms(2) u(1) c rank_bound(2)
    by (intro sum.mono_neutral_left) auto
  also have "\<dots> < remaining s"
    unfolding remaining_def
  proof (rule sum_strict_mono_ex1 [OF assms(2)])
    show "\<forall>v\<in>?A. rank (pcs s' v) \<le> rank (pcs s v)" using c rank_step [OF u(2,1)] by auto
    show "\<exists>v\<in>?A. rank (pcs s' v) < rank (pcs s v)" using u rank_step [OF u(2,1)] by blast
  qed
  finally show ?thesis .
qed

lemma busy_reach: "lreach s \<Longrightarrow> busy_step s s' \<Longrightarrow> lreach s'"
  using lreach.step by (auto simp: busy_step_def)

lemma remaining_run: "lreach s \<Longrightarrow> (busy_step ^^ n) s s' \<Longrightarrow> remaining s' + n \<le> remaining s \<and> lreach s'"
proof (induction n arbitrary: s')
  case (Suc n)
  obtain t where t: "(busy_step ^^ n) s t" "busy_step t s'" using Suc.prems(2) by auto
  have reach: "lreach t" using Suc.IH [OF Suc.prems(1) t(1)] by blast
  have "remaining s' < remaining t" by (rule remaining_step [OF t(2) active_finite [OF reach]])
  then show ?case using Suc.IH [OF Suc.prems(1) t(1)] busy_reach [OF reach t(2)] by simp
qed simp

lemma remaining_bound: "remaining s \<le> 9 * card {u. pcs s u \<noteq> At_rest}"
  unfolding remaining_def using sum_bounded_above [of "{u. pcs s u \<noteq> At_rest}" "\<lambda>u. rank (pcs s u)" 9] rank_bound(1)
  by (simp add: mult.commute)

text \<open>A thread that cannot move waits for a lock whose holder can.\<close>

lemma someone_moves:
  assumes inv: "locks_inv s" and owner: "map_owner_inv s" and "caught s = 0"
    and path: "\<And>u k a. pcs s u = Emit_write k a \<Longrightarrow> path_heap s a \<noteq> None"
    and busy: "pcs s u \<noteq> At_rest"
  shows "\<exists>v. pcs s v \<noteq> At_rest \<and> moves s v"
proof -
  have lm: "map_lock_inv s" and lf: "filter_lock_inv s" and ei: "entry_inv s" using inv by (auto simp: locks_inv_def)
  have free: "\<exists>v. pcs s v \<noteq> At_rest \<and> moves s v"
    if "\<forall>k j. pcs s v \<noteq> At_rest \<and> pcs s v \<noteq> Map_upgrade k j \<and> pcs s v \<noteq> Map_done k j" for v
    using moves_unguarded [OF inv _ that] path that by blast
  show ?thesis
  proof (cases "\<forall>k j. pcs s u \<noteq> At_rest \<and> pcs s u \<noteq> Map_upgrade k j \<and> pcs s u \<noteq> Map_done k j")
    case False
    then consider k j where "pcs s u = Map_upgrade k j" | k j where "pcs s u = Map_done k j" using busy by blast
    then show ?thesis
    proof cases
      case (1 k j)
      show ?thesis
      proof (cases "can_write (map_rw s)")
        case True
        then show ?thesis using 1 lstep_upgrade [OF 1] busy unfolding moves_def by blast
      next
        case no: False
        have "\<exists>v. writes_map (pcs s v) \<or> reads_map (pcs s v)"
        proof (cases "wr (map_rw s)")
          case None
          then show ?thesis using lm no unfolding can_write_def map_lock_inv_def by blast
        next
          case (Some v)
          then show ?thesis using owner assms(3) unfolding map_owner_inv_def by blast
        qed
        then obtain v where "writes_map (pcs s v) \<or> reads_map (pcs s v)" ..
        then show ?thesis by (intro free [of v]) auto
      qed
    next
      case (2 k j)
      then have "has_entry (pcs s u) = Some k" by simp
      then obtain st where st: "smap s k = Some st" using ei unfolding entry_inv_def by blast
      show ?thesis
      proof (cases "can_read (filter_rw s)")
        case True
        have "moves s u"
        proof (cases j)
          case (Do_status ev slow)
          then show ?thesis using 2 st lstep_status_other [OF _ st] lstep_status_direct [OF _ st] lstep_lock_status [OF _ st _ _ True]
            unfolding moves_def by metis
        qed (use 2 in \<open>auto intro: movesI [OF lstep_log_start] movesI [OF lstep_lock_access] st True\<close>)
        then show ?thesis using busy by blast
      next
        case no: False
        then obtain v where "writes_rules (pcs s v)" using lf unfolding can_read_def filter_lock_inv_def by blast
        then show ?thesis by (intro free [of v]) auto
      qed
    qed
  qed (use free in blast)
qed

text \<open>An exception in \<open>get_state\<close>: the lock stays with a thread that no longer works on the map.\<close>

definition map_lock_leaked :: "locks \<Rightarrow> bool" where
  "map_lock_leaked s \<longleftrightarrow> (\<exists>u. wr (map_rw s) = Some u \<and> \<not> writes_map (pcs s u))"

inductive lsteps :: "locks \<Rightarrow> locks \<Rightarrow> bool" where
  none: "lsteps s s"
| more: "lsteps s t \<Longrightarrow> lstep u t s' \<Longrightarrow> lsteps s s'"

lemma lsteps_reach: "lsteps s s' \<Longrightarrow> lreach s \<Longrightarrow> lreach s'"
  by (induction rule: lsteps.induct) (auto intro: lreach.step)

lemma leaked_step:
  assumes "lstep u s s'" and "map_lock_inv s" and "map_lock_leaked s"
  shows "map_lock_leaked s' \<and> (\<forall>v. connection_of (pcs s v) = None \<longrightarrow> connection_of (pcs s' v) = None)"
proof -
  obtain w where w: "wr (map_rw s) = Some w" "\<not> writes_map (pcs s w)" using assms(3) by (auto simp: map_lock_leaked_def)
  then have idle: "\<not> writes_map (pcs s v)" for v using assms(2) by (metis map_lock_inv_def option.inject)
  have guards: "\<not> can_read (map_rw s)" "\<not> can_write (map_rw s)" using w(1) by (simp_all add: lock_guards)
  have "wr (map_rw s') = Some w \<and> \<not> writes_map (pcs s' u) \<and> (connection_of (pcs s u) = None \<longrightarrow> connection_of (pcs s' u) = None)"
    using assms(1) w(1) idle [of u] guards by (elim step_elims; hypsubst) (auto split: if_splits)
  moreover obtain c where "pcs s' = (pcs s)(u := c)" using lstep_own(1) [OF assms(1)] by blast
  ultimately show ?thesis using idle unfolding map_lock_leaked_def by (metis fun_upd_apply)
qed

lemma leaked_steps:
  "lsteps s s' \<Longrightarrow> lreach s \<Longrightarrow> map_lock_leaked s \<Longrightarrow>
   map_lock_leaked s' \<and> (\<forall>v. connection_of (pcs s v) = None \<longrightarrow> connection_of (pcs s' v) = None)"
proof (induction rule: lsteps.induct)
  case (more s t u s')
  have "map_lock_inv t" using lreach_inv lsteps_reach [OF more(1)] more(4) by (auto simp: locks_inv_def)
  from leaked_step [OF more(2) this] show ?case using more(3-5) by blast
qed simp

section \<open>Runs\<close>

text \<open>A thread that has just loaded the rules in force, and one that is about to insert an entry.\<close>

lemma run_to_rules:
  "\<exists>s. lreach s \<and> pcs s = (\<lambda>_. At_rest)(u := Rules_use k (Do_access ev) (Some 0)) \<and> caught s = 0"
proof -
  let ?s0 = "quiet_locks (Some r) path [k \<mapsto> st]"
  note defs = quiet_locks_def free_lock_def lock_guards unused_def
  note run = lreach.step [OF lreach.step [OF lreach.step [OF lreach.step [OF lreach.start [of "Some r" path "[k \<mapsto> st]"]
    lstep_begin_callback [of _ u k "Do_access ev"]] lstep_find_hit [of _ u k "Do_access ev"]] lstep_lock_access [of _ u k ev]] lstep_load_rules [of _ u k "Do_access ev"]]
  show ?thesis by (rule exI, rule conjI, rule run) (simp_all add: defs)
qed

lemma run_to_insert:
  "\<exists>s. lreach s \<and> pcs s = (\<lambda>_. At_rest)(u := Map_insert k j) \<and> caught s = 0"
proof -
  note defs = quiet_locks_def free_lock_def lock_guards unused_def
  note run = lreach.step [OF lreach.step [OF lreach.step [OF lreach.start [of None "[]" "Map.empty"]
    lstep_begin_callback [of _ u k j]] lstep_find_miss [of _ u k j]] lstep_upgrade [of _ u k j]]
  show ?thesis by (rule exI, rule conjI, rule run) (simp_all add: defs)
qed

section \<open>Properties\<close>

text \<open>
  (C7) The locks do what they are for, in every state that any interleaving of callbacks, disconnections
  and updates can reach.  A thread that is about to use the rules has the rules in force, and they are
  not freed; the only rules on the heap are those in force and those a thread is about to free, so none
  leak; whoever changes the rules, or the map of states, is alone; and the entry a handler got from
  \<open>get_state\<close> is still in the map after the lock was given back.
\<close>

theorem locks_safe:
  assumes "lreach s"
  shows "(\<forall>u k j a. pcs s u = Rules_use k j (Some a) \<longrightarrow> active_ptr s = Some a \<and> rules_heap s a \<noteq> None) \<and>
    (\<forall>a. rules_heap s a \<noteq> None \<longrightarrow> active_ptr s = Some a \<or> (\<exists>u. pcs s u = Set_free (Some a))) \<and>
    (\<forall>u v. writes_rules (pcs s u) \<longrightarrow> reads_rules (pcs s v) \<or> writes_rules (pcs s v) \<longrightarrow> u = v) \<and>
    (\<forall>u v. writes_map (pcs s u) \<longrightarrow> reads_map (pcs s v) \<or> writes_map (pcs s v) \<longrightarrow> u = v) \<and>
    (\<forall>u k. has_entry (pcs s u) = Some k \<longrightarrow> smap s k \<noteq> None)"
proof (intro conjI)
  have inv: "map_lock_inv s" "filter_lock_inv s" "heap_inv s" "entry_inv s"
    using lreach_inv [OF assms] by (auto simp: locks_inv_def)
  show "\<forall>u k j a. pcs s u = Rules_use k j (Some a) \<longrightarrow> active_ptr s = Some a \<and> rules_heap s a \<noteq> None"
    and "\<forall>a. rules_heap s a \<noteq> None \<longrightarrow> active_ptr s = Some a \<or> (\<exists>u. pcs s u = Set_free (Some a))"
    using inv(3) unfolding heap_inv_def by metis+
  show "\<forall>u v. writes_rules (pcs s u) \<longrightarrow> reads_rules (pcs s v) \<or> writes_rules (pcs s v) \<longrightarrow> u = v"
    using inv(2) unfolding filter_lock_inv_def by (metis empty_Collect_eq option.inject option.distinct(1))
  show "\<forall>u v. writes_map (pcs s u) \<longrightarrow> reads_map (pcs s v) \<or> writes_map (pcs s v) \<longrightarrow> u = v"
    using inv(1) unfolding map_lock_inv_def by (metis empty_Collect_eq option.inject option.distinct(1))
  show "\<forall>u k. has_entry (pcs s u) = Some k \<longrightarrow> smap s k \<noteq> None" using inv(4) unfolding entry_inv_def by blast
qed

theorem locks_safe_witness:
  "\<exists>s ev. lreach s \<and> pcs s 1 = Rules_use 7 (Do_access ev) (Some 0) \<and> rules_heap s 0 \<noteq> None \<and> smap s 7 \<noteq> None"
proof -
  obtain s ev where s: "lreach s" "pcs s = (\<lambda>_. At_rest)(1 := Rules_use 7 (Do_access ev) (Some 0))"
    using run_to_rules [of 1 7] by blast
  then have at: "pcs s 1 = Rules_use 7 (Do_access ev) (Some 0)" "has_entry (pcs s 1) = Some 7" by simp_all
  then show ?thesis using locks_safe [OF s(1)] s(1) by metis
qed

text \<open>
  (C6) The handlers are atomic.  Every step of every interleaving either leaves the abstract state as it
  is, or is the one step at which the thread's callback takes effect, and then it is the whole handler,
  applied at once to the entry of its connection under the rules in force: a statement begins, a table is
  recorded under the rules, a statement ends and is traced or not, a connection is forgotten, new rules
  are in force.  A callback takes effect once, unless it gives up: an update that fails, or an
  exception in \<open>get_state\<close>.
\<close>

theorem handlers_atomic:
  assumes "lreach s" and "lstep u s s'"
  shows "if commits (pcs s u) (pcs s' u) then atomic_view s' = perform (the (to_do (pcs s u))) (atomic_view s)
         else atomic_view s' = atomic_view s \<and> (to_do (pcs s' u) = to_do (pcs s u) \<or> to_do (pcs s u) = None \<or>
           gives_up (pcs s u) (pcs s' u))"
proof (cases "commits (pcs s u) (pcs s' u)")
  case False
  have "to_do (pcs s u) \<noteq> None \<Longrightarrow> to_do (pcs s' u) \<noteq> None \<Longrightarrow> to_do (pcs s' u) = to_do (pcs s u)"
    using assms(2) by (elim step_elims; hypsubst) (auto split: if_splits)
  then show ?thesis using False atomic_step [OF assms(2) lreach_inv [OF assms(1)]] by (cases "to_do (pcs s u) = None") (auto simp: commits_def)
qed (use atomic_step [OF assms(2) lreach_inv [OF assms(1)]] in simp)

theorem handlers_atomic_witness:
  "\<exists>s s'. lreach s \<and> lstep 1 s s' \<and> atomic_view s' = perform (Run 7 (Do_log 5)) (atomic_view s)"
proof -
  obtain s0 where s0: "lreach s0" "pcs s0 = (\<lambda>_. At_rest)(1 := Map_insert 7 (Do_log 5))" using run_to_insert [of 1 7] by blast
  then have "pcs s0 1 = Map_insert 7 (Do_log 5)" by simp
  from lstep_insert_entry [OF this] obtain s where s: "lreach s" "pcs s 1 = Map_done 7 (Do_log 5)" "smap s 7 \<noteq> None"
    using lreach.step [OF s0(1)] s0(2) by fastforce
  then obtain st where "smap s 7 = Some st" by blast
  from lstep_log_start [OF s(2) this] obtain s' where "lstep 1 s s'" "pcs s' 1 = At_rest" by fastforce
  then show ?thesis using handlers_atomic [OF s(1), of 1 s'] s by (auto simp: commits_def)
qed

text \<open>
  No deadlock.  In every reachable state with a callback under way some callback can take its
  next step, unless an exception has escaped from \<open>get_state\<close> before or the path of the log file was freed
  under a writer.  The two locks are never held together, so the handlers cannot wait for each
  other in a circle.
\<close>

lemma no_deadlock:
  assumes "lreach s" and "caught s = 0" and "\<forall>u k a. pcs s u = Emit_write k a \<longrightarrow> path_heap s a \<noteq> None"
    and "pcs s u \<noteq> At_rest"
  shows "\<exists>s'. busy_step s s'"
proof -
  have "\<exists>v. pcs s v \<noteq> At_rest \<and> moves s v"
    by (rule someone_moves [OF lreach_inv [OF assms(1)] lreach_map_owner [OF assms(1)] assms(2) _ assms(4)]) (use assms(3) in blast)
  then show ?thesis by (auto simp: busy_step_def moves_def)
qed

lemma no_deadlock_witness:
  "\<exists>s s'. lreach s \<and> pcs s 1 = Map_insert 7 (Do_log 5) \<and> busy_step s s'"
proof -
  obtain s where s: "lreach s" "pcs s = (\<lambda>_. At_rest)(1 := Map_insert 7 (Do_log 5))" "caught s = 0"
    using run_to_insert [of 1 7] by blast
  then have "\<exists>s'. busy_step s s'" by (intro no_deadlock [OF s(1,3), of 1]) (auto split: if_splits)
  then show ?thesis using s(1,2) by auto
qed

text \<open>
  (C13) Callbacks finish.  However the callbacks under way are interleaved, together they take at
  most nine steps each: with the previous property, when no new callback begins, a run ends, and it ends
  with every thread out of the plugin.
\<close>

theorem callbacks_finish:
  assumes "lreach s" and "(busy_step ^^ n) s s'"
  shows "n \<le> 9 * card {u. pcs s u \<noteq> At_rest} \<and>
    ((\<nexists>t. busy_step s' t) \<longrightarrow> caught s' = 0 \<longrightarrow> (\<forall>u k a. pcs s' u = Emit_write k a \<longrightarrow> path_heap s' a \<noteq> None) \<longrightarrow>
      (\<forall>u. pcs s' u = At_rest))"
proof
  have run: "remaining s' + n \<le> remaining s" and reach: "lreach s'" using remaining_run [OF assms] by auto
  then show "n \<le> 9 * card {u. pcs s u \<noteq> At_rest}" using remaining_bound [of s] by simp
  show "(\<nexists>t. busy_step s' t) \<longrightarrow> caught s' = 0 \<longrightarrow> (\<forall>u k a. pcs s' u = Emit_write k a \<longrightarrow> path_heap s' a \<noteq> None) \<longrightarrow>
      (\<forall>u. pcs s' u = At_rest)"
    using someone_moves [OF lreach_inv [OF reach] lreach_map_owner [OF reach]] unfolding busy_step_def moves_def by blast
qed

theorem callbacks_finish_witness:
  "\<exists>s s'. lreach s \<and> pcs s 1 = Map_insert 7 (Do_log 5) \<and> busy_step s s' \<and> 1 \<le> 9 * card {u. pcs s u \<noteq> At_rest}"
proof -
  obtain s where s: "lreach s" "pcs s = (\<lambda>_. At_rest)(1 := Map_insert 7 (Do_log 5))" using run_to_insert [of 1 7] by blast
  then have at: "pcs s 1 = Map_insert 7 (Do_log 5)" by simp
  then obtain s' where "busy_step s s'" using lstep_insert_entry [OF at] unfolding busy_step_def by (metis pc.distinct(5))
  then show ?thesis using callbacks_finish [OF s(1), of 1 s'] s(1) at by (metis relpowp_1)
qed

text \<open>
  (C38) The leak of a lock.  When the insertion in \<open>get_state\<close> throws (no memory for a new entry),
  the exception is caught in \<open>selective_trace_notify\<close>, but \<open>state_map_lock\<close> stays locked for writing: from
  then on, whatever happens, it stays so, and no thread ever again begins a callback.
\<close>

theorem leaked_lock_blocks:
  assumes "lreach s" and "pcs s u = Map_insert k j"
  shows "\<exists>s1. lstep u s s1 \<and> pcs s1 u = At_rest \<and> caught s1 = caught s + 1 \<and>
    (\<forall>s2. lsteps s1 s2 \<longrightarrow> map_lock_leaked s2 \<and> (\<forall>v. connection_of (pcs s1 v) = None \<longrightarrow> connection_of (pcs s2 v) = None))"
proof -
  let ?s1 = "s\<lparr>caught := caught s + 1, pcs := (pcs s)(u := At_rest)\<rparr>"
  have throw: "lstep u s ?s1" by (rule lstep_insert_throws [OF assms(2)])
  have "wr (map_rw s) = Some u" using lreach_inv [OF assms(1)] assms(2) by (auto simp: locks_inv_def map_lock_inv_def)
  then have "map_lock_leaked ?s1" by (auto simp: map_lock_leaked_def)
  then show ?thesis using throw leaked_steps [of ?s1] lreach.step [OF assms(1) throw] by (intro exI [of _ ?s1]) auto
qed

theorem leaked_lock_blocks_witness:
  "\<exists>s s1. lreach s \<and> lstep 1 s s1 \<and> caught s1 = 1 \<and> map_lock_leaked s1"
proof -
  obtain s where s: "lreach s" "pcs s = (\<lambda>_. At_rest)(1 := Map_insert 7 (Do_log 5))" "caught s = 0"
    using run_to_insert [of 1 7] by blast
  then have "pcs s 1 = Map_insert 7 (Do_log 5)" by simp
  from leaked_lock_blocks [OF s(1) this] show ?thesis using s(1,3) lsteps.none by fastforce
qed

text \<open>
  (C39) A use after free.  \<open>update_file_path\<close> assigns the path without a lock.  A statement that is
  traced may have loaded \<open>opt_file_path\<close> when another thread sets \<open>selective_trace_file_path\<close> to a
  longer text: the handler goes on to \<open>file_writer_write\<close> with a pointer to freed memory.
\<close>

theorem path_use_after_free:
  assumes "m k = Some st" and "in_statement st" and "cmd_mask st AND status_bit ev \<noteq> 0" and "is_query_command ev" and "u \<noteq> v"
  shows "\<exists>s a. lsteps (quiet_locks rules path m) s \<and> decided s = [(k, ev)] \<and> pcs s u = Emit_write k a \<and> path_heap s a = None"
proof -
  note defs = quiet_locks_def free_lock_def lock_guards unused_def
  note run = lsteps.more [OF lsteps.more [OF lsteps.more [OF lsteps.more [OF lsteps.more [OF lsteps.none [of "quiet_locks rules path m"]
    lstep_begin_callback [of _ u k "Do_status ev True"]] lstep_find_hit [of _ u k "Do_status ev True"]] lstep_status_direct [of _ u k ev True st]]
    lstep_load_path [of _ u k]] lstep_assign_path [of _ v 1]]
  show ?thesis
    by (rule exI, rule exI [of _ 0], rule conjI, rule run) (use assms in \<open>simp_all add: defs\<close>)
qed

theorem path_use_after_free_witness:
  "\<exists>s ev a. lsteps (quiet_locks None ''selective_trace.json'' [7 \<mapsto> zero_state\<lparr>in_statement := True, cmd_mask := CMD_ALL\<rparr>]) s \<and>
    decided s = [(7, ev)] \<and> pcs s 1 = Emit_write 7 a \<and> path_heap s a = None"
proof -
  let ?ev = "\<lparr>general_command = ''Query'', general_query = ''SELECT 1'', general_thread_id = 7, general_user = [], general_host = [],
    general_error_code = 0\<rparr>"
  have "CMD_ALL AND status_bit ?ev \<noteq> 0" "is_query_command ?ev" by code_simp+
  then show ?thesis
    using path_use_after_free [of "[7 \<mapsto> zero_state\<lparr>in_statement := True, cmd_mask := CMD_ALL\<rparr>]" 7
      "zero_state\<lparr>in_statement := True, cmd_mask := CMD_ALL\<rparr>" ?ev 1 2 None "''selective_trace.json''"]
    by fastforce
qed

end
