(* ===== verification/Plugin_Failures.thy ===== *)
theory Plugin_Failures
  imports Plugin_Trace
begin

text \<open>
  Memory that runs out.  The callbacks of \<open>src/selective_trace_mysql.cc\<close> are C functions around C++
  code: a \<open>std::bad_alloc\<close> is caught at the boundary and counted in \<open>status_callback_errors\<close>, and a
  \<open>new (std::nothrow)\<close> may give \<open>NULL\<close>.  The theories before this one take memory to suffice; here each
  callback has the outcomes its \<open>catch\<close> blocks and \<open>NULL\<close> checks give it, and \<open>selective_trace_init\<close>, which
  has no \<open>catch\<close>, the outcome that the exception leaves it.  An exception in \<open>get_state\<close> is the subject of
  the theory \<open>Plugin_Locks\<close>.
\<close>

record guarded =
  vars :: plugin
  status_callback_errors :: u64

definition count_error :: "guarded \<Rightarrow> guarded" where
  "count_error g = g\<lparr>status_callback_errors := status_callback_errors g + 1\<rparr>"

section \<open>Setting a variable\<close>

text \<open>A check callback returns 0 with the value to save, returns 1 after reporting an entry, or returns
  1 because an exception was caught.\<close>

datatype checked = Accepted "string option" | Rejected string | Check_failed

definition check_kind_mem :: "bool \<Rightarrow> filter_kind \<Rightarrow> string option \<Rightarrow> guarded \<Rightarrow> checked \<times> guarded" where
  "check_kind_mem throws kind str g =
     (if throws then (Check_failed, count_error g)
      else (case check_kind kind str of Inl bad \<Rightarrow> (Rejected bad, g) | Inr save \<Rightarrow> (Accepted save, g)))"

text \<open>Where the update of a list can fail: in the assignment to the stored list, at the
  \<open>new (std::nothrow)\<close> of the fresh rules, in their parsing.\<close>

datatype update_failure = Assign_throws | New_null | Parse_throws

definition update_filter_list_mem :: "update_failure option \<Rightarrow> filter_kind \<Rightarrow> string option \<Rightarrow> guarded \<Rightarrow> guarded" where
  "update_filter_list_mem failure kind save g =
     (let new_val = (case save of None \<Rightarrow> [] | Some s \<Rightarrow> s) in
      case failure of
        None \<Rightarrow> g\<lparr>vars := update_filter_list kind save (vars g)\<rparr>
      | Some Assign_throws \<Rightarrow> count_error g
      | Some New_null \<Rightarrow> g\<lparr>vars := store_list kind new_val (vars g)\<rparr>
      | Some Parse_throws \<Rightarrow> count_error (g\<lparr>vars := store_list kind new_val (vars g)\<rparr>))"

definition set_filter_mem ::
    "bool \<Rightarrow> update_failure option \<Rightarrow> filter_kind \<Rightarrow> string option \<Rightarrow> guarded \<Rightarrow> checked \<times> guarded" where
  "set_filter_mem check_throws failure kind str g =
     (case check_kind_mem check_throws kind str g of
        (Accepted save, g') \<Rightarrow> (Accepted save, update_filter_list_mem failure kind save g')
      | (r, g') \<Rightarrow> (r, g'))"

definition update_file_path_mem :: "bool \<Rightarrow> stdio \<Rightarrow> string option \<Rightarrow> guarded \<Rightarrow> guarded" where
  "update_file_path_mem throws io save g =
     (if throws then count_error g else g\<lparr>vars := update_file_path io save (vars g)\<rparr>)"

section \<open>A statement whose output cannot be assembled\<close>

text \<open>The exception leaves \<open>handle_status_event\<close> before the write and before the label \<open>reset\<close>.\<close>

definition handle_status_event_mem ::
    "bool \<Rightarrow> stdio \<Rightarrow> callback \<Rightarrow> thd \<Rightarrow> mysql_event_general \<Rightarrow> guarded \<Rightarrow> guarded option" where
  "handle_status_event_mem throws io cb thd event g =
     (case states (vars g) of
        None \<Rightarrow> None
      | Some m \<Rightarrow>
          let (st0, m1) = get_state m thd;
              st = track_current_db st0 event
          in if throws \<and> is_query_command event \<and> wanted_statement cb event st (vars g)
             then Some (count_error (g\<lparr>vars := (vars g)\<lparr>states := Some (m1(thd \<mapsto> st))\<rparr>\<rparr>))
             else (case handle_status_event io cb thd event (vars g) of None \<Rightarrow> None | Some p' \<Rightarrow> Some (g\<lparr>vars := p'\<rparr>)))"

section \<open>Loading\<close>

datatype alloc = Got | Null | Throws

record init_memory =
  map_alloc :: alloc
  schemas_alloc :: alloc
  tables_alloc :: alloc
  connections_alloc :: alloc
  path_alloc :: alloc
  rules_alloc :: alloc

datatype init_result = Returned bool plugin | Escaped plugin

definition new_string :: "alloc \<Rightarrow> string option \<Rightarrow> string option" where
  "new_string a opt = (if a = Got then text_or_empty opt else None)"

definition init_fail :: "plugin \<Rightarrow> plugin" where
  "init_fail p = p\<lparr>schemas_storage := None, tables_storage := None, connections_storage := None,
     file_path_storage := None, events := table_writer_shutdown (events p), files := file_writer_deinit (files p),
     states := None\<rparr>"

text \<open>The four strings are made one after the other; an exception at one leaves those before it.\<close>

definition selective_trace_init_mem :: "init_memory \<Rightarrow> plugin \<Rightarrow> init_result" where
  "selective_trace_init_mem m p =
     (if map_alloc m = Throws then Escaped p
      else if map_alloc m = Null then Returned True (p\<lparr>states := None\<rparr>)
      else
        let p0 = p\<lparr>states := Some Map.empty, events := table_writer_init True (events p)\<rparr>;
            p1 = p0\<lparr>schemas_storage := new_string (schemas_alloc m) (opt_schemas p)\<rparr>;
            p2 = p1\<lparr>tables_storage := new_string (tables_alloc m) (opt_tables p)\<rparr>;
            p3 = p2\<lparr>connections_storage := new_string (connections_alloc m) (opt_connections p)\<rparr>;
            p4 = p3\<lparr>file_path_storage := new_string (path_alloc m) (opt_file_path p)\<rparr>
        in if schemas_alloc m = Throws then Escaped p0
           else if tables_alloc m = Throws then Escaped p1
           else if connections_alloc m = Throws then Escaped p2
           else if path_alloc m = Throws then Escaped p3
           else if schemas_storage p4 = None \<or> tables_storage p4 = None \<or> connections_storage p4 = None \<or> file_path_storage p4 = None
           then Returned True (init_fail p4)
           else
             let p5 = p4\<lparr>opt_schemas := schemas_storage p4, opt_tables := tables_storage p4,
                          opt_connections := connections_storage p4, opt_file_path := file_path_storage p4\<rparr>
             in if rules_alloc m = Throws then Escaped p5
                else if rules_alloc m = Null then Returned True (init_fail p5)
                else (case rebuild_rules_locked (schemas_storage p5) (tables_storage p5) (connections_storage p5) p5 of
                        (True, p6) \<Rightarrow> Returned True (init_fail p6)
                      | (False, p6) \<Rightarrow> Returned False (p6\<lparr>plugin_ready := True\<rparr>)))"

text \<open>With enough memory this is the loading of the theory \<open>Plugin_Config\<close>.\<close>

definition enough :: init_memory where
  "enough = \<lparr>map_alloc = Got, schemas_alloc = Got, tables_alloc = Got, connections_alloc = Got, path_alloc = Got, rules_alloc = Got\<rparr>"

lemma init_enough:
  "selective_trace_init_mem enough p = Returned (fst (selective_trace_init p)) (snd (selective_trace_init p))"
  using text_or_empty_Some [of "opt_schemas p"] text_or_empty_Some [of "opt_tables p"]
    text_or_empty_Some [of "opt_connections p"] text_or_empty_Some [of "opt_file_path p"]
  by (auto simp: selective_trace_init_mem_def enough_def selective_trace_init_def init_fail_def new_string_def Let_def
      split: prod.split bool.split)


section \<open>What survives\<close>

text \<open>The stored lists are valid and are what the variables show; some well-formed rules are in force,
  but after a failed update they need not be those of the lists.\<close>

definition weak_config :: "plugin \<Rightarrow> bool" where
  "weak_config p \<longleftrightarrow> (\<exists>s t c r. schemas_storage p = Some s \<and> tables_storage p = Some t \<and> connections_storage p = Some c \<and>
     valid_list FK_SCHEMAS s \<and> valid_list FK_TABLES t \<and> valid_list FK_CONNECTIONS c \<and>
     opt_schemas p = Some s \<and> opt_tables p = Some t \<and> opt_connections p = Some c \<and> active_rules p = Some r \<and> wf_rules r)"

lemma config_weak: "config_inv p \<Longrightarrow> weak_config p"
  using config_inv_valid [of p] config_inv_wf [of p] by (auto simp: config_inv_def weak_config_def)

lemma store_list_weak: "weak_config p \<Longrightarrow> valid_list kind v \<Longrightarrow> weak_config (store_list kind v p)"
  by (cases kind) (auto simp: weak_config_def store_list_def)

lemma store_list_active [simp]: "active_rules (store_list kind v p) = active_rules p"
  by (cases kind) (simp_all add: store_list_def)

lemma update_weak:
  assumes "weak_config p" and "valid_list kind v"
  shows "config_inv (update_filter_list kind (Some v) p)"
    and "stored k (update_filter_list kind (Some v) p) = (if k = kind then Some v else stored k p)"
proof -
  let ?p1 = "store_list kind v p"
  obtain s t c where new: "schemas_storage ?p1 = Some s" "tables_storage ?p1 = Some t" "connections_storage ?p1 = Some c"
    "valid_list FK_SCHEMAS s" "valid_list FK_TABLES t" "valid_list FK_CONNECTIONS c"
    "opt_schemas ?p1 = Some s" "opt_tables ?p1 = Some t" "opt_connections ?p1 = Some c"
    using store_list_weak [OF assms] by (auto simp: weak_config_def)
  obtain r r' where r: "parse_filter_lists (Some s) (Some t) empty_rules = Inr r" "parse_connection_list (Some c) r = Inr r'"
    "rebuild_rules_locked (Some s) (Some t) (Some c) ?p1 = (False, ?p1\<lparr>active_rules := Some r'\<rparr>)"
    using rebuild_valid [OF new(4-6), of ?p1] by blast
  have eq: "update_filter_list kind (Some v) p = ?p1\<lparr>active_rules := Some r'\<rparr>"
    by (simp add: update_filter_list_def new(1-3) r(3))
  show "config_inv (update_filter_list kind (Some v) p)" unfolding eq using new r by (auto simp: config_inv_def)
  show "stored k (update_filter_list kind (Some v) p) = (if k = kind then Some v else stored k p)" by (simp add: eq)
qed

definition new_text :: "string option \<Rightarrow> string" where
  "new_text save = (case save of None \<Rightarrow> [] | Some s \<Rightarrow> s)"

lemma update_new_text: "update_filter_list kind save p = update_filter_list kind (Some (new_text save)) p"
  by (simp add: update_filter_list_def new_text_def split: option.split)

lemma check_accepts: "check_kind kind str = Inr save \<Longrightarrow> save = str \<and> valid_list kind (new_text save)"
  using check_kind_Inr [of kind "the str" save] by (cases str) (auto simp: check_kind_None new_text_def valid_empty)

text \<open>What one \<open>SET GLOBAL\<close> on a list leaves, failures included.\<close>

lemma set_filter_mem_eq:
  "set_filter_mem check_throws failure kind str g =
     (if check_throws then (Check_failed, count_error g)
      else (case check_kind kind str of Inl bad \<Rightarrow> (Rejected bad, g) | Inr save \<Rightarrow> (Accepted save, update_filter_list_mem failure kind save g)))"
  by (simp add: set_filter_mem_def check_kind_mem_def split: sum.split)

lemma set_filter_mem_weak:
  assumes "weak_config (vars g)"
  shows "weak_config (vars (snd (set_filter_mem check_throws failure kind str g)))"
proof -
  have "weak_config (vars (update_filter_list_mem failure kind save g))" if "check_kind kind str = Inr save" for save
  proof -
    have valid: "valid_list kind (new_text save)" using check_accepts [OF that] by blast
    note weak = store_list_weak [OF assms valid] config_weak [OF update_weak(1) [OF assms valid]]
    show ?thesis
      using assms weak update_new_text [of kind save "vars g"]
      by (simp add: update_filter_list_mem_def count_error_def Let_def flip: new_text_def split: option.split update_failure.split)
  qed
  then show ?thesis using assms by (simp add: set_filter_mem_eq count_error_def split: sum.split)
qed

type_synonym set_call = "bool \<times> update_failure option \<times> filter_kind \<times> string option"

definition set_calls :: "set_call list \<Rightarrow> guarded \<Rightarrow> guarded" where
  "set_calls calls g = fold (\<lambda>(check_throws, failure, kind, str) g. snd (set_filter_mem check_throws failure kind str g)) calls g"

lemma set_calls_weak: "weak_config (vars g) \<Longrightarrow> weak_config (vars (set_calls calls g))"
  unfolding set_calls_def by (induction calls arbitrary: g) (auto simp: set_filter_mem_weak)

lemma init_fail_frame [simp]:
  "plugin_ready (init_fail p) = plugin_ready p" "states (init_fail p) = None" "schemas_storage (init_fail p) = None"
  "tables_storage (init_fail p) = None" "connections_storage (init_fail p) = None" "file_path_storage (init_fail p) = None"
  "active_rules (init_fail p) = active_rules p" "queue (events (init_fail p)) = None" "log_fp (files (init_fail p)) = None"
  by (simp_all add: init_fail_def table_writer_shutdown_def shutdown_finish_def)

section \<open>Properties\<close>

text \<open>
  (C21) Running out of memory while a filter variable is set.  Whatever fails in any number of
  \<open>SET GLOBAL\<close> statements, the stored lists stay valid and shown by the variables and well-formed rules
  stay in force; and the next update that is accepted and does not fail puts in force exactly what the three
  variables show, so no failure has a lasting effect.
\<close>

theorem update_failures_recover:
  assumes "weak_config (vars g)"
  shows "weak_config (vars (set_calls calls g)) \<and>
    (case set_filter_mem False None kind str (set_calls calls g) of
       (Accepted save, g') \<Rightarrow> config_inv (vars g') \<and> stored kind (vars g') = text_or_empty str \<and>
         (\<forall>k. k \<noteq> kind \<longrightarrow> stored k (vars g') = stored k (vars (set_calls calls g)))
     | (_, g') \<Rightarrow> g' = set_calls calls g)"
proof
  let ?g = "set_calls calls g"
  show weak: "weak_config (vars ?g)" by (rule set_calls_weak [OF assms])
  have "config_inv (vars (update_filter_list_mem None kind save ?g)) \<and> stored kind (vars (update_filter_list_mem None kind save ?g)) = text_or_empty str \<and>
      (\<forall>k. k \<noteq> kind \<longrightarrow> stored k (vars (update_filter_list_mem None kind save ?g)) = stored k (vars ?g))"
    if "check_kind kind str = Inr save" for save
  proof -
    have valid: "save = str" "valid_list kind (new_text save)" using check_accepts [OF that] by blast+
    have "vars (update_filter_list_mem None kind save ?g) = update_filter_list kind (Some (new_text save)) (vars ?g)"
      using update_new_text [of kind save "vars ?g"] by (simp add: update_filter_list_mem_def)
    moreover have "Some (new_text save) = text_or_empty str"
      by (simp add: valid(1) text_or_empty_def new_text_def split: option.split)
    ultimately show ?thesis using update_weak [OF weak valid(2)] by simp
  qed
  then show "case set_filter_mem False None kind str ?g of
       (Accepted save, g') \<Rightarrow> config_inv (vars g') \<and> stored kind (vars g') = text_or_empty str \<and>
         (\<forall>k. k \<noteq> kind \<longrightarrow> stored k (vars g') = stored k (vars ?g))
     | (_, g') \<Rightarrow> g' = ?g"
    by (simp add: set_filter_mem_eq split: sum.split)
qed

theorem update_failures_recover_witness:
  "config_inv (vars (snd (set_filter_mem False None FK_SCHEMAS (Some ''app'')
     (set_calls [(False, Some New_null, FK_TABLES, Some ''a.b''), (True, None, FK_TABLES, None)] \<lparr>vars = ready_plugin, status_callback_errors = 0\<rparr>))))"
proof -
  have weak: "weak_config (vars \<lparr>vars = ready_plugin, status_callback_errors = 0\<rparr>)" by (simp add: config_weak config_inv_ready)
  have "check_kind FK_SCHEMAS (Some ''app'') = Inr (Some ''app'')" by code_simp
  then show ?thesis
    using update_failures_recover [OF weak, of "[(False, Some New_null, FK_TABLES, Some ''a.b''), (True, None, FK_TABLES, None)]" FK_SCHEMAS "Some ''app''"]
    by (simp add: set_filter_mem_eq)
qed

text \<open>
  A failure nobody sees.  When \<open>new (std::nothrow)\<close> gives no memory for the fresh rules, \<open>SET GLOBAL\<close>
  succeeds and the variable shows the new list, but the old rules stay in force, and unlike an
  exception at the same place the failure is not counted in \<open>selective_trace_callback_errors\<close>.
\<close>

lemma silent_update_failure:
  assumes "valid_list kind v"
  shows "(\<exists>g'. set_filter_mem False (Some New_null) kind (Some v) g = (Accepted (Some v), g') \<and>
        stored kind (vars g') = Some v \<and> active_rules (vars g') = active_rules (vars g) \<and>
        status_callback_errors g' = status_callback_errors g) \<and>
    (\<exists>g'. set_filter_mem False (Some Parse_throws) kind (Some v) g = (Accepted (Some v), g') \<and>
        stored kind (vars g') = Some v \<and> active_rules (vars g') = active_rules (vars g) \<and>
        status_callback_errors g' = status_callback_errors g + 1)"
proof -
  have "check_kind kind (Some v) = Inr (Some v)"
    using assms check_kind_Inr [of kind v] by (cases "check_kind kind (Some v)") (auto simp: valid_list_def)
  then show ?thesis by (simp add: set_filter_mem_eq update_filter_list_mem_def count_error_def)
qed

lemma silent_update_failure_witness:
  "stored FK_SCHEMAS (vars (snd (set_filter_mem False (Some New_null) FK_SCHEMAS (Some ''app'')
     \<lparr>vars = ready_plugin, status_callback_errors = 0\<rparr>))) = Some ''app''"
proof -
  have "valid_list FK_SCHEMAS ''app''" by code_simp
  from silent_update_failure [OF this, of "\<lparr>vars = ready_plugin, status_callback_errors = 0\<rparr>"] show ?thesis by auto
qed

text \<open>
  (C22) An output that is not assembled.  When memory runs out between the decision to trace a statement
  and its write, the exception is counted and nothing is written, queued or counted as logged; the state
  of the connection is not reset, but the next \<open>GENERAL_LOG\<close> makes it the state that it would have been
  otherwise, and no other connection is touched.
\<close>

theorem aborted_output_harmless:
  assumes "states (vars g) = Some m" and "is_query_command ev"
    and "wanted_statement cb ev (track_current_db (entry_state (m thd)) ev) (vars g)"
  shows "\<exists>g'. handle_status_event_mem True io cb thd ev g = Some g' \<and>
    status_callback_errors g' = status_callback_errors g + 1 \<and>
    status_events_logged (vars g') = status_events_logged (vars g) \<and> files (vars g') = files (vars g) \<and> events (vars g') = events (vars g) \<and>
    (\<forall>k. k \<noteq> thd \<longrightarrow> entry_of (vars g') k = m k) \<and>
    (\<forall>rules cb' ev'. entry_step True rules cb' (General_class GENERAL_LOG ev') (entry_of (vars g') thd) =
       entry_step True rules cb' (General_class GENERAL_LOG ev') (entry_step True rules cb (General_class GENERAL_STATUS ev) (m thd)))"
proof -
  let ?st = "track_current_db (entry_state (m thd)) ev"
  have "state_begin_statement (state_reset ?st) b now = state_begin_statement ?st b now" for b now
    by (simp add: state_begin_statement_def state_reset_def)
  moreover have "handle_status_event_mem True io cb thd ev g = Some (count_error (g\<lparr>vars := (vars g)\<lparr>states := Some (m(thd \<mapsto> ?st))\<rparr>\<rparr>))"
    using assms by (simp add: handle_status_event_mem_def get_state_eq map_upd_get)
  ultimately show ?thesis
    using assms(2) by (simp add: count_error_def entry_of_def entry_step_def entry_state_def)
qed

theorem aborted_output_harmless_witness:
  "\<exists>g'. handle_status_event_mem True sample_io (sample_call 3) 9 (query_event ''SELECT 1'' 0)
     \<lparr>vars = ready_plugin\<lparr>states := Some [9 \<mapsto> zero_state\<lparr>in_statement := True, cmd_mask := CMD_ALL\<rparr>]\<rparr>, status_callback_errors = 0\<rparr> = Some g' \<and>
     status_callback_errors g' = 1 \<and> status_events_logged (vars g') = 0"
proof -
  let ?g = "\<lparr>vars = ready_plugin\<lparr>states := Some [9 \<mapsto> zero_state\<lparr>in_statement := True, cmd_mask := CMD_ALL\<rparr>]\<rparr>, status_callback_errors = 0\<rparr>"
  have bit: "CMD_ALL AND command_bit (statement_command ''SELECT 1'') \<noteq> 0" by code_simp
  have "wanted_statement (sample_call 3) (query_event ''SELECT 1'' 0)
      (track_current_db (entry_state ([9 \<mapsto> zero_state\<lparr>in_statement := True, cmd_mask := CMD_ALL\<rparr>] (9 :: thd))) (query_event ''SELECT 1'' 0)) (vars ?g)"
    using bit by (simp add: wanted_statement_def allowed_commands_def too_fast_def entry_state_def ready_plugin_eq loaded_plugin_def
        query_event_def)
  moreover have "states (vars ?g) = Some [9 \<mapsto> zero_state\<lparr>in_statement := True, cmd_mask := CMD_ALL\<rparr>]" by simp
  moreover have "is_query_command (query_event ''SELECT 1'' 0)" by code_simp
  moreover have "status_callback_errors ?g + 1 = 1" "status_events_logged (vars ?g) = 0" by (simp_all add: ready_plugin_eq loaded_plugin_def)
  ultimately show ?thesis using aborted_output_harmless [of ?g _ "query_event ''SELECT 1'' 0" "sample_call 3" 9 sample_io] by metis
qed



end
