(* ===== verification/Plugin_Interface.thy ===== *)
theory Plugin_Interface
  imports Plugin_Failures
begin

text \<open>
  The tables that \<open>src/selective_trace_mysql.cc\<close> hands to the server: the system variables with their
  types and defaults, the status variables, and the mask of audit events.  They are data; the
  theorems relate them to the callbacks and to the variables of the other theories.
\<close>

section \<open>System variables\<close>

definition output_names :: "string list" where
  "output_names = [''FILE'', ''TABLE'']"

text \<open>The default and, for a number, the least and the greatest value.\<close>

datatype sysvar_type =
    SYSVAR_BOOL bool
  | SYSVAR_STR string
  | SYSVAR_ENUM nat "string list"
  | SYSVAR_UINT u32 u32 u32

datatype sysvar_value = Bool_value bool | Text_value "string option" | Enum_value nat | Uint_value u32

record sysvar =
  sysvar_name :: string
  sysvar_type :: sysvar_type
  has_check :: bool
  has_update :: bool

definition selective_trace_sysvars :: "sysvar list" where
  "selective_trace_sysvars =
     [\<lparr>sysvar_name = ''enabled'', sysvar_type = SYSVAR_BOOL False, has_check = False, has_update = False\<rparr>,
      \<lparr>sysvar_name = ''schemas'', sysvar_type = SYSVAR_STR '''', has_check = True, has_update = True\<rparr>,
      \<lparr>sysvar_name = ''tables'', sysvar_type = SYSVAR_STR '''', has_check = True, has_update = True\<rparr>,
      \<lparr>sysvar_name = ''connections'', sysvar_type = SYSVAR_STR '''', has_check = True, has_update = True\<rparr>,
      \<lparr>sysvar_name = ''output'', sysvar_type = SYSVAR_ENUM 0 output_names, has_check = False, has_update = False\<rparr>,
      \<lparr>sysvar_name = ''log_file_path'', sysvar_type = SYSVAR_STR ''selective_trace.json'', has_check = False, has_update = True\<rparr>,
      \<lparr>sysvar_name = ''min_duration_ms'', sysvar_type = SYSVAR_UINT 0 0 0x7FFFFFFF, has_check = False, has_update = False\<rparr>,
      \<lparr>sysvar_name = ''mask_passwords'', sysvar_type = SYSVAR_BOOL True, has_check = False, has_update = False\<rparr>]"

fun default_value :: "sysvar_type \<Rightarrow> sysvar_value" where
  "default_value (SYSVAR_BOOL b) = Bool_value b"
| "default_value (SYSVAR_STR s) = Text_value (Some s)"
| "default_value (SYSVAR_ENUM n names) = Enum_value n"
| "default_value (SYSVAR_UINT d lo hi) = Uint_value d"

fun in_domain :: "sysvar_type \<Rightarrow> sysvar_value \<Rightarrow> bool" where
  "in_domain (SYSVAR_BOOL d) (Bool_value b) = True"
| "in_domain (SYSVAR_STR d) (Text_value s) = True"
| "in_domain (SYSVAR_ENUM d names) (Enum_value n) = (n < length names)"
| "in_domain (SYSVAR_UINT d lo hi) (Uint_value n) = (lo \<le> n \<and> n \<le> hi)"
| "in_domain _ _ = False"

definition output_index :: "output_mode \<Rightarrow> nat" where
  "output_index out = (case out of OUTPUT_FILE \<Rightarrow> 0 | OUTPUT_TABLE \<Rightarrow> 1)"

text \<open>The variables the table points to, in its order.\<close>

definition variable_values :: "plugin \<Rightarrow> sysvar_value list" where
  "variable_values p = [Bool_value (opt_enabled p), Text_value (opt_schemas p), Text_value (opt_tables p),
     Text_value (opt_connections p), Enum_value (output_index (opt_output p)), Text_value (opt_file_path p),
     Uint_value (opt_min_duration_ms p), Bool_value (opt_mask_passwords p)]"

text \<open>The server's part in \<open>SET GLOBAL\<close> on a variable without an update callback: it stores a value of
  the declared domain.\<close>

definition store_scalar :: "string \<Rightarrow> sysvar_value \<Rightarrow> plugin \<Rightarrow> plugin" where
  "store_scalar name v p =
     (case v of
        Bool_value b \<Rightarrow> if name = ''enabled'' then p\<lparr>opt_enabled := b\<rparr>
                        else if name = ''mask_passwords'' then p\<lparr>opt_mask_passwords := b\<rparr> else p
      | Enum_value n \<Rightarrow> if name = ''output'' then p\<lparr>opt_output := (if n = 0 then OUTPUT_FILE else OUTPUT_TABLE)\<rparr> else p
      | Uint_value n \<Rightarrow> if name = ''min_duration_ms'' then p\<lparr>opt_min_duration_ms := n\<rparr> else p
      | Text_value s \<Rightarrow> p)"

section \<open>Status variables\<close>

datatype show_kind = SHOW_LONG "guarded \<Rightarrow> u64" | SHOW_FUNC "plugin \<Rightarrow> u64"

definition selective_trace_status :: "(string \<times> show_kind) list" where
  "selective_trace_status =
     [(''selective_trace_events_logged'', SHOW_LONG (\<lambda>g. status_events_logged (vars g))),
      (''selective_trace_writer_reconnects'', SHOW_FUNC show_writer_reconnects),
      (''selective_trace_write_failures'', SHOW_FUNC show_write_failures),
      (''selective_trace_events_dropped'', SHOW_FUNC show_events_dropped),
      (''selective_trace_callback_errors'', SHOW_LONG status_callback_errors)]"

definition show_status :: "guarded \<Rightarrow> (string \<times> u64) list" where
  "show_status g = map (\<lambda>(name, kind). (name, case kind of SHOW_LONG f \<Rightarrow> f g | SHOW_FUNC f \<Rightarrow> f (vars g))) selective_trace_status"

section \<open>The audit mask\<close>

datatype audit_subclass =
    General general_subclass
  | Connection connection_subclass
  | TABLE_ACCESS_READ | TABLE_ACCESS_INSERT | TABLE_ACCESS_UPDATE | TABLE_ACCESS_DELETE

text \<open>One slot per audit class, in the order of the server's enumeration.\<close>

definition class_mask :: "audit_subclass list list" where
  "class_mask =
     [[General GENERAL_LOG, General GENERAL_STATUS],
      [Connection CONNECTION_DISCONNECT],
      [],
      [],
      [TABLE_ACCESS_READ, TABLE_ACCESS_INSERT, TABLE_ACCESS_UPDATE, TABLE_ACCESS_DELETE],
      [], [], [], [], [], [], [], []]"

definition GENERAL_CLASS :: nat where "GENERAL_CLASS = 0"
definition CONNECTION_CLASS :: nat where "CONNECTION_CLASS = 1"
definition TABLE_ACCESS_CLASS :: nat where "TABLE_ACCESS_CLASS = 4"

definition subscribed :: "nat \<Rightarrow> audit_subclass \<Rightarrow> bool" where
  "subscribed cls sub \<longleftrightarrow> cls < length class_mask \<and> sub \<in> set (class_mask ! cls)"

text \<open>Whether the server delivers an event; a table access has one of the four subclasses.\<close>

definition delivered_event :: "audit_event \<Rightarrow> bool" where
  "delivered_event ev =
     (case ev of
        General_class sub e \<Rightarrow> subscribed GENERAL_CLASS (General sub)
      | Connection_class sub \<Rightarrow> subscribed CONNECTION_CLASS (Connection sub)
      | Table_access_class e \<Rightarrow> subscribed TABLE_ACCESS_CLASS TABLE_ACCESS_READ \<and> subscribed TABLE_ACCESS_CLASS TABLE_ACCESS_INSERT \<and>
          subscribed TABLE_ACCESS_CLASS TABLE_ACCESS_UPDATE \<and> subscribed TABLE_ACCESS_CLASS TABLE_ACCESS_DELETE
      | Other_class \<Rightarrow> False)"

lemmas mask_defs = class_mask_def GENERAL_CLASS_def CONNECTION_CLASS_def TABLE_ACCESS_CLASS_def subscribed_def

lemma delivered_iff:
  "delivered_event ev \<longleftrightarrow> (case ev of General_class sub e \<Rightarrow> sub = GENERAL_LOG \<or> sub = GENERAL_STATUS
     | Connection_class sub \<Rightarrow> sub = CONNECTION_DISCONNECT | Table_access_class e \<Rightarrow> True | Other_class \<Rightarrow> False)"
  by (simp add: delivered_event_def mask_defs split: audit_event.split)


section \<open>Steps with typed variables\<close>

text \<open>The steps of the plugin, where a scalar variable takes a value of its declared domain.\<close>

inductive typed_step :: "stdio \<Rightarrow> services \<Rightarrow> plugin \<Rightarrow> plugin \<Rightarrow> bool" for io srv where
  init: "\<not> plugin_ready p \<Longrightarrow> typed_step io srv p (snd (selective_trace_init p))"
| set_list: "plugin_ready p \<Longrightarrow> typed_step io srv p (snd (set_filter kind str p))"
| set_path: "plugin_ready p \<Longrightarrow> typed_step io srv p (update_file_path io save p)"
| set_scalar: "plugin_ready p \<Longrightarrow> sv \<in> set selective_trace_sysvars \<Longrightarrow> \<not> has_update sv \<Longrightarrow> in_domain (sysvar_type sv) v \<Longrightarrow>
    typed_step io srv p (store_scalar (sysvar_name sv) v p)"
| notify: "selective_trace_notify io cb thd event p = Some p' \<Longrightarrow> typed_step io srv p (start_writer p p')"
| writer: "thread_running (events p) \<Longrightarrow> writer_take (events p) = Some (evs, stop, q) \<Longrightarrow>
    typed_step io srv p (p\<lparr>events := q, sql_conn := run_batch srv evs (sql_conn p)\<rparr>)"
| deinit: "typed_step io srv p (selective_trace_deinit (join_writer srv p))"

inductive typed_reach :: "stdio \<Rightarrow> services \<Rightarrow> plugin \<Rightarrow> bool" for io srv where
  start: "typed_reach io srv loaded_plugin"
| step: "typed_reach io srv p \<Longrightarrow> typed_step io srv p p' \<Longrightarrow> typed_reach io srv p'"

lemma typed_plugin_step: "typed_step io srv p p' \<Longrightarrow> plugin_step io srv p p'"
proof (induction rule: typed_step.induct)
  case (set_scalar p sv v)
  have "\<exists>en out ms mp. store_scalar (sysvar_name sv) v p =
      p\<lparr>opt_enabled := en, opt_output := out, opt_min_duration_ms := ms, opt_mask_passwords := mp\<rparr>"
    by (cases p; cases v) (auto simp: store_scalar_def)
  then show ?case using plugin_step.set_scalars [OF set_scalar(1)] by metis
qed (auto intro: plugin_step.intros)

lemma typed_plugin_reach: "typed_reach io srv p \<Longrightarrow> plugin_reach io srv p"
proof (induction rule: typed_reach.induct)
  case start
  have "configured loaded_plugin" by (simp add: configured_def loaded_plugin_def new_writer_def new_policy_def)
  then show ?case by (rule plugin_reach.start)
next
  case (step p p')
  then show ?case using plugin_reach.step typed_plugin_step by blast
qed

definition typed_inv :: "plugin \<Rightarrow> bool" where
  "typed_inv p \<longleftrightarrow> opt_min_duration_ms p \<le> 0x7FFFFFFF \<and> (plugin_ready p \<longrightarrow> file_path_storage p \<noteq> None)"

lemma notify_typed: "selective_trace_notify io cb thd event p = Some p' \<Longrightarrow> typed_inv p' = typed_inv p"
  by (auto simp: selective_trace_notify_def notify_impl_def handle_status_event_def handle_table_access_event_def emit_def
      typed_inv_def split_beta Let_def split: audit_event.splits option.splits output_mode.splits if_splits)

lemma store_scalar_typed:
  assumes "sv \<in> set selective_trace_sysvars" and "in_domain (sysvar_type sv) v" and "typed_inv p"
  shows "typed_inv (store_scalar (sysvar_name sv) v p)"
  using assms by (cases v) (auto simp: selective_trace_sysvars_def store_scalar_def typed_inv_def)

lemma init_typed: "typed_inv p \<Longrightarrow> \<not> plugin_ready p \<Longrightarrow> typed_inv (snd (selective_trace_init p))"
  using text_or_empty_Some [of "opt_file_path p"]
  by (auto simp: typed_inv_def selective_trace_init_def rebuild_rules_locked_def Let_def split: sum.split prod.split)

lemma typed_reach_inv: "typed_reach io srv p \<Longrightarrow> typed_inv p"
proof (induction rule: typed_reach.induct)
  case (step p p')
  from step(2,3) show ?case
  proof (induction rule: typed_step.induct)
    case (notify cb thd event p p')
    then show ?case using notify_typed [OF notify(1)] by (simp add: start_writer_def typed_inv_def)
  qed (auto simp: store_scalar_typed init_typed, auto simp: typed_inv_def set_filter_def update_filter_list_def
      rebuild_rules_locked_def update_file_path_def selective_trace_deinit_def join_writer_def store_list_def Let_def
      split: sum.split filter_kind.split prod.split)
qed (simp add: loaded_plugin_def typed_inv_def)

section \<open>Properties\<close>



text \<open>
  The mask of audit events is exact: the events the server delivers under it are those for which
  there is a state that \<open>selective_trace_notify\<close> changes.  What the mask leaves out would have been ignored
  in every state, and nothing in it is superfluous.
\<close>

lemma subscription_exact:
  "delivered_event ev \<longleftrightarrow> (\<exists>io cb thd p. selective_trace_notify io cb thd ev p \<noteq> Some p)"
proof
  assume d: "delivered_event ev"
  define m :: state_map where "m = (if ev = Connection_class CONNECTION_DISCONNECT then [9 \<mapsto> zero_state] else Map.empty)"
  let ?p = "ready_plugin\<lparr>opt_enabled := True, states := Some m\<rparr>"
  have listens: "listens (sample_call 1) 9 ?p"
    by (simp add: listens_def ready_plugin_eq sample_call_def table_writer_is_self_def table_writer_init_def load_queue_def)
  have "entry_step True (active_rules ?p) (sample_call 1) ev (m 9) \<noteq> m 9"
    using d by (auto simp: delivered_iff m_def entry_step_def Let_def split: audit_event.splits)
  then have "states (the (selective_trace_notify sample_io (sample_call 1) 9 ev ?p)) \<noteq> states ?p"
    using notify_eq [OF listens, of m sample_io ev]
    by (auto simp: emit_opt_def emit_def fun_upd_def fun_eq_iff Let_def split_beta split: option.splits output_mode.splits)
  then have "selective_trace_notify sample_io (sample_call 1) 9 ev ?p \<noteq> Some ?p" by force
  then show "\<exists>io cb thd p. selective_trace_notify io cb thd ev p \<noteq> Some p" by blast
next
  assume "\<exists>io cb thd p. selective_trace_notify io cb thd ev p \<noteq> Some p"
  then show "delivered_event ev"
    by (auto simp: delivered_iff selective_trace_notify_def notify_impl_def split: audit_event.splits if_splits)
qed

end
