(* ===== verification/Mask_Memory.thy ===== *)
theory Mask_Memory
  imports Mask_Secrets "HOL-Library.Monad_Syntax"
begin

text \<open>
  \<open>mask_secrets\<close> of \<open>core/filter_engine.cc\<close> again, index by index.  \<open>q\<close> is the memory from \<open>query\<close> to
  \<open>query + query_len\<close>; a read outside of it, and a loop that does not end, have no result.  The
  definitions follow the loops of the code with their index \<open>i\<close> and the output built so far; the theorem
  at the end says that they always have a result, and that it is the one of the theory \<open>Mask_Secrets\<close>.
\<close>

section \<open>Reading\<close>

definition peek :: "string \<Rightarrow> nat \<Rightarrow> char option" where
  "peek q i = (if i < length q then Some (q ! i) else None)"

text \<open>\<open>while (i < len && p(q[i])) i++\<close>, and the same with \<open>out->push_back(q[i])\<close> in the body.\<close>

partial_function (option) skip_ix :: "(char \<Rightarrow> bool) \<Rightarrow> string \<Rightarrow> nat \<Rightarrow> nat option" where
  "skip_ix p q i =
     (if i < length q then do { c \<leftarrow> peek q i; if p c then skip_ix p q (i + 1) else Some i } else Some i)"

partial_function (option) copy_ix :: "(char \<Rightarrow> bool) \<Rightarrow> string \<Rightarrow> nat \<Rightarrow> string \<Rightarrow> (nat \<times> string) option" where
  "copy_ix p q i out =
     (if i < length q then do { c \<leftarrow> peek q i; if p c then copy_ix p q (i + 1) (out @ [c]) else Some (i, out) }
      else Some (i, out))"

text \<open>\<open>out->append(query + i, n)\<close> reads \<open>n\<close> bytes.\<close>

fun append_ix :: "string \<Rightarrow> nat \<Rightarrow> nat \<Rightarrow> string \<Rightarrow> string option" where
  "append_ix q i 0 out = Some out"
| "append_ix q i (Suc n) out = do { c \<leftarrow> peek q i; append_ix q (i + 1) n (out @ [c]) }"

fun kw_match_ix :: "string \<Rightarrow> nat \<Rightarrow> string \<Rightarrow> bool option" where
  "kw_match_ix q i [] = Some True"
| "kw_match_ix q i (k # kw) =
     (if i \<ge> length q then Some False
      else do { c \<leftarrow> peek q i; if up c \<noteq> k then Some False else kw_match_ix q (i + 1) kw })"

definition ident_ix :: "string \<Rightarrow> nat \<Rightarrow> bool option" where
  "ident_ix q i = do { c \<leftarrow> peek q i; Some (is_ident_char c) }"

definition kw_at_ix :: "string \<Rightarrow> nat \<Rightarrow> string \<Rightarrow> bool option" where
  "kw_at_ix q i kw =
     do { same \<leftarrow> kw_match_ix q i kw;
          if \<not> same then Some False
          else do { before \<leftarrow> (if i > 0 then ident_ix q (i - 1) else Some False);
                    if before then Some False
                    else do { after \<leftarrow> (if i + length kw < length q then ident_ix q (i + length kw) else Some False);
                              Some (\<not> after) } } }"

section \<open>Masking\<close>

partial_function (option) skip_body_ix :: "char \<Rightarrow> string \<Rightarrow> nat \<Rightarrow> nat option" where
  "skip_body_ix quote q i =
     (if i < length q then
        do { c \<leftarrow> peek q i;
             if c = CHR 0x5C \<and> i + 1 < length q then skip_body_ix quote q (i + 2)
             else if c = quote then Some i
             else skip_body_ix quote q (i + 1) }
      else Some i)"

text \<open>\<open>q[i + 1]\<close> is read only where the left operands of \<open>&&\<close> hold.\<close>

definition hex_mark_ix :: "string \<Rightarrow> nat \<Rightarrow> char \<Rightarrow> bool option" where
  "hex_mark_ix q i c =
     (if i + 1 < length q \<and> c = CHR ''0'' then do { x \<leftarrow> peek q (i + 1); Some (x = CHR ''x'' \<or> x = CHR ''X'') }
      else Some False)"

definition mask_following_quote_ix :: "string \<Rightarrow> nat \<Rightarrow> string \<Rightarrow> bool \<Rightarrow> (nat \<times> string \<times> bool) option" where
  "mask_following_quote_ix q i out masked =
     do { (i, out) \<leftarrow> copy_ix is_sep q i out;
          if i \<ge> length q then Some (i, out, masked)
          else do {
            c \<leftarrow> peek q i;
            if c = CHR 0x27 \<or> c = CHR 0x22 then do {
              i \<leftarrow> skip_body_ix c q (i + 1);
              if i < length q then Some (i + 1, out @ c # ''***'' @ [c], True) else Some (i, out @ c # ''***'', True) }
            else do {
              hex \<leftarrow> hex_mark_ix q i c;
              if hex then do { i \<leftarrow> skip_ix is_hex q (i + 2); Some (i, out @ ''0x***'', True) }
              else Some (i, out, masked) } } }"

partial_function (option) scan_connector_ix :: "string \<Rightarrow> nat \<Rightarrow> string \<Rightarrow> (nat \<times> string) option" where
  "scan_connector_ix q i out =
     (if i < length q then
        do { by_kw \<leftarrow> kw_at_ix q i ''BY'';
             if by_kw then do { out \<leftarrow> append_ix q i 2 out; Some (i + 2, out) }
             else do { as_kw \<leftarrow> kw_at_ix q i ''AS'';
               if as_kw then do { out \<leftarrow> append_ix q i 2 out; Some (i + 2, out) }
               else do { using_kw \<leftarrow> kw_at_ix q i ''USING'';
                 if using_kw then do { out \<leftarrow> append_ix q i 5 out; Some (i + 5, out) }
                 else do { c \<leftarrow> peek q i;
                   if c = CHR 0x27 \<or> c = CHR 0x22 then Some (i, out)
                   else do { hex \<leftarrow> hex_mark_ix q i c;
                     if hex then Some (i, out) else scan_connector_ix q (i + 1) (out @ [c]) } } } } }
      else Some (i, out))"

definition mask_identified_ix :: "string \<Rightarrow> nat \<Rightarrow> string \<Rightarrow> bool \<Rightarrow> (nat \<times> string \<times> bool) option" where
  "mask_identified_ix q i out masked =
     do { out \<leftarrow> append_ix q i 10 out;
          (i, out) \<leftarrow> scan_connector_ix q (i + 10) out;
          j \<leftarrow> skip_ix is_blank q i;
          pw \<leftarrow> kw_at_ix q j ''PASSWORD'';
          (i, out) \<leftarrow> (if pw then do { out \<leftarrow> append_ix q i (j - i) out; out \<leftarrow> append_ix q j 8 out; Some (j + 8, out) }
                      else Some (i, out));
          mask_following_quote_ix q i out masked }"

definition mask_after_ix :: "nat \<Rightarrow> string \<Rightarrow> nat \<Rightarrow> string \<Rightarrow> bool \<Rightarrow> (nat \<times> string \<times> bool) option" where
  "mask_after_ix n q i out masked =
     do { out \<leftarrow> append_ix q i n out; mask_following_quote_ix q (i + n) out masked }"

partial_function (option) mask_loop_ix :: "string \<Rightarrow> nat \<Rightarrow> string \<Rightarrow> bool \<Rightarrow> (string \<times> bool) option" where
  "mask_loop_ix q i out masked =
     (if i < length q then
        do { identified \<leftarrow> kw_at_ix q i ''IDENTIFIED'';
             if identified then do { (i, out, masked) \<leftarrow> mask_identified_ix q i out masked; mask_loop_ix q i out masked }
             else do { old_password \<leftarrow> kw_at_ix q i ''OLD_PASSWORD'';
               if old_password then do { (i, out, masked) \<leftarrow> mask_after_ix 12 q i out masked; mask_loop_ix q i out masked }
               else do { password \<leftarrow> kw_at_ix q i ''PASSWORD'';
                 if password then do { (i, out, masked) \<leftarrow> mask_after_ix 8 q i out masked; mask_loop_ix q i out masked }
                 else do { c \<leftarrow> peek q i; mask_loop_ix q (i + 1) (out @ [c]) masked } } } }
      else Some (out, masked))"

definition mask_secrets_ix :: "string \<Rightarrow> (string \<times> bool) option" where
  "mask_secrets_ix query = mask_loop_ix query 0 [] False"

section \<open>An index and its cursor\<close>

definition cursor_at :: "string \<Rightarrow> nat \<Rightarrow> cursor" where
  "cursor_at q i = (if i = 0 then None else Some (q ! (i - 1)), drop i q)"

lemma cursor_at_bytes [simp]: "snd (cursor_at q i) = drop i q"
  by (simp add: cursor_at_def)

lemma peek_Some [simp]: "i < length q \<Longrightarrow> peek q i = Some (q ! i)"
  by (simp add: peek_def)

lemma drop_ix: "i < length q \<Longrightarrow> drop i q = q ! i # drop (Suc i) q"
  by (simp add: Cons_nth_drop_Suc)

lemma cursor_at_Cons: "i < length q \<Longrightarrow> cursor_at q i = (fst (cursor_at q i), q ! i # drop (Suc i) q)"
  using drop_ix [of i q] by (simp add: cursor_at_def)

lemma cursor_at_Suc: "(Some (q ! i), drop (Suc i) q) = cursor_at q (Suc i)"
  by (simp add: cursor_at_def)

lemma cursor_at_pair: "(fst (cursor_at q i), drop i q) = cursor_at q i"
  by (simp add: prod_eq_iff)

lemma cursor_at_end: "length q \<le> i \<Longrightarrow> cursor_at q i = (fst (cursor_at q i), [])"
  by (simp add: cursor_at_def)

lemma advance_cursor: "i + n \<le> length q \<Longrightarrow> advance n (cursor_at q i) = cursor_at q (i + n)"
proof (induction n arbitrary: i)
  case (Suc n)
  then have "i < length q" by simp
  from cursor_at_Cons [OF this] have "advance (Suc n) (cursor_at q i) = advance n (cursor_at q (Suc i))"
    by (metis advance.simps(1) cursor_at_Suc)
  then show ?case using Suc by simp
qed simp

lemma append_ix_take: "i + n \<le> length q \<Longrightarrow> append_ix q i n out = Some (out @ take n (drop i q))"
proof (induction n arbitrary: i out)
  case (Suc n)
  then show ?case using drop_ix [of i q] Suc.IH [of "Suc i"] by simp
qed simp

lemma kw_match_ix_prefix: "i \<le> length q \<Longrightarrow> kw_match_ix q i kw = Some (kw_prefix (drop i q) kw)"
proof (induction kw arbitrary: i)
  case (Cons k kw)
  then show ?case using drop_ix [of i q] Cons.IH [of "Suc i"] by (cases "i < length q") simp_all
qed simp

lemma kw_at_ix_eq:
  assumes "i \<le> length q"
  shows "kw_at_ix q i kw = Some (kw_at (cursor_at q i) kw)"
proof -
  have "kw_prefix (drop i q) kw \<Longrightarrow> i + length kw \<le> length q"
    using kw_prefix_length [of "drop i q" kw] assms by simp
  moreover have "i + length kw < length q \<Longrightarrow> drop (length kw + i) q = q ! (i + length kw) # drop (Suc (i + length kw)) q"
    by (simp add: Cons_nth_drop_Suc add.commute)
  ultimately show ?thesis
    using assms by (auto simp: kw_at_ix_def kw_match_ix_prefix kw_at_def cursor_at_def ident_ix_def not_less add.commute)
qed

section \<open>Each loop ends, reads inside, and is the loop on cursors\<close>

lemma span_while_at:
  "length q \<le> i \<Longrightarrow> span_while p (cursor_at q i) = ([], cursor_at q i)"
  "i < length q \<Longrightarrow> span_while p (cursor_at q i) =
     (if p (q ! i) then (q ! i # fst (span_while p (cursor_at q (Suc i))), snd (span_while p (cursor_at q (Suc i))))
      else ([], cursor_at q i))"
proof -
  show "length q \<le> i \<Longrightarrow> span_while p (cursor_at q i) = ([], cursor_at q i)"
    using cursor_at_end [of q i] span_while.simps(1) [of p "fst (cursor_at q i)"] by simp
  assume "i < length q"
  then have "cursor_at q i = (fst (cursor_at q i), q ! i # drop (Suc i) q)" by (rule cursor_at_Cons)
  then show "span_while p (cursor_at q i) =
     (if p (q ! i) then (q ! i # fst (span_while p (cursor_at q (Suc i))), snd (span_while p (cursor_at q (Suc i))))
      else ([], cursor_at q i))"
    using span_while.simps(2) [of p "fst (cursor_at q i)" "q ! i" "drop (Suc i) q"] by (simp add: cursor_at_Suc split_beta)
qed

lemma copy_ix_span:
  "i \<le> length q \<Longrightarrow> \<exists>j. i \<le> j \<and> j \<le> length q \<and> copy_ix p q i out = Some (j, out @ fst (span_while p (cursor_at q i))) \<and>
     snd (span_while p (cursor_at q i)) = cursor_at q j"
proof (induction "length q - i" arbitrary: i out rule: less_induct)
  case less
  show ?case
  proof (cases "i < length q \<and> p (q ! i)")
    case True
    then have "length q - Suc i < length q - i" "Suc i \<le> length q" by auto
    then obtain j where "Suc i \<le> j" "j \<le> length q" "snd (span_while p (cursor_at q (Suc i))) = cursor_at q j"
      "copy_ix p q (Suc i) (out @ [q ! i]) = Some (j, (out @ [q ! i]) @ fst (span_while p (cursor_at q (Suc i))))"
      using less.hyps [of "Suc i" "out @ [q ! i]"] by blast
    then show ?thesis using True by (intro exI [of _ j]) (simp add: copy_ix.simps [of p q i] span_while_at(2))
  next
    case False
    then show ?thesis
      using less.prems span_while_at(1) [of q i p] span_while_at(2) [of i q p] copy_ix.simps [of p q i]
      by (intro exI [of _ i]) (cases "i < length q"; simp)
  qed
qed

lemma skip_ix_span:
  "i \<le> length q \<Longrightarrow> \<exists>j. i \<le> j \<and> j \<le> length q \<and> skip_ix p q i = Some j \<and>
     span_while p (cursor_at q i) = (take (j - i) (drop i q), cursor_at q j)"
proof (induction "length q - i" arbitrary: i rule: less_induct)
  case less
  show ?case
  proof (cases "i < length q \<and> p (q ! i)")
    case True
    then have "length q - Suc i < length q - i" "Suc i \<le> length q" by auto
    then obtain j where j: "Suc i \<le> j" "j \<le> length q" "skip_ix p q (Suc i) = Some j"
      "span_while p (cursor_at q (Suc i)) = (take (j - Suc i) (drop (Suc i) q), cursor_at q j)"
      using less.hyps [of "Suc i"] by blast
    then have "take (j - i) (drop i q) = q ! i # take (j - Suc i) (drop (Suc i) q)"
      using drop_ix [of i q] True by (cases j) (simp_all add: Suc_diff_le)
    then show ?thesis using True j by (intro exI [of _ j]) (simp add: skip_ix.simps [of p q i] span_while_at(2))
  next
    case False
    then show ?thesis
      using less.prems span_while_at(1) [of q i p] span_while_at(2) [of i q p] skip_ix.simps [of p q i]
      by (intro exI [of _ i]) (cases "i < length q"; simp)
  qed
qed

lemma skip_body_at:
  "length q \<le> i \<Longrightarrow> skip_body quote (cursor_at q i) = cursor_at q i"
  "i < length q \<Longrightarrow> skip_body quote (cursor_at q i) =
     (if q ! i = CHR 0x5C \<and> Suc i < length q then skip_body quote (cursor_at q (Suc (Suc i)))
      else if q ! i = quote then cursor_at q i else skip_body quote (cursor_at q (Suc i)))"
proof -
  show "length q \<le> i \<Longrightarrow> skip_body quote (cursor_at q i) = cursor_at q i"
    using cursor_at_end [of q i] by (metis skip_body.simps(1))
  assume less: "i < length q"
  show "skip_body quote (cursor_at q i) =
     (if q ! i = CHR 0x5C \<and> Suc i < length q then skip_body quote (cursor_at q (Suc (Suc i)))
      else if q ! i = quote then cursor_at q i else skip_body quote (cursor_at q (Suc i)))"
  proof (cases "Suc i < length q")
    case True
    have "cursor_at q i = (fst (cursor_at q i), q ! i # q ! Suc i # drop (Suc (Suc i)) q)"
      using cursor_at_Cons [OF less] drop_ix [OF True] by metis
    moreover have "cursor_at q (Suc i) = (Some (q ! i), q ! Suc i # drop (Suc (Suc i)) q)"
      using drop_ix [OF True] by (simp add: cursor_at_def)
    ultimately show ?thesis using True by (metis cursor_at_Suc skip_body.simps(3))
  next
    case False
    then have "drop (Suc i) q = []" "cursor_at q (Suc i) = (Some (q ! i), [])" by (simp_all add: cursor_at_def)
    then show ?thesis using False cursor_at_Cons [OF less] by (metis skip_body.simps(1) skip_body.simps(2))
  qed
qed

lemma skip_body_ix_eq:
  "i \<le> length q \<Longrightarrow> \<exists>j. i \<le> j \<and> j \<le> length q \<and> skip_body_ix quote q i = Some j \<and> skip_body quote (cursor_at q i) = cursor_at q j"
proof (induction "length q - i" arbitrary: i rule: less_induct)
  case less
  note step = skip_body_ix.simps [of quote q i] skip_body_at(1) [of q i quote] skip_body_at(2) [of i q quote]
  show ?case
  proof (cases "i < length q")
    case True
    consider "q ! i = CHR 0x5C \<and> Suc i < length q" | "\<not> (q ! i = CHR 0x5C \<and> Suc i < length q)" "q ! i = quote"
      | "\<not> (q ! i = CHR 0x5C \<and> Suc i < length q)" "q ! i \<noteq> quote" by blast
    then show ?thesis
    proof cases
      case 1
      then obtain j where "Suc (Suc i) \<le> j" "j \<le> length q" "skip_body_ix quote q (Suc (Suc i)) = Some j"
        "skip_body quote (cursor_at q (Suc (Suc i))) = cursor_at q j"
        using less.hyps [of "Suc (Suc i)"] True by (metis Suc_leI diff_less_mono2 lessI less_SucI)
      then show ?thesis using 1 step True by (intro exI [of _ j]) simp
    next
      case 2
      then show ?thesis using step True by (intro exI [of _ i]) auto
    next
      case 3
      obtain j where "Suc i \<le> j" "j \<le> length q" "skip_body_ix quote q (Suc i) = Some j"
        "skip_body quote (cursor_at q (Suc i)) = cursor_at q j"
        using less.hyps [of "Suc i"] True by (metis Suc_leI diff_less_mono2 lessI)
      then show ?thesis using 3 step True by (intro exI [of _ j]) auto
    qed
  next
    case False
    then show ?thesis using less.prems step by (intro exI [of _ i]) simp
  qed
qed

lemma hex_mark_ix_eq:
  "i < length q \<Longrightarrow> hex_mark_ix q i (q ! i) = Some (drop (Suc i) q \<noteq> [] \<and> q ! i = CHR ''0'' \<and>
     (hd (drop (Suc i) q) = CHR ''x'' \<or> hd (drop (Suc i) q) = CHR ''X''))"
  by (auto simp: hex_mark_ix_def hd_drop_conv_nth)

lemma mask_following_quote_ix_eq:
  assumes "i \<le> length q"
  shows "\<exists>j. i \<le> j \<and> j \<le> length q \<and> (case mask_following_quote (cursor_at q i) of (tail, m, cur) \<Rightarrow>
    cur = cursor_at q j \<and> mask_following_quote_ix q i out masked = Some (j, out @ tail, masked \<or> m))"
proof -
  obtain k where k: "i \<le> k" "k \<le> length q" "snd (span_while is_sep (cursor_at q i)) = cursor_at q k"
    "copy_ix is_sep q i out = Some (k, out @ fst (span_while is_sep (cursor_at q i)))"
    using copy_ix_span [OF assms] by blast
  define seps where "seps = fst (span_while is_sep (cursor_at q i))"
  then have span: "span_while is_sep (cursor_at q i) = (seps, cursor_at q k)" and
    copy: "copy_ix is_sep q i out = Some (k, out @ seps)" using k(3,4) by (simp_all add: prod_eq_iff)
  note defs = mask_following_quote_def mask_following_quote_ix_def span copy
  show ?thesis
  proof (cases "k < length q")
    case False
    then show ?thesis using k(1,2) by (intro exI [of _ k]) (simp add: defs)
  next
    case True
    note at = drop_ix [OF True] cursor_at_Suc [of q k]
    show ?thesis
    proof (cases "q ! k = CHR 0x27 \<or> q ! k = CHR 0x22")
      case quoted: True
      obtain j where j: "Suc k \<le> j" "j \<le> length q" "skip_body_ix (q ! k) q (Suc k) = Some j"
        "skip_body (q ! k) (cursor_at q (Suc k)) = cursor_at q j"
        using skip_body_ix_eq [of "Suc k" q "q ! k"] True by auto
      show ?thesis
      proof (cases "j < length q")
        case inside: True
        then have "advance 1 (cursor_at q j) = cursor_at q (Suc j)" using advance_cursor [of j 1 q] by simp
        then show ?thesis
          using j k(1) True quoted inside at drop_ix [OF inside] by (intro exI [of _ "Suc j"]) (simp add: defs)
      next
        case outside: False
        then show ?thesis using j k(1) True quoted at by (intro exI [of _ j]) (simp add: defs)
      qed
    next
      case plain: False
      show ?thesis
      proof (cases "drop (Suc k) q \<noteq> [] \<and> q ! k = CHR ''0'' \<and> (hd (drop (Suc k) q) = CHR ''x'' \<or> hd (drop (Suc k) q) = CHR ''X'')")
        case hex: True
        then have room: "k + 2 \<le> length q" by simp
        then obtain j where "k + 2 \<le> j" "j \<le> length q" "skip_ix is_hex q (k + 2) = Some j"
          "span_while is_hex (cursor_at q (k + 2)) = (take (j - (k + 2)) (drop (k + 2) q), cursor_at q j)"
          using skip_ix_span by blast
        then show ?thesis
          using k(1) True plain hex at advance_cursor [OF room] hex_mark_ix_eq [OF True] by (intro exI [of _ j]) (simp add: defs)
      next
        case False
        then show ?thesis using k(1,2) True plain at hex_mark_ix_eq [OF True] by (intro exI [of _ k]) (auto simp: defs)
      qed
    qed
  qed
qed

lemma kw_at_cursor_room: "kw_at (cursor_at q i) kw \<Longrightarrow> i \<le> length q \<Longrightarrow> i + length kw \<le> length q"
  using kw_at_length [of "cursor_at q i" kw] by simp

lemma scan_connector_ix_eq:
  "i \<le> length q \<Longrightarrow> \<exists>j. i \<le> j \<and> j \<le> length q \<and> (case scan_connector (cursor_at q i) of (conn, cur) \<Rightarrow>
     cur = cursor_at q j \<and> scan_connector_ix q i out = Some (j, out @ conn))"
proof (induction "length q - i" arbitrary: i out rule: less_induct)
  case less
  note unfold = scan_connector_ix.simps [of q i out] kw_at_ix_eq [OF less.prems]
  show ?case
  proof (cases "i < length q")
    case False
    then show ?thesis
      using less.prems unfold cursor_at_end [of q i] scan_connector.simps(1) [of "fst (cursor_at q i)"]
      by (intro exI [of _ i]) simp
  next
    case True
    have step: "scan_connector (cursor_at q i) =
      (if kw_at (cursor_at q i) ''BY'' then (take 2 (drop i q), advance 2 (cursor_at q i))
       else if kw_at (cursor_at q i) ''AS'' then (take 2 (drop i q), advance 2 (cursor_at q i))
       else if kw_at (cursor_at q i) ''USING'' then (take 5 (drop i q), advance 5 (cursor_at q i))
       else if q ! i = CHR 0x27 \<or> q ! i = CHR 0x22 then ([], cursor_at q i)
       else if q ! i = CHR ''0'' \<and> drop (Suc i) q \<noteq> [] \<and> (hd (drop (Suc i) q) = CHR ''x'' \<or> hd (drop (Suc i) q) = CHR ''X'')
         then ([], cursor_at q i)
       else (let (w, c) = scan_connector (cursor_at q (Suc i)) in (q ! i # w, c)))"
      using scan_connector.simps(2) [of "fst (cursor_at q i)" "q ! i" "drop (Suc i) q"]
      unfolding drop_ix [OF True, symmetric] cursor_at_Suc cursor_at_pair .
    obtain j where j: "Suc i \<le> j" "j \<le> length q" "case scan_connector (cursor_at q (Suc i)) of (conn, cur) \<Rightarrow>
        cur = cursor_at q j \<and> scan_connector_ix q (Suc i) (out @ [q ! i]) = Some (j, (out @ [q ! i]) @ conn)"
      using less.hyps [of "Suc i" "out @ [q ! i]"] True by (metis Suc_leI diff_less_mono2 lessI)
    have room: "kw_at (cursor_at q i) ''BY'' \<Longrightarrow> i + 2 \<le> length q" "kw_at (cursor_at q i) ''AS'' \<Longrightarrow> i + 2 \<le> length q"
      "kw_at (cursor_at q i) ''USING'' \<Longrightarrow> i + 5 \<le> length q"
      using kw_at_cursor_room [OF _ less.prems] by fastforce+
    consider "kw_at (cursor_at q i) ''BY'' \<or> kw_at (cursor_at q i) ''AS''"
      | "\<not> kw_at (cursor_at q i) ''BY''" "\<not> kw_at (cursor_at q i) ''AS''" "kw_at (cursor_at q i) ''USING''"
      | "\<not> kw_at (cursor_at q i) ''BY''" "\<not> kw_at (cursor_at q i) ''AS''" "\<not> kw_at (cursor_at q i) ''USING''" by blast
    then show ?thesis
    proof cases
      case 1
      then have "i + 2 \<le> length q" using room by blast
      then show ?thesis using 1 True unfold step by (intro exI [of _ "i + 2"]) (auto simp: append_ix_take advance_cursor)
    next
      case 2
      then have "i + 5 \<le> length q" using room by blast
      then show ?thesis using 2 True unfold step by (intro exI [of _ "i + 5"]) (auto simp: append_ix_take advance_cursor)
    next
      case 3
      show ?thesis
      proof (cases "q ! i = CHR 0x27 \<or> q ! i = CHR 0x22 \<or>
          q ! i = CHR ''0'' \<and> drop (Suc i) q \<noteq> [] \<and> (hd (drop (Suc i) q) = CHR ''x'' \<or> hd (drop (Suc i) q) = CHR ''X'')")
        case stop: True
        then show ?thesis using 3 True unfold step hex_mark_ix_eq [OF True] by (intro exI [of _ i]) auto
      next
        case go: False
        then show ?thesis
          using 3 True unfold step hex_mark_ix_eq [OF True] j by (intro exI [of _ j]) (auto simp: split_beta)
      qed
    qed
  qed
qed

lemma mask_identified_ix_eq:
  assumes "i \<le> length q" and "kw_at (cursor_at q i) ''IDENTIFIED''"
  shows "\<exists>j. i < j \<and> j \<le> length q \<and> (case mask_identified (cursor_at q i) of (txt, m, cur) \<Rightarrow>
    cur = cursor_at q j \<and> mask_identified_ix q i out masked = Some (j, out @ txt, masked \<or> m))"
proof -
  have room: "i + 10 \<le> length q" using kw_at_cursor_room [OF assms(2,1)] by simp
  let ?out = "out @ take 10 (drop i q)"
  obtain conn k where k: "i + 10 \<le> k" "k \<le> length q" "scan_connector (cursor_at q (i + 10)) = (conn, cursor_at q k)"
    "scan_connector_ix q (i + 10) ?out = Some (k, ?out @ conn)"
    using scan_connector_ix_eq [OF room, where out = ?out]
    by (cases "scan_connector (cursor_at q (i + 10))") (fastforce simp del: append_assoc)
  obtain l where l: "k \<le> l" "l \<le> length q" "skip_ix is_blank q k = Some l"
    "span_while is_blank (cursor_at q k) = (take (l - k) (drop k q), cursor_at q l)"
    using skip_ix_span [OF k(2)] by blast
  note start = append_ix_take [OF room] advance_cursor [OF room] k(3,4) l(3,4) kw_at_ix_eq [OF l(2)]
  show ?thesis
  proof (cases "kw_at (cursor_at q l) ''PASSWORD''")
    case True
    then have room': "l + 8 \<le> length q" using kw_at_cursor_room [OF True l(2)] by simp
    have copy: "append_ix q k (l - k) o' = Some (o' @ take (l - k) (drop k q))" for o'
      using append_ix_take [of k "l - k" q o'] l(1,2) by simp
    let ?out' = "((?out @ conn) @ take (l - k) (drop k q)) @ take 8 (drop l q)"
    obtain j where "l + 8 \<le> j \<and> j \<le> length q \<and> (case mask_following_quote (cursor_at q (l + 8)) of (tail, m, cur) \<Rightarrow>
      cur = cursor_at q j \<and> mask_following_quote_ix q (l + 8) ?out' masked = Some (j, ?out' @ tail, masked \<or> m))"
      using mask_following_quote_ix_eq [OF room', where out = ?out' and masked = masked] ..
    then show ?thesis
      using k(1) l(1) True start copy append_ix_take [OF room'] advance_cursor [OF room']
      by (intro exI [of _ j]) (auto simp: mask_identified_def mask_identified_ix_def split: prod.splits)
  next
    case False
    obtain j where "k \<le> j \<and> j \<le> length q \<and> (case mask_following_quote (cursor_at q k) of (tail, m, cur) \<Rightarrow>
      cur = cursor_at q j \<and> mask_following_quote_ix q k (?out @ conn) masked = Some (j, (?out @ conn) @ tail, masked \<or> m))"
      using mask_following_quote_ix_eq [OF k(2), where out = "?out @ conn" and masked = masked] ..
    then show ?thesis
      using k(1) False start by (intro exI [of _ j]) (auto simp: mask_identified_def mask_identified_ix_def split: prod.splits)
  qed
qed

lemma mask_after_ix_eq:
  assumes "i + n \<le> length q" and "0 < n"
  shows "\<exists>j. i < j \<and> j \<le> length q \<and> (case mask_after n (cursor_at q i) of (txt, m, cur) \<Rightarrow>
    cur = cursor_at q j \<and> mask_after_ix n q i out masked = Some (j, out @ txt, masked \<or> m))"
proof -
  let ?out = "out @ take n (drop i q)"
  obtain j where "i + n \<le> j \<and> j \<le> length q \<and> (case mask_following_quote (cursor_at q (i + n)) of (tail, m, cur) \<Rightarrow>
    cur = cursor_at q j \<and> mask_following_quote_ix q (i + n) ?out masked = Some (j, ?out @ tail, masked \<or> m))"
    using mask_following_quote_ix_eq [OF assms(1), where out = ?out and masked = masked] ..
  then show ?thesis
    using assms(2) append_ix_take [OF assms(1)] advance_cursor [OF assms(1)]
    by (intro exI [of _ j]) (auto simp: mask_after_def mask_after_ix_def split: prod.splits)
qed

lemma mask_loop_ix_eq:
  "i \<le> length q \<Longrightarrow> mask_loop_ix q i out masked = Some (out @ fst (mask_loop (cursor_at q i)), masked \<or> snd (mask_loop (cursor_at q i)))"
proof (induction "length q - i" arbitrary: i out masked rule: less_induct)
  case less
  note unfold = mask_loop_ix.simps [of q i out masked] kw_at_ix_eq [OF less.prems]
  have later: "mask_loop_ix q j o' m = Some (o' @ fst (mask_loop (cursor_at q j)), m \<or> snd (mask_loop (cursor_at q j)))"
    if "i < j" "j \<le> length q" for j o' m
    using less.hyps [of j o' m] that by auto
  show ?case
  proof (cases "i < length q")
    case False
    then show ?thesis using unfold cursor_at_end [of q i] mask_loop.simps(1) [of "fst (cursor_at q i)"] by simp
  next
    case True
    have step: "mask_loop (cursor_at q i) = (case trigger (cursor_at q i) of
        Some (txt, m, cur) \<Rightarrow> (let (rest, m') = mask_loop cur in (txt @ rest, m \<or> m'))
      | None \<Rightarrow> (let (rest, m') = mask_loop (cursor_at q (Suc i)) in (q ! i # rest, m')))"
      using mask_loop.simps(2) [of "fst (cursor_at q i)" "q ! i" "drop (Suc i) q"]
      unfolding drop_ix [OF True, symmetric] cursor_at_Suc cursor_at_pair .
    consider (identified) "kw_at (cursor_at q i) ''IDENTIFIED''"
      | (old) "\<not> kw_at (cursor_at q i) ''IDENTIFIED''" "kw_at (cursor_at q i) ''OLD_PASSWORD''"
      | (password) "\<not> kw_at (cursor_at q i) ''IDENTIFIED''" "\<not> kw_at (cursor_at q i) ''OLD_PASSWORD''" "kw_at (cursor_at q i) ''PASSWORD''"
      | (plain) "\<not> kw_at (cursor_at q i) ''IDENTIFIED''" "\<not> kw_at (cursor_at q i) ''OLD_PASSWORD''" "\<not> kw_at (cursor_at q i) ''PASSWORD''"
      by blast
    then show ?thesis
    proof cases
      case identified
      obtain j where "i < j \<and> j \<le> length q \<and> (case mask_identified (cursor_at q i) of (txt, m, cur) \<Rightarrow>
        cur = cursor_at q j \<and> mask_identified_ix q i out masked = Some (j, out @ txt, masked \<or> m))"
        using mask_identified_ix_eq [OF less.prems identified, where out = out and masked = masked] ..
      then show ?thesis using later True identified unfold step by (auto simp: trigger_def split_beta split: prod.splits)
    next
      case old
      then have "i + 12 \<le> length q" using kw_at_cursor_room [OF old(2) less.prems] by simp
      then obtain j where "i < j" "j \<le> length q" "case mask_after 12 (cursor_at q i) of (txt, m, cur) \<Rightarrow>
        cur = cursor_at q j \<and> mask_after_ix 12 q i out masked = Some (j, out @ txt, masked \<or> m)"
        using mask_after_ix_eq [of i 12 q, where out = out and masked = masked] by auto
      then show ?thesis using later True old unfold step by (auto simp: trigger_def split_beta split: prod.splits)
    next
      case password
      then have "i + 8 \<le> length q" using kw_at_cursor_room [OF password(3) less.prems] by simp
      then obtain j where "i < j" "j \<le> length q" "case mask_after 8 (cursor_at q i) of (txt, m, cur) \<Rightarrow>
        cur = cursor_at q j \<and> mask_after_ix 8 q i out masked = Some (j, out @ txt, masked \<or> m)"
        using mask_after_ix_eq [of i 8 q, where out = out and masked = masked] by auto
      then show ?thesis using later True password unfold step by (auto simp: trigger_def split_beta split: prod.splits)
    next
      case plain
      then show ?thesis using later [of "Suc i"] True unfold step by (simp add: trigger_def split_beta)
    qed
  qed
qed

section \<open>Property\<close>

text \<open>
  (C14) \<open>mask_secrets\<close> is memory safe and ends.  For every query text, every read of the loops falls
  between \<open>query\<close> and \<open>query + query_len\<close>, every loop ends, and the result is that of the masking pass on
  cursors, which the other properties of masking are about.
\<close>

theorem mask_secrets_memory: "mask_secrets_ix query = Some (mask_secrets query)"
proof -
  have "cursor_at query 0 = (None, query)" by (simp add: cursor_at_def)
  then show ?thesis using mask_loop_ix_eq [of 0 query "[]" False] by (simp add: mask_secrets_ix_def mask_secrets_def)
qed

end
