(* ===== verification/Command_Memory.thy ===== *)
theory Command_Memory
  imports Mask_Memory Statement_State
begin

text \<open>
  The other scanners index by index, with their output buffers: \<open>extract_command\<close> of \<open>core/filter_engine.cc\<close>,
  and from \<open>src/selective_trace_mysql.cc\<close> the second pass of \<open>track_current_db\<close> and the search of \<open>state_add_table\<close>.  As
  in \<open>Mask_Memory\<close> a read or a write outside of the memory, and a loop that does not end, have no result.
\<close>

section \<open>Buffers\<close>

definition store :: "string \<Rightarrow> nat \<Rightarrow> char \<Rightarrow> string option" where
  "store buf n c = (if n < length buf then Some (buf[n := c]) else None)"

fun memcpy_ix :: "string \<Rightarrow> nat \<Rightarrow> string \<Rightarrow> string option" where
  "memcpy_ix buf n [] = Some buf"
| "memcpy_ix buf n (c # cs) = do { buf \<leftarrow> store buf n c; memcpy_ix buf (n + 1) cs }"

text \<open>\<open>memcmp(m + i, s, n) == 0\<close> and \<open>strcmp(m + i, s) == 0\<close>.\<close>

definition memcmp_ix :: "string \<Rightarrow> nat \<Rightarrow> string \<Rightarrow> bool option" where
  "memcmp_ix m i s = (if i + length s \<le> length m then Some (take (length s) (drop i m) = s) else None)"

fun strcmp_ix :: "string \<Rightarrow> nat \<Rightarrow> string \<Rightarrow> bool option" where
  "strcmp_ix m i [] = do { c \<leftarrow> peek m i; Some (c = CHR 0x00) }"
| "strcmp_ix m i (k # s) = do { c \<leftarrow> peek m i; if c = k then strcmp_ix m (i + 1) s else Some False }"

section \<open>\<open>extract_command\<close>\<close>

definition byte_ix :: "(char \<Rightarrow> bool) \<Rightarrow> string \<Rightarrow> nat \<Rightarrow> bool option" where
  "byte_ix p q i = (if i < length q then do { c \<leftarrow> peek q i; Some (p c) } else Some False)"

definition two_ix :: "string \<Rightarrow> nat \<Rightarrow> char \<Rightarrow> char \<Rightarrow> bool option" where
  "two_ix q i a b =
     (if i + 1 < length q then do { x \<leftarrow> peek q i; if x = a then do { y \<leftarrow> peek q (i + 1); Some (y = b) } else Some False }
      else Some False)"

partial_function (option) skip_block_ix :: "string \<Rightarrow> nat \<Rightarrow> nat option" where
  "skip_block_ix q p =
     (if p + 1 < length q then do { stop \<leftarrow> two_ix q p CHR ''*'' CHR ''/''; if stop then Some p else skip_block_ix q (p + 1) }
      else Some p)"

definition version_digit :: "char \<Rightarrow> bool" where
  "version_digit c \<longleftrightarrow> CHR ''0'' \<le> c \<and> c \<le> CHR ''9''"

text \<open>One round of the endless loop: where the next round starts, or that the loop is left.\<close>

definition skip_round_ix :: "string \<Rightarrow> nat \<Rightarrow> nat option option" where
  "skip_round_ix q p =
     do { white \<leftarrow> byte_ix (\<lambda>c. is_space c \<or> c = CHR ''('') q p;
          if white then Some (Some (p + 1))
          else do { block \<leftarrow> two_ix q p CHR ''/'' CHR ''*'';
            if block then do {
              exec \<leftarrow> byte_ix (\<lambda>c. c = CHR ''!'') q (p + 2);
              if exec then do { p \<leftarrow> skip_ix version_digit q (p + 3); Some (Some p) }
              else do { mexec \<leftarrow> (if p + 3 < length q then two_ix q (p + 2) CHR ''M'' CHR ''!'' else Some False);
                if mexec then do { p \<leftarrow> skip_ix version_digit q (p + 4); Some (Some p) }
                else do { p \<leftarrow> skip_block_ix q (p + 2); Some (Some (if p + 1 < length q then p + 2 else length q)) } } }
            else do { dashes \<leftarrow> two_ix q p CHR ''-'' CHR ''-'';
              line \<leftarrow> (if dashes then (if p + 2 = length q then Some True else do { c \<leftarrow> peek q (p + 2); Some (is_space c) })
                      else Some False);
              if line then do { p \<leftarrow> skip_ix (\<lambda>c. c \<noteq> CHR 0x0A) q p; Some (Some p) }
              else do { hash \<leftarrow> byte_ix (\<lambda>c. c = CHR ''#'') q p;
                if hash then do { p \<leftarrow> skip_ix (\<lambda>c. c \<noteq> CHR 0x0A) q p; Some (Some p) } else Some None } } } }"

partial_function (option) skip_leading_ix :: "string \<Rightarrow> nat \<Rightarrow> nat option" where
  "skip_leading_ix q p = do { next \<leftarrow> skip_round_ix q p; case next of None \<Rightarrow> Some p | Some p \<Rightarrow> skip_leading_ix q p }"

partial_function (option) read_keyword_ix :: "string \<Rightarrow> nat \<Rightarrow> string \<Rightarrow> nat \<Rightarrow> (nat \<times> string \<times> nat) option" where
  "read_keyword_ix q p buf n =
     (if p < length q \<and> n + 1 < length buf \<and> n < 16 then
        do { c \<leftarrow> peek q p;
             if kw_byte c then do { buf \<leftarrow> store buf n (kw_upper c); read_keyword_ix q (p + 1) buf (n + 1) }
             else Some (p, buf, n) }
      else Some (p, buf, n))"

partial_function (option) read_word_ix :: "string \<Rightarrow> nat \<Rightarrow> string \<Rightarrow> nat \<Rightarrow> (string \<times> nat) option" where
  "read_word_ix q p w m =
     (if p < length q \<and> m + 1 < length w then
        do { c \<leftarrow> peek q p;
             if word_byte c then do { w \<leftarrow> store w m (kw_upper c); read_word_ix q (p + 1) w (m + 1) } else Some (w, m) }
      else Some (w, m))"

text \<open>\<open>buf\<close> and \<open>w\<close> are the two arrays with whatever they hold at first; \<open>w\<close> has 12 bytes.\<close>

definition start_word_ix :: "string \<Rightarrow> nat \<Rightarrow> string \<Rightarrow> nat \<Rightarrow> string \<Rightarrow> string option" where
  "start_word_ix q p buf n w =
     do { start \<leftarrow> (if n = 5 then memcmp_ix buf 0 ''START'' else Some False);
          if start \<and> length buf \<ge> 6 then do {
            p \<leftarrow> skip_ix is_space q p;
            (w, m) \<leftarrow> read_word_ix q p w 0;
            w \<leftarrow> store w m CHR 0x00;
            transaction \<leftarrow> strcmp_ix w 0 ''TRANSACTION'';
            if transaction then memcpy_ix buf 0 (''BEGIN'' @ [CHR 0x00]) else Some buf }
          else Some buf }"

definition extract_command_ix :: "string \<Rightarrow> string \<Rightarrow> string \<Rightarrow> string option" where
  "extract_command_ix q buf w =
     (if length buf = 0 then Some buf
      else do {
        p \<leftarrow> skip_leading_ix q 0;
        (p, buf, n) \<leftarrow> read_keyword_ix q p buf 0;
        buf \<leftarrow> store buf n CHR 0x00;
        buf \<leftarrow> start_word_ix q p buf n w;
        if n = 0 then do {
          let m = min 5 (length buf - 1);
          buf \<leftarrow> memcpy_ix buf 0 (take m ''OTHER'');
          store buf m CHR 0x00 }
        else Some buf })"

section \<open>\<open>track_current_db\<close> and \<open>state_add_table\<close>\<close>

definition use_name_ix :: "string \<Rightarrow> string option option" where
  "use_name_ix q =
     do { p \<leftarrow> skip_ix (\<lambda>c. is_space c \<or> c = CHR ''('') q 0;
          if length q - p < 3 then Some None
          else do {
            p \<leftarrow> skip_ix is_space q (p + 3);
            if p \<ge> length q then Some None
            else do {
              c \<leftarrow> peek q p;
              let begin = (if c = CHR 0x60 then p + 1 else p);
              p \<leftarrow> skip_ix (if c = CHR 0x60 then (\<lambda>d. d \<noteq> CHR 0x60) else name_byte) q begin;
              if p > begin then do { name \<leftarrow> append_ix q begin (p - begin) []; Some (Some name) } else Some None } } }"

partial_function (option) has_table_ix :: "string \<Rightarrow> string \<Rightarrow> string \<Rightarrow> nat \<Rightarrow> bool option" where
  "has_table_ix hay db tbl pos =
     (if pos + (length db + 1 + length tbl) \<le> length hay then
        do { entry_end \<leftarrow> skip_ix (\<lambda>c. c \<noteq> CHR '','') hay pos;
             found \<leftarrow> (if entry_end - pos = length db + 1 + length tbl then
                 do { same_db \<leftarrow> memcmp_ix hay pos db;
                      if \<not> same_db then Some False
                      else do { dot \<leftarrow> peek hay (pos + length db);
                        if dot \<noteq> CHR ''.'' then Some False else memcmp_ix hay (pos + length db + 1) tbl } }
               else Some False);
             if found then Some True
             else if entry_end = length hay then Some False
             else has_table_ix hay db tbl (pos + (entry_end - pos) + 1) }
      else Some False)"

section \<open>Loops end and read inside\<close>

lemma span_while_drop: "snd (span_while p cur) = cursor_at q j \<Longrightarrow> drop j q = dropWhile p (snd cur)"
proof -
  have "snd (snd (span_while p cur)) = dropWhile p (snd cur)"
    by (induction p cur rule: span_while.induct) (simp_all add: split_beta)
  then show "snd (span_while p cur) = cursor_at q j \<Longrightarrow> drop j q = dropWhile p (snd cur)" by simp
qed

lemma skip_ix_drop:
  assumes "i \<le> length q"
  obtains j where "i \<le> j" "j \<le> length q" "skip_ix p q i = Some j" "drop j q = dropWhile p (drop i q)"
    "take (j - i) (drop i q) = takeWhile p (drop i q)"
proof -
  obtain j where j: "i \<le> j" "j \<le> length q" "skip_ix p q i = Some j"
    "span_while p (cursor_at q i) = (take (j - i) (drop i q), cursor_at q j)"
    using skip_ix_span [OF assms] by blast
  have "drop j q = dropWhile p (drop i q)" using span_while_drop [of p "cursor_at q i" q j] j(4) by simp
  moreover have "fst (span_while p cur) = takeWhile p (snd cur)" for cur
    by (induction p cur rule: span_while.induct) (simp_all add: split_beta)
  ultimately show thesis using that j by (metis cursor_at_bytes fst_conv)
qed

lemma byte_ix_eq: "byte_ix p q i = Some (i < length q \<and> p (q ! i))"
  by (simp add: byte_ix_def)

lemma two_ix_eq: "two_ix q i a b = Some (Suc i < length q \<and> q ! i = a \<and> q ! Suc i = b)"
  by (simp add: two_ix_def)

lemma skip_block_ix_eq:
  "p \<le> length q \<Longrightarrow> \<exists>j. p \<le> j \<and> j \<le> length q \<and> skip_block_ix q p = Some j \<and>
     drop (if j + 1 < length q then j + 2 else length q) q = skip_block (drop p q)"
proof (induction "length q - p" arbitrary: p rule: less_induct)
  case less
  show ?case
  proof (cases "Suc p < length q")
    case True
    then have d: "drop p q = q ! p # q ! Suc p # drop (Suc (Suc p)) q" using drop_ix [of p q] drop_ix [of "Suc p" q] by simp
    show ?thesis
    proof (cases "q ! p = CHR ''*'' \<and> q ! Suc p = CHR ''/''")
      case stop: True
      then show ?thesis using True d by (intro exI [of _ p]) (simp add: skip_block_ix.simps [of q p] two_ix_eq)
    next
      case go: False
      obtain j where "Suc p \<le> j" "j \<le> length q" "skip_block_ix q (Suc p) = Some j"
        "drop (if j + 1 < length q then j + 2 else length q) q = skip_block (drop (Suc p) q)"
        using less.hyps [of "Suc p"] True by (metis Suc_leI Suc_lessD diff_less_mono2 lessI)
      then show ?thesis
        using True go d drop_ix [OF True] by (intro exI [of _ j]) (auto simp: skip_block_ix.simps [of q p] two_ix_eq)
    qed
  next
    case False
    then have "length (drop p q) = 0 \<or> length (drop p q) = Suc 0" using less.prems by auto
    then have "drop p q = [] \<or> (\<exists>c. drop p q = [c])" by (metis length_0_conv length_Suc_conv)
    then show ?thesis using False less.prems by (intro exI [of _ p]) (auto simp: skip_block_ix.simps [of q p])
  qed
qed

lemma version_digit_eq: "version_digit = (\<lambda>c. CHR ''0'' \<le> c \<and> c \<le> CHR ''9'')"
  by (simp add: fun_eq_iff version_digit_def)

text \<open>One round of the endless loop makes progress or leaves it, as the list version does.\<close>

lemma skip_round_ix_eq:
  assumes "p \<le> length q"
  shows "(skip_round_ix q p = Some None \<and> skip_leading (drop p q) = drop p q) \<or>
    (\<exists>j. skip_round_ix q p = Some (Some j) \<and> p < j \<and> j \<le> length q \<and> skip_leading (drop p q) = skip_leading (drop j q))"
proof (cases "p < length q")
  case False
  then show ?thesis using assms by (simp add: skip_round_ix_def byte_ix_eq two_ix_eq)
next
  case True
  let ?r = "drop (Suc p) q"
  have split: "skip_leading (drop p q) =
     (if is_space (q ! p) \<or> q ! p = CHR ''('' then skip_leading ?r
      else if q ! p = CHR ''/'' \<and> Suc p < length q \<and> q ! Suc p = CHR ''*'' then
        (if p + 2 < length q \<and> q ! (p + 2) = CHR ''!'' then skip_leading (dropWhile version_digit (drop (p + 3) q))
         else if p + 3 < length q \<and> q ! (p + 2) = CHR ''M'' \<and> q ! (p + 3) = CHR ''!''
           then skip_leading (dropWhile version_digit (drop (p + 4) q))
         else skip_leading (skip_block (drop (p + 2) q)))
      else if q ! p = CHR ''-'' \<and> Suc p < length q \<and> q ! Suc p = CHR ''-'' \<and> (p + 2 = length q \<or> is_space (q ! (p + 2)))
        then skip_leading (dropWhile (\<lambda>c. c \<noteq> CHR 0x0A) (drop p q))
      else if q ! p = CHR ''#'' then skip_leading (dropWhile (\<lambda>c. c \<noteq> CHR 0x0A) (drop p q))
      else drop p q)"
  proof -
    have "Suc p \<le> length q" using True by simp
    then have nth: "?r ! 0 = q ! Suc p" "?r ! 1 = q ! (p + 2)" "?r ! 2 = q ! (p + 3)"
      by (simp_all add: numeral_2_eq_2 numeral_3_eq_3)
    have len: "?r \<noteq> [] \<longleftrightarrow> Suc p < length q" "length ?r > 1 \<longleftrightarrow> p + 2 < length q" "length ?r > 2 \<longleftrightarrow> p + 3 < length q"
      "length ?r = 1 \<longleftrightarrow> p + 2 = length q"
      using True by auto
    have drops: "drop 1 ?r = drop (p + 2) q" "drop 2 ?r = drop (p + 3) q" "drop 3 ?r = drop (p + 4) q"
      by (simp_all add: numeral_2_eq_2 numeral_3_eq_3 eval_nat_numeral)
    show ?thesis
      using skip_leading.simps(2) [of "q ! p" ?r]
      unfolding drop_ix [OF True, symmetric] nth len drops version_digit_eq [symmetric] .
  qed
  note round = skip_round_ix_def byte_ix_eq two_ix_eq
  consider (white) "is_space (q ! p) \<or> q ! p = CHR ''(''"
    | (exec) "\<not> (is_space (q ! p) \<or> q ! p = CHR ''('')" "q ! p = CHR ''/'' \<and> Suc p < length q \<and> q ! Suc p = CHR ''*''"
        "p + 2 < length q \<and> q ! (p + 2) = CHR ''!''"
    | (mexec) "\<not> (is_space (q ! p) \<or> q ! p = CHR ''('')" "q ! p = CHR ''/'' \<and> Suc p < length q \<and> q ! Suc p = CHR ''*''"
        "\<not> (p + 2 < length q \<and> q ! (p + 2) = CHR ''!'')" "p + 3 < length q \<and> q ! (p + 2) = CHR ''M'' \<and> q ! (p + 3) = CHR ''!''"
    | (comment) "\<not> (is_space (q ! p) \<or> q ! p = CHR ''('')" "q ! p = CHR ''/'' \<and> Suc p < length q \<and> q ! Suc p = CHR ''*''"
        "\<not> (p + 2 < length q \<and> q ! (p + 2) = CHR ''!'')" "\<not> (p + 3 < length q \<and> q ! (p + 2) = CHR ''M'' \<and> q ! (p + 3) = CHR ''!'')"
    | (rest) "\<not> (is_space (q ! p) \<or> q ! p = CHR ''('')" "\<not> (q ! p = CHR ''/'' \<and> Suc p < length q \<and> q ! Suc p = CHR ''*'')"
    by blast
  then show ?thesis
  proof cases
    case white
    then show ?thesis using True split by (simp add: round)
  next
    case exec
    then have "p + 3 \<le> length q" by simp
    then obtain j where "p + 3 \<le> j" "j \<le> length q" "skip_ix version_digit q (p + 3) = Some j"
      "drop j q = dropWhile version_digit (drop (p + 3) q)"
      using skip_ix_drop by blast
    then show ?thesis using True exec split by (intro disjI2 exI [of _ j]) (simp add: round)
  next
    case mexec
    then have "p + 4 \<le> length q" by simp
    then obtain j where "p + 4 \<le> j" "j \<le> length q" "skip_ix version_digit q (p + 4) = Some j"
      "drop j q = dropWhile version_digit (drop (p + 4) q)"
      using skip_ix_drop by blast
    then show ?thesis using True mexec split by (intro disjI2 exI [of _ j]) (simp add: round numeral_3_eq_3)
  next
    case comment
    then have "p + 2 \<le> length q" by simp
    then obtain j where "p + 2 \<le> j" "j \<le> length q" "skip_block_ix q (p + 2) = Some j"
      "drop (if j + 1 < length q then j + 2 else length q) q = skip_block (drop (p + 2) q)"
      using skip_block_ix_eq by blast
    then show ?thesis
      using True comment split
      by (intro disjI2 exI [of _ "if j + 1 < length q then j + 2 else length q"]) (auto simp: round numeral_3_eq_3)
  next
    case rest
    have "p \<le> length q" using True by simp
    then obtain j where j: "p \<le> j" "j \<le> length q" "skip_ix (\<lambda>c. c \<noteq> CHR 0x0A) q p = Some j"
      "drop j q = dropWhile (\<lambda>c. c \<noteq> CHR 0x0A) (drop p q)"
      using skip_ix_drop by blast
    have "length (dropWhile (\<lambda>c. c \<noteq> CHR 0x0A) (drop (Suc p) q)) \<le> length q - Suc p"
      using length_dropWhile_le [of "\<lambda>c. c \<noteq> CHR 0x0A" "drop (Suc p) q"] by simp
    moreover have "q ! p \<noteq> CHR 0x0A \<Longrightarrow> drop j q = dropWhile (\<lambda>c. c \<noteq> CHR 0x0A) (drop (Suc p) q)"
      using j(4) unfolding drop_ix [OF True] by simp
    then have "q ! p \<noteq> CHR 0x0A \<Longrightarrow> length q - j = length (dropWhile (\<lambda>c. c \<noteq> CHR 0x0A) (drop (Suc p) q))"
      by (metis length_drop)
    ultimately have less: "q ! p \<noteq> CHR 0x0A \<Longrightarrow> p < j" using True j(1) by (cases "j = p") auto
    let ?line = "q ! p = CHR ''-'' \<and> Suc p < length q \<and> q ! Suc p = CHR ''-'' \<and> (p + 2 = length q \<or> is_space (q ! (p + 2)))"
    have no_block: "\<not> (Suc p < length q \<and> q ! p = CHR ''/'' \<and> q ! Suc p = CHR ''*'')" using rest(2) by blast
    have split': "skip_leading (drop p q) = (if ?line then skip_leading (drop j q)
      else if q ! p = CHR ''#'' then skip_leading (drop j q) else drop p q)"
      unfolding split j(4) if_not_P [OF rest(1)] if_not_P [OF rest(2)] ..
    show ?thesis
    proof (cases "?line \<or> q ! p = CHR ''#''")
      case skip: True
      then have "skip_round_ix q p = Some (Some j)"
        unfolding skip_round_ix_def byte_ix_eq two_ix_eq using True rest(1) no_block j(3) by auto
      moreover have "skip_leading (drop p q) = skip_leading (drop j q)"
        using skip unfolding split' by metis
      moreover have "p < j" using less skip by auto
      ultimately show ?thesis using j(2) by blast
    next
      case False
      then have "skip_round_ix q p = Some None"
        unfolding skip_round_ix_def byte_ix_eq two_ix_eq using True rest(1) no_block by auto
      moreover have "skip_leading (drop p q) = drop p q" using False unfolding split' by metis
      ultimately show ?thesis by blast
    qed
  qed
qed

lemma skip_leading_ix_eq:
  "p \<le> length q \<Longrightarrow> \<exists>j. j \<le> length q \<and> skip_leading_ix q p = Some j \<and> drop j q = skip_leading (drop p q)"
proof (induction "length q - p" arbitrary: p rule: less_induct)
  case less
  from skip_round_ix_eq [OF less.prems] show ?case
  proof
    assume "skip_round_ix q p = Some None \<and> skip_leading (drop p q) = drop p q"
    then show ?thesis using less.prems by (intro exI [of _ p]) (simp add: skip_leading_ix.simps [of q p])
  next
    assume "\<exists>j. skip_round_ix q p = Some (Some j) \<and> p < j \<and> j \<le> length q \<and> skip_leading (drop p q) = skip_leading (drop j q)"
    then obtain j where "skip_round_ix q p = Some (Some j)" "p < j" "j \<le> length q" "skip_leading (drop p q) = skip_leading (drop j q)"
      by blast
    then show ?thesis using less.hyps [of j] by (simp add: skip_leading_ix.simps [of q p])
  qed
qed

lemma store_ok [simp]: "n < length buf \<Longrightarrow> store buf n c = Some (buf[n := c])"
  by (simp add: store_def)

lemma memcpy_ix_eq: "n + length cs \<le> length buf \<Longrightarrow> memcpy_ix buf n cs = Some (take n buf @ cs @ drop (n + length cs) buf)"
proof (induction cs arbitrary: buf n)
  case (Cons c cs)
  then show ?case using Cons.IH [of "n + 1" "buf[n := c]"] by (simp add: take_Suc_conv_app_nth)
qed simp

lemma strcmp_ix_eq: "drop i m = w @ CHR 0x00 # t \<Longrightarrow> CHR 0x00 \<notin> set w \<Longrightarrow> CHR 0x00 \<notin> set s \<Longrightarrow> strcmp_ix m i s = Some (w = s)"
proof (induction s arbitrary: w i)
  case Nil
  have less: "i < length m" using Nil(1) by (cases "i < length m") auto
  then have "m ! i = hd (w @ CHR 0x00 # t)" using Nil(1) by (metis hd_drop_conv_nth)
  then show ?case using less Nil(2) by (cases w) auto
next
  case (Cons k s)
  have less: "i < length m" using Cons.prems(1) by (cases "i < length m") auto
  have tail: "drop (Suc i) m = tl (w @ CHR 0x00 # t)" using Cons.prems(1) by (metis drop_Suc tl_drop)
  have head: "m ! i = hd (w @ CHR 0x00 # t)" using Cons.prems(1) less by (metis hd_drop_conv_nth)
  show ?case
  proof (cases w)
    case Nil
    then show ?thesis using less head Cons.prems(3) by auto
  next
    case (Cons c v)
    then show ?thesis using less head tail Cons.IH [of "Suc i" v] Cons.prems by auto
  qed
qed

text \<open>A run of keyword bytes into a buffer with room for \<open>lim\<close> of them and the NUL.\<close>

lemma read_keyword_ix_eq:
  "p \<le> length q \<Longrightarrow> n < length buf \<Longrightarrow> n \<le> 16 \<Longrightarrow> \<exists>j buf' w. read_keyword_ix q p buf n = Some (j, buf', n + length w) \<and>
     read_keyword (min (length buf - 1) 16 - n) (drop p q) = (w, drop j q) \<and> j \<le> length q \<and>
     length buf' = length buf \<and> n + length w < length buf \<and> take (n + length w) buf' = take n buf @ w"
proof (induction "length q - p" arbitrary: p n buf rule: less_induct)
  case less
  show ?case
  proof (cases "p < length q \<and> n + 1 < length buf \<and> n < 16")
    case False
    have "read_keyword (min (length buf - 1) 16 - n) (drop p q) = ([], drop p q)"
    proof (cases "p < length q")
      case True
      then have "min (length buf - 1) 16 - n = 0" using False less.prems by auto
      then show ?thesis by simp
    next
      case False
      then show ?thesis by (cases "min (length buf - 1) 16 - n") simp_all
    qed
    moreover have "read_keyword_ix q p buf n = Some (p, buf, n)" using False by (auto simp: read_keyword_ix.simps [of q p])
    ultimately show ?thesis using less.prems by (intro exI [of _ p] exI [of _ buf] exI [of _ "[]"]) simp
  next
    case True
    then obtain k where k: "min (length buf - 1) 16 - n = Suc k" "min (length buf - 1) 16 - Suc n = k"
      by (cases "min (length buf - 1) 16 - n") auto
    note d = drop_ix [of p q] True
    show ?thesis
    proof (cases "kw_byte (q ! p)")
      case False
      then show ?thesis
        using d k less.prems by (intro exI [of _ p] exI [of _ buf] exI [of _ "[]"]) (simp add: read_keyword_ix.simps [of q p])
    next
      case byte: True
      let ?buf = "buf[n := kw_upper (q ! p)]"
      have "length q - Suc p < length q - p" "Suc p \<le> length q" "Suc n < length ?buf" "Suc n \<le> 16" using True by auto
      note hyp = less.hyps [OF this]
      obtain j buf' w where IH: "read_keyword_ix q (Suc p) ?buf (Suc n) = Some (j, buf', Suc n + length w)"
        "read_keyword (min (length ?buf - 1) 16 - Suc n) (drop (Suc p) q) = (w, drop j q)" "j \<le> length q"
        "length buf' = length ?buf" "Suc n + length w < length ?buf" "take (Suc n + length w) buf' = take (Suc n) ?buf @ w"
        using hyp by blast
      have "take (Suc n) ?buf = take n buf @ [kw_upper (q ! p)]" using True by (simp add: take_Suc_conv_app_nth)
      then show ?thesis
        using IH d k byte less.prems
        by (intro exI [of _ j] exI [of _ buf'] exI [of _ "kw_upper (q ! p) # w"]) (simp add: read_keyword_ix.simps [of q p])
    qed
  qed
qed

lemma read_word_ix_eq:
  "p \<le> length q \<Longrightarrow> m < length w \<Longrightarrow> \<exists>w' v. read_word_ix q p w m = Some (w', m + length v) \<and>
     v = map kw_upper (take (length w - 1 - m) (takeWhile word_byte (drop p q))) \<and>
     length w' = length w \<and> m + length v < length w \<and> take (m + length v) w' = take m w @ v"
proof (induction "length q - p" arbitrary: p m w rule: less_induct)
  case less
  show ?case
  proof (cases "p < length q \<and> m + 1 < length w \<and> word_byte (q ! p)")
    case False
    have "take (length w - 1 - m) (takeWhile word_byte (drop p q)) = []"
      using False less.prems drop_ix [of p q] by (cases "p < length q") auto
    moreover have "read_word_ix q p w m = Some (w, m)" using False by (auto simp: read_word_ix.simps [of q p])
    ultimately show ?thesis using less.prems by simp
  next
    case True
    let ?w = "w[m := kw_upper (q ! p)]"
    have "length q - Suc p < length q - p" "Suc p \<le> length q" "Suc m < length ?w" using True by auto
    note hyp = less.hyps [OF this]
    obtain w' v where IH: "read_word_ix q (Suc p) ?w (Suc m) = Some (w', Suc m + length v)"
      "v = map kw_upper (take (length ?w - 1 - Suc m) (takeWhile word_byte (drop (Suc p) q)))"
      "length w' = length ?w" "Suc m + length v < length ?w" "take (Suc m + length v) w' = take (Suc m) ?w @ v"
      using hyp by blast
    have "take (Suc m) ?w = take m w @ [kw_upper (q ! p)]" using True by (simp add: take_Suc_conv_app_nth)
    moreover obtain k where "length w - 1 - m = Suc k" "length ?w - 1 - Suc m = k"
      using True by (cases "length w - 1 - m") auto
    ultimately show ?thesis
      using IH True drop_ix [of p q]
      by (intro exI [of _ w'] exI [of _ "kw_upper (q ! p) # v"]) (simp add: read_word_ix.simps [of q p])
  qed
qed


lemma word_byte_upper: "word_byte c \<Longrightarrow> kw_upper c \<noteq> CHR 0x00"
proof -
  have "\<forall>c. word_byte c \<longrightarrow> kw_upper c \<noteq> CHR 0x00" by code_simp
  then show "word_byte c \<Longrightarrow> kw_upper c \<noteq> CHR 0x00" by blast
qed

lemma start_word_ix_eq:
  assumes "p \<le> length q" and "n < length buf" and "buf ! n = CHR 0x00" and "length w = 12"
  defines "k \<equiv> take n buf"
  shows "\<exists>buf'. start_word_ix q p buf n w = Some buf' \<and> length buf' = length buf \<and>
    take (n + 1) buf' = (if k = ''START'' \<and> length buf \<ge> 6 \<and> second_word (drop p q) = ''TRANSACTION'' then ''BEGIN'' else k) @ [CHR 0x00]"
proof -
  have k: "length k = n" "take (n + 1) buf = k @ [CHR 0x00]" using assms by (simp_all add: take_Suc_conv_app_nth)
  have memcmp: "n = 5 \<Longrightarrow> memcmp_ix buf 0 ''START'' = Some (k = ''START'')"
    using assms(2) by (simp add: memcmp_ix_def k_def eval_nat_numeral)
  show ?thesis
  proof (cases "k = ''START'' \<and> length buf \<ge> 6")
    case False
    then have "n = 5 \<Longrightarrow> k \<noteq> ''START''" using assms(2) by auto
    moreover have "k = ''START'' \<Longrightarrow> n = 5" using k(1) by auto
    ultimately have "start_word_ix q p buf n w = Some buf"
      using False by (cases "n = 5") (auto simp: start_word_ix_def memcmp)
    then show ?thesis using False k(2) by auto
  next
    case True
    then have n: "n = 5" using k(1) by auto
    obtain i where i: "i \<le> length q" "skip_ix is_space q p = Some i" "drop i q = dropWhile is_space (drop p q)"
      using skip_ix_drop [OF assms(1)] by blast
    have "0 < length w" using assms(4) by simp
    then obtain w' v where v: "read_word_ix q i w 0 = Some (w', length v)" "length w' = length w" "length v < length w"
      "v = map kw_upper (take (length w - 1 - 0) (takeWhile word_byte (drop i q)))" "take (length v) w' = v"
      using read_word_ix_eq [OF i(1), of 0 w] by auto
    have second: "v = second_word (drop p q)" using v(4) i(3) assms(4) by (simp add: second_word_def)
    have "word_byte c" if "c \<in> set (take (length w - 1 - 0) (takeWhile word_byte (drop i q)))" for c
      using that by (auto dest: in_set_takeD set_takeWhileD)
    then have "CHR 0x00 \<notin> set v" unfolding v(4) using word_byte_upper by fastforce
    moreover have "drop 0 (w'[length v := CHR 0x00]) = v @ CHR 0x00 # drop (Suc (length v)) w'"
      using v(2,3,5) by (simp add: upd_conv_take_nth_drop)
    ultimately have cmp: "strcmp_ix (w'[length v := CHR 0x00]) 0 ''TRANSACTION'' = Some (v = ''TRANSACTION'')"
      by (intro strcmp_ix_eq) auto
    have "memcpy_ix buf 0 (''BEGIN'' @ [CHR 0x00]) = Some (take 0 buf @ (''BEGIN'' @ [CHR 0x00]) @ drop (0 + 6) buf)"
      using memcpy_ix_eq [of 0 "''BEGIN'' @ [CHR 0x00]" buf] True by (simp add: eval_nat_numeral)
    then have "start_word_ix q p buf n w =
        Some (if v = ''TRANSACTION'' then ''BEGIN'' @ [CHR 0x00] @ drop 6 buf else buf)"
      using True n i(2) v(1,2,3) cmp by (simp add: start_word_ix_def memcmp del: strcmp_ix.simps memcpy_ix.simps)
    then show ?thesis using True n k(2) by (auto simp: second [symmetric])
  qed
qed

lemma extract_command_ix_eq:
  assumes "length w = 12"
  shows "\<exists>buf'. extract_command_ix q buf w = Some buf' \<and> length buf' = length buf \<and>
    (case extract_command q (length buf) of None \<Rightarrow> buf' = buf | Some t \<Rightarrow> take (length t + 1) buf' = t @ [CHR 0x00])"
proof (cases "length buf = 0")
case True
  then show ?thesis by (simp add: extract_command_ix_def extract_command_def)
next
  case False
  obtain p where p: "p \<le> length q" "skip_leading_ix q 0 = Some p" "drop p q = skip_leading (drop 0 q)"
    using skip_leading_ix_eq [of 0 q] by auto
  obtain j b k where r: "read_keyword_ix q p buf 0 = Some (j, b, length k)" "read_keyword (min (length buf - 1) 16) (drop p q) = (k, drop j q)"
    "j \<le> length q" "length b = length buf" "length k < length buf" "take (length k) b = k"
    using read_keyword_ix_eq [OF p(1), of 0 buf] False by auto
  let ?b = "b[length k := CHR 0x00]"
  define t where "t = (if k = ''START'' \<and> length buf \<ge> 6 \<and> second_word (drop j q) = ''TRANSACTION'' then ''BEGIN'' else k)"
  obtain b' where b': "start_word_ix q j ?b (length k) w = Some b'" "length b' = length buf" "take (length k + 1) b' = t @ [CHR 0x00]"
    using start_word_ix_eq [OF r(3) _ _ assms, of "length k" ?b] r(4,5,6) t_def by auto
  have keyword: "read_keyword (min (length buf - 1) 16) (skip_leading q) = (k, drop j q)" using r(2) p(3) by simp
  show ?thesis
  proof (cases "k = []")
    case True
    define m where "m = min 5 (length buf - 1)"
    have m: "m < length b'" "length (take m ''OTHER'') = m" using b'(2) \<open>length buf \<noteq> 0\<close> unfolding m_def by (auto simp: min_def)
    then have "extract_command_ix q buf w = Some ((take m ''OTHER'' @ drop m b')[m := CHR 0x00])"
      using True False p(2) r(1,4,5) b'(1) memcpy_ix_eq [of 0 "take m ''OTHER''" b']
      by (simp add: extract_command_ix_def Let_def m_def b'(2))
    moreover have "extract_command q (length buf) = Some (take m ''OTHER'')"
      using True False keyword by (simp add: extract_command_def m_def)
    moreover have "take (m + 1) ((v @ drop m b')[m := c]) = v @ [c]" if "length v = m" for v c
      using that m(1) by (simp add: take_Suc_conv_app_nth)
    ultimately show ?thesis using m b'(2) by simp
  next
    case k: False
    have len: "length t = length k" by (auto simp: t_def)
    have "extract_command_ix q buf w = Some b'"
      using k False p(2) r(1,4,5) b'(1) by (simp add: extract_command_ix_def)
    moreover have "extract_command q (length buf) = Some t"
      using k False keyword by (simp add: extract_command_def t_def)
    ultimately show ?thesis using b'(2,3) len by simp
  qed
qed

section \<open>Properties\<close>

text \<open>(C15) \<open>extract_command\<close> on memory: for every query and every output buffer, whatever the two arrays
  hold at first, all the loops end, no byte is read or written outside of the query, of the buffer or of
  the local array of 12 bytes, and the buffer then holds, NUL-terminated, the word that the list version
  gives, which consists of at most 16 upper-case letters, digits and underscores and is not empty where
  the buffer has room for a byte; a buffer of no bytes is left alone.\<close>

theorem extract_command_memory:
  assumes "length w = 12"
  shows "\<exists>buf'. extract_command_ix q buf w = Some buf' \<and> length buf' = length buf \<and>
    (case extract_command q (length buf) of None \<Rightarrow> buf' = buf
     | Some t \<Rightarrow> take (length t + 1) buf' = t @ [CHR 0x00] \<and> length t \<le> 16 \<and> kw_text t \<and> (t = [] \<longrightarrow> length buf = 1))"
proof -
  have "\<exists>buf'. extract_command_ix q buf w = Some buf' \<and> length buf' = length buf \<and>
    (case extract_command q (length buf) of None \<Rightarrow> buf' = buf | Some t \<Rightarrow> take (length t + 1) buf' = t @ [CHR 0x00])"
    by (rule extract_command_ix_eq [OF assms])
  then show ?thesis using extract_command_bounds [where query = q and buf_size = "length buf"] by (auto split: option.splits)
qed

theorem extract_command_memory_witness:
  "\<exists>buf'. extract_command_ix ''/* x */ start transaction'' (replicate 8 CHR 0xFF) (replicate 12 CHR 0xFF) = Some buf' \<and>
     length buf' = 8 \<and> take 6 buf' = ''BEGIN'' @ [CHR 0x00]"
proof -
  have "extract_command ''/* x */ start transaction'' (length (replicate 8 CHR 0xFF)) = Some ''BEGIN''" by code_simp
  then have "\<exists>buf'. extract_command_ix ''/* x */ start transaction'' (replicate 8 CHR 0xFF) (replicate 12 CHR 0xFF) = Some buf' \<and>
     length buf' = length (replicate 8 CHR 0xFF) \<and> take (length ''BEGIN'' + 1) buf' = ''BEGIN'' @ [CHR 0x00]"
    using extract_command_memory [of "replicate 12 CHR 0xFF" "''/* x */ start transaction''" "replicate 8 CHR 0xFF"]
    by (auto simp only: option.case length_replicate)
  then show ?thesis by (simp add: eval_nat_numeral)
qed

lemma use_name_ix_eq: "use_name_ix q = Some (use_name q)"
proof -
  obtain i where i: "i \<le> length q" "skip_ix (\<lambda>c. is_space c \<or> c = CHR ''('') q 0 = Some i"
    "drop i q = dropWhile (\<lambda>c. is_space c \<or> c = CHR ''('') (drop 0 q)"
    by (rule skip_ix_drop [of 0 q]) auto
  then have p: "dropWhile (\<lambda>c. is_space c \<or> c = CHR ''('') q = drop i q" by simp
  show ?thesis
  proof (cases "length q - i < 3")
    case True
    then show ?thesis by (simp add: use_name_ix_def use_name_def i(2) p)
  next
    case False
    then have "i + 3 \<le> length q" by simp
    then obtain j where j: "j \<le> length q" "skip_ix is_space q (i + 3) = Some j" "drop j q = dropWhile is_space (drop (i + 3) q)"
      using skip_ix_drop by blast
    have rest: "dropWhile is_space (drop 3 (drop i q)) = drop j q" using j(3) by (simp add: add.commute)
    show ?thesis
    proof (cases "j < length q")
      case past: False
      then have "dropWhile is_space (drop 3 (drop i q)) = []" using rest by simp
      then show ?thesis using past False j(2) by (simp only: use_name_ix_def use_name_def i(2) p Let_def) simp
    next
      case True
      define b where "b = (if q ! j = CHR 0x60 then Suc j else j)"
      define f where "f = (if q ! j = CHR 0x60 then (\<lambda>d. d \<noteq> CHR 0x60) else name_byte)"
      define name where "name = takeWhile f (drop b q)"
      have "b \<le> length q" using True by (simp add: b_def)
      then obtain e where e: "b \<le> e" "e \<le> length q" "skip_ix f q b = Some e" "take (e - b) (drop b q) = takeWhile f (drop b q)"
        using skip_ix_drop [of b q f] by metis
      have len: "length name = e - b" using e(1,2) arg_cong [OF e(4), of length] by (simp add: name_def)
      have "append_ix q b (e - b) [] = Some name" using append_ix_take [of b "e - b" q "[]"] e name_def by simp
      then have "use_name_ix q = Some (if e > b then Some name else None)"
        using False True j(2) e(3) by (cases "q ! j = CHR 0x60") (simp_all add: use_name_ix_def i(2) b_def f_def)
      moreover have "use_name q = (if name = [] then None else Some name)"
        using False True drop_ix [OF True] rest
        by (cases "q ! j = CHR 0x60") (simp_all add: use_name_def p name_def b_def f_def Let_def)
      ultimately show ?thesis using len by auto
    qed
  qed
qed

lemma has_table_ix_eq: "pos \<le> length hay \<Longrightarrow> has_table_ix hay db tbl pos = Some (has_table (drop pos hay) db tbl)"
proof (induction "length hay - pos" arbitrary: pos rule: less_induct)
  case less
  let ?need = "length db + 1 + length tbl"
  show ?case
  proof (cases "pos + ?need \<le> length hay")
    case False
    then show ?thesis by (subst has_table_ix.simps, subst has_table.simps) auto
  next
    case True
    obtain e where e: "pos \<le> e" "e \<le> length hay" "skip_ix (\<lambda>c. c \<noteq> CHR '','') hay pos = Some e"
      "drop e hay = dropWhile (\<lambda>c. c \<noteq> CHR '','') (drop pos hay)"
      "take (e - pos) (drop pos hay) = takeWhile (\<lambda>c. c \<noteq> CHR '','') (drop pos hay)"
      using skip_ix_drop [OF less.prems] by blast
    define found where "found \<longleftrightarrow> e - pos = ?need \<and> take (length db) (drop pos hay) = db \<and>
      drop pos hay ! length db = CHR ''.'' \<and> take (length tbl) (drop (length db + 1) (drop pos hay)) = tbl"
    have len: "length (takeWhile (\<lambda>c. c \<noteq> CHR '','') (drop pos hay)) = e - pos"
      using e(1,2) arg_cong [OF e(5), of length] by simp
    have next_pos: "pos + (e - pos) + 1 = Suc e" using e(1) by simp
    have ix: "has_table_ix hay db tbl pos =
        (if found then Some True else if e = length hay then Some False else has_table_ix hay db tbl (Suc e))"
      unfolding has_table_ix.simps [of hay db tbl pos] e(3) bind.bind_lunit next_pos
      using True by (auto simp: found_def memcmp_ix_def add.commute add.left_commute)
    have bound: "?need \<le> length (drop pos hay)" using True by simp
    have list: "has_table (drop pos hay) db tbl \<longleftrightarrow>
        found \<or> (case drop e hay of [] \<Rightarrow> False | _ # rest \<Rightarrow> has_table rest db tbl)"
      unfolding has_table.simps [of "drop pos hay"] if_P [OF bound] Let_def len e(4) [symmetric] found_def [symmetric] by simp
    show ?thesis
    proof (cases "e = length hay")
      case True
      then show ?thesis using ix list by simp
    next
      case False
      then have "e < length hay" using e(2) by simp
      moreover from this have "has_table_ix hay db tbl (Suc e) = Some (has_table (drop (Suc e) hay) db tbl)"
        using less.hyps [of "Suc e"] e(1) by simp
      ultimately show ?thesis using ix list drop_ix [of e hay] by simp
    qed
  qed
qed

text \<open>(C16) The two scanners of the handlers on memory: the search for the name of a \<open>USE\<close> statement, for
  every query, and the search of a table in the list of the statement, for every list and every name, end
  without reading outside of the text, and find what the list versions of \<open>Statement_State\<close> find.\<close>

theorem statement_scans_memory:
  "use_name_ix query = Some (use_name query) \<and> has_table_ix hay db tbl 0 = Some (has_table hay db tbl)"
  by (simp add: use_name_ix_eq has_table_ix_eq)

end
