(* ===== verification/Spec2Isabelle.thy ===== *)
theory Spec2Isabelle
  imports Plugin_Accounting Plugin_Locks Plugin_Interface Command_Memory
begin

text \<open>
  Verification of the \<open>selective_trace\<close> audit plugin for MySQL.

  \<^bold>\<open>The program.\<close>  The server calls the plugin at the start of a statement, at every table access, at the
  end of a statement and when a connection ends.  The plugin keeps a small state per connection, asks
  its filter rules whether the statement is to be traced, assembles one log event and gives it to one of
  two writers: a JSON lines file, or a queue from which a thread of its own runs \<open>INSERT\<close>s.  The rules
  are parsed from three system variables.

  \<^bold>\<open>Theories and sources\<close> (paths under \<open>src/\<close>).
  \<^item> \<open>Trace_Prelude\<close>: byte classes, unions of masks, splitting and joining, decimal printing.
  \<^item> \<open>Command_Bits\<close>, \<open>Filter_Rules\<close>, \<open>Filter_Parser\<close>: \<open>core/filter_engine.h\<close> and \<open>.cc\<close>; command bits,
    \<open>FilterRules\<close> with \<open>add_entry\<close> and the lookups \<open>match_table\<close>, \<open>match_schema\<close>, \<open>match_connection\<close>,
    and the grammars \<open>parse_filter_lists\<close>, \<open>parse_connection_list\<close>.  The locale \<open>mask_store\<close> is the contract
    of a list of masks; it is interpreted for schemas and for tables.  Lookups in parsed rules are the
    union of the masks of the tokens that name the key; errors name the first bad token.
  \<^item> \<open>Extract_Command\<close>, \<open>Mask_Secrets\<close>, \<open>Output_Escape\<close>: \<open>extract_command\<close>, \<open>mask_secrets\<close>,
    \<open>json_escape_append\<close>, \<open>sql_escape_append\<close> of the same file.  Readers of the two escaped formats are the
    locales \<open>escaped_literal\<close>, \<open>json_string_reader\<close>, \<open>sql_string_lexer\<close>, interpreted on executable readers.
  \<^item> \<open>Mask_Memory\<close>, \<open>Command_Memory\<close>: \<open>mask_secrets\<close>, \<open>extract_command\<close>, the second pass of \<open>track_current_db\<close> and
    the search of \<open>state_add_table\<close> again, index by index on the memory of the text and of the output arrays
    (the names end in \<open>_ix\<close>).  A read or write outside of it has no result; the theorems say that there always
    is one, and that it is the one of the definitions on lists, which the other theories use.
  \<^item> \<open>Recycle_Policy\<close>: \<open>src/writer_recycle_policy.h\<close>, counters at 64 bits.
  \<^item> \<open>File_Writer\<close>: \<open>src/log_writer_file_mysql.cc\<close>; a history of the stdio calls shows which lines the file
    accepted whole.
  \<^item> \<open>Table_Writer\<close>, \<open>Writer_Queue\<close>: \<open>src/log_writer_table_mysql.cc\<close>; the SQL session with its retries and
    recycling (locale \<open>event_sink\<close>), and the critical sections of \<open>q_mutex\<close> as the step relation \<open>tw_step\<close>
    with all interleavings of callbacks, writer thread and shutdown.
  \<^item> \<open>Statement_State\<close>, \<open>Plugin_Output\<close>, \<open>Plugin_Config\<close>, \<open>Plugin_Events\<close>: \<open>src/selective_trace_mysql.cc\<close>; the
    per-connection state with its two character arrays, the text of an event, the variables with their
    callbacks and the life cycle, and the handlers up to \<open>selective_trace_notify\<close>.  The locale
    \<open>table_recorder\<close> is what the handlers rely on in the table text.
  \<^item> \<open>Plugin_Trace\<close>: sequences of callbacks and the reachable states \<open>plugin_reach\<close>.  The locale
    \<open>keyed_sessions\<close> states that connections do not disturb one another and is interpreted on
    \<open>selective_trace_notify\<close>.
  \<^item> \<open>Plugin_Accounting\<close>: where the events counted by \<open>selective_trace_events_logged\<close> are, over the whole
    life of the plugin.
  \<^item> \<open>Plugin_Locks\<close>: the same handlers and update callbacks for several threads at once, broken up at every lock
    operation of \<open>state_map_lock\<close> and \<open>filter_lock\<close> and at every load and use of a shared pointer (\<open>lstep\<close>, the union of one step relation per function).
    The refinement \<open>handlers_atomic\<close> justifies the atomic handlers of the other theories; the two errors that
    the locks do not prevent are \<open>path_use_after_free\<close> and \<open>leaked_lock_blocks\<close>.
  \<^item> \<open>Plugin_Failures\<close>: the same callbacks when memory runs out: each \<open>catch\<close> block, each \<open>NULL\<close> of
    \<open>new (std::nothrow)\<close>, and the exceptions that \<open>selective_trace_init\<close> does not catch.
  \<^item> \<open>Plugin_Interface\<close>: the tables for the server: system variables, status variables, the mask of audit events.
  \<^item> This theory: the properties that span components.

  \<^bold>\<open>State.\<close>  The static variables of the plugin are the record \<open>plugin\<close>; those of the writers are its
  fields \<open>files\<close>, \<open>events\<close> and \<open>sql_conn\<close>.  \<open>state_map\<close> is a map from \<open>MYSQL_THD\<close> to \<open>StatementState\<close>; \<open>None\<close>
  in the field \<open>states\<close> is the \<open>NULL\<close> pointer, and a handler that would follow it returns \<open>None\<close>.

  \<^bold>\<open>What is shown.\<close>  The decision to trace agrees with the text of the variables
  (\<open>traced_as_configured\<close>, \<open>statement_traced\<close>); the event says what happened (\<open>statement_event_content\<close>,
  \<open>duration_accuracy\<close>); what reaches the outputs can be read back and injects nothing
  (\<open>file_trace_readable\<close>, \<open>table_trace_readable\<close>, \<open>writer_sql_mode_pinned\<close>); credentials in the covered
  forms do not reach them (\<open>mask_secrets_credential\<close>, \<open>secret_not_in_outputs\<close>), and the forms that do are exhibited
  (\<open>mask_secrets_leaks\<close>); the scanners stay inside of the memory and end (\<open>mask_secrets_memory\<close>,
  \<open>extract_command_memory\<close>, \<open>statement_scans_memory\<close>); events are kept in order, bounded, counted and drained (\<open>queue_fifo_bounded\<close>,
  \<open>shutdown_drains\<close>, \<open>shutdown_terminates\<close>, \<open>batch_outcome\<close>, \<open>events_conserved\<close>, \<open>file_log_exact\<close>); the invariant
  of all reachable states is \<open>reachable_safe\<close>.  Concurrent callbacks are as good as atomic ones
  (\<open>handlers_atomic\<close>), use no freed rules (\<open>locks_safe\<close>) and finish (\<open>callbacks_finish\<close>); failures of memory have no
  lasting effect on the configuration (\<open>update_failures_recover\<close>) or a connection (\<open>aborted_output_harmless\<close>).

  \<^bold>\<open>Bounds and fuel.\<close>  All loops are structural or have a termination proof, but for those of
  \<open>Mask_Memory\<close> and \<open>Command_Memory\<close>: partial functions, shown to have a result on every input.  Three functions carry
  fuel: \<open>excess_bits\<close> with 11 (a 64-bit number has at most 11 bits more than a double keeps), \<open>scale_bits\<close>
  with 80 (a positive number reaches 2 ^ 52 * 1000000 after at most 72 doublings), and the reader of a
  JSON array with the length of its input.  Connection ids are assumed below 10 ^ 18 where the text of an
  event is read back (\<open>small_ids\<close>): together with a statement number of 20 digits they then fit the
  number buffer of 64 bytes.  Table names are assumed free of commas where the list of tables is read
  back (\<open>plain_table\<close>).

  \<^bold>\<open>Parameters.\<close>  What stdio, the command services, the clocks and \<open>pthread_create\<close> answer are arguments of
  the definitions (\<open>stdio\<close>, \<open>services\<close>, \<open>callback\<close>), free to fail at any call.

  \<^bold>\<open>Not modelled.\<close>  Registration of instrumentation keys, and the messages to the server's error log
  other than the FILE writer's.  In \<open>Plugin_Locks\<close> the output goes to the file, the two writers are not
  broken up again (their mutexes are taken last and nothing is called under them that takes a lock), and what a handler does to the
  entry of its own connection between two lock operations is one step.  Memory orders of the hardware are not
  modelled: every access to shared memory is under a lock, but for \<open>opt_file_path\<close> and the scalar
  variables.  The test programs, build files, container scripts and
  documents hold no logic of the plugin.
\<close>

section \<open>From the text of the variables to the decision\<close>

text \<open>An entry of a list that names \<open>name\<close>, and one whose commands include \<open>cmd_bit\<close>.\<close>

definition named :: "(string \<times> u32) list \<Rightarrow> string \<Rightarrow> bool" where
  "named es name \<longleftrightarrow> list_ex (\<lambda>e. fst e = name) es"

definition listed_for :: "u32 \<Rightarrow> (string \<times> u32) list \<Rightarrow> string \<Rightarrow> bool" where
  "listed_for cmd_bit es name \<longleftrightarrow> list_ex (\<lambda>e. fst e = name \<and> snd e AND cmd_bit \<noteq> 0) es"

text \<open>A table access under the texts of \<open>selective_trace_schemas\<close> and \<open>selective_trace_tables\<close>.\<close>

definition table_listed :: "string \<Rightarrow> string \<Rightarrow> u32 \<Rightarrow> mysql_event_table_access \<Rightarrow> bool" where
  "table_listed s t cmd_bit ev \<longleftrightarrow>
     (let db = fold_case (table_database ev); full = db @ CHR ''.'' # fold_case (table_name ev);
          schemas = schema_entries (split_csv (Some s)); wildcards = wildcard_entries (split_csv (Some t));
          tables = Filter_Parser.table_entries (split_csv (Some t))
      in listed_for cmd_bit wildcards db \<or> listed_for cmd_bit tables full \<or>
         listed_for cmd_bit schemas db \<and>
           (\<not> is_internal_stats_table (table_database ev) (table_name ev) \<or> named wildcards db \<or> named tables full))"

definition statement_listed ::
    "string \<Rightarrow> string \<Rightarrow> string \<Rightarrow> u64 \<Rightarrow> string \<Rightarrow> mysql_event_table_access list \<Rightarrow> u32 \<Rightarrow> bool" where
  "statement_listed s t c conn_id db accesses cmd_bit \<longleftrightarrow>
     list_ex (\<lambda>tok. of_nat (dec_val tok) = conn_id) (split_csv (Some c)) \<or>
     listed_for cmd_bit (schema_entries (split_csv (Some s))) (fold_case db) \<or>
     listed_for cmd_bit (wildcard_entries (split_csv (Some t))) (fold_case db) \<or>
     list_ex (table_listed s t cmd_bit) accesses"

lemma or_list_and:
  "or_list (map snd (filter P es)) AND (cmd_bit :: u32) = 0 \<longleftrightarrow> \<not> list_ex (\<lambda>e. P e \<and> snd e AND cmd_bit \<noteq> 0) es"
  by (induction es) (auto simp: and_or_zero)

lemma or_list_named:
  "(\<And>e. e \<in> set es \<Longrightarrow> snd e \<noteq> 0) \<Longrightarrow> or_list (map snd (filter P es)) = (0 :: u32) \<longleftrightarrow> \<not> list_ex P es"
  by (induction es) (auto simp: or_eq_0_iff)

lemma nonempty_lists: "\<not> listed_for cmd_bit (schema_entries (split_csv csv)) []" "\<not> listed_for cmd_bit (wildcard_entries (split_csv csv)) []"
  using schema_entries_wf wildcard_entries_wf by (fastforce simp: listed_for_def list_ex_iff wf_schema_name_def)+

lemma connections_keep:
  assumes "parse_connection_list csv r = Inr r'"
  shows "match_schema r' d = match_schema r d" "match_table r' d u = match_table r d u"
proof -
  have "schemas r' = schemas r \<and> wildcard_schemas r' = wildcard_schemas r \<and> tables r' = tables r"
    using assms by (auto simp: parse_connection_list_def split: sum.splits)
  then show "match_schema r' d = match_schema r d" "match_table r' d u = match_table r d u"
    by (simp_all add: match_schema_def match_table_def split: option.split)
qed

lemma schema_listed:
  assumes "parse_filter_lists (Some s) (Some t) empty_rules = Inr r"
  shows "match_schema r (Some d) AND cmd_bit \<noteq> 0 \<longleftrightarrow>
    listed_for cmd_bit (schema_entries (split_csv (Some s))) (fold_case d) \<or>
    listed_for cmd_bit (wildcard_entries (split_csv (Some t))) (fold_case d)"
proof (cases "d = []")
  case True
  then show ?thesis by (simp add: nonempty_lists)
next
  case False
  then show ?thesis
    unfolding match_schema_lists [OF assms False] or_list_and by (simp add: listed_for_def list_ex_append)
qed

lemma table_listed_iff:
  assumes "parse_filter_lists (Some s) (Some t) empty_rules = Inr r"
    and "table_database ev \<noteq> []" and "table_name ev \<noteq> []"
  shows "table_selects r cmd_bit ev \<longleftrightarrow> table_listed s t cmd_bit ev"
proof -
  let ?d = "table_database ev" and ?u = "table_name ev"
  let ?W = "wildcard_entries (split_csv (Some t))" and ?T = "Filter_Parser.table_entries (split_csv (Some t))"
  have nz: "snd e \<noteq> 0" if "e \<in> set ?W \<or> e \<in> set ?T" for e
    using that wildcard_entries_wf [of "fst e" "snd e"] table_entries_wf [of "fst e" "snd e"] by auto
  have hit: "match_table r (Some ?d) (Some ?u) AND cmd_bit = 0 \<longleftrightarrow>
      \<not> listed_for cmd_bit ?W (fold_case ?d) \<and> \<not> listed_for cmd_bit ?T (fold_case ?d @ CHR ''.'' # fold_case ?u)"
    unfolding match_table_lists [OF assms] and_or_zero or_list_and listed_for_def ..
  have any: "match_table r (Some ?d) (Some ?u) = 0 \<longleftrightarrow>
      \<not> named ?W (fold_case ?d) \<and> \<not> named ?T (fold_case ?d @ CHR ''.'' # fold_case ?u)"
    unfolding match_table_lists [OF assms] or_eq_0_iff named_def using nz by (simp add: or_list_named)
  have sub: "listed_for cmd_bit es n \<Longrightarrow> named es n" for es n
    by (auto simp: listed_for_def named_def list_ex_iff)
  show ?thesis
    unfolding table_selects_def table_listed_def Let_def any schema_listed [OF assms(1)] not_not
    using hit sub by blast
qed

section \<open>What a reader of the outputs finds\<close>

text \<open>Connection ids that fit the number buffers of the assembly.\<close>

definition small_ids :: "notification list \<Rightarrow> bool" where
  "small_ids ns \<longleftrightarrow> list_all (\<lambda>(cb, thd, event). case event of
     General_class sub ev \<Rightarrow> unat (general_thread_id ev) < 10 ^ 18 | _ \<Rightarrow> True) ns"

text \<open>The statements whose end the callbacks report.\<close>

definition ended :: "notification list \<Rightarrow> mysql_event_general \<Rightarrow> bool" where
  "ended ns ev \<longleftrightarrow> is_query_command ev \<and> list_ex (\<lambda>(cb, thd, event). event = General_class GENERAL_STATUS ev) ns"

lemma from_call_event:
  assumes "from_call ns masking e" and "small_ids ns"
  shows "\<exists>ev. ended ns ev \<and> printable e \<and> le_conn_id e = general_thread_id ev \<and>
    le_user_host e = general_user ev @ ''@'' @ general_host ev \<and> le_command e = statement_command (general_query ev) \<and>
    le_error_code e = sint (general_error_code ev) \<and> le_query e = logged_query masking (general_query ev)"
proof -
  obtain cb thd ev st where ev: "(cb, thd, General_class GENERAL_STATUS ev) \<in> set ns" "is_query_command ev" "e = make_event masking cb ev st"
    using assms(1) by (auto simp: from_call_def)
  then have "unat (general_thread_id ev) < 10 ^ 18" using assms(2) by (force simp: small_ids_def list_all_iff)
  from make_event_printable [OF this] have "printable e" by (simp add: ev(3))
  then show ?thesis
    using ev by (intro exI [of _ ev] conjI) (auto simp: ended_def list_ex_iff make_event_def)
qed

lemma writing_thread:
  assumes "tw_reach srv True t s" and "wpc s = Writing"
  shows "thread_running (tq s)"
proof -
  have "queue (tq s) \<noteq> None" using strict_no_crash [OF assms(1)] assms(2) by auto
  then show ?thesis using reach_inv [OF assms(1)] assms(2) by (auto simp: control_inv_def)
qed

section \<open>Statements with a credential\<close>

text \<open>A statement that starts with a keyword other than \<open>USE\<close> and \<open>START\<close>.\<close>

definition starts_with :: "string \<Rightarrow> string \<Rightarrow> bool" where
  "starts_with kw rest \<longleftrightarrow> kw \<noteq> [] \<and> list_all kw_byte kw \<and> \<not> is_digit (hd kw) \<and> length kw < 8 \<and>
     map kw_upper kw \<noteq> ''START'' \<and> map kw_upper kw \<noteq> ''USE'' \<and> rest \<noteq> [] \<and> \<not> kw_byte (hd rest)"

lemma starts_with_command:
  assumes "separator_run s" and "starts_with kw rest"
  shows "statement_command (s @ kw @ rest @ t) = map kw_upper kw"
    "general_query ev = s @ kw @ rest @ t \<Longrightarrow> is_query_command ev \<Longrightarrow> track_current_db st ev = st"
proof -
  have kw: "kw \<noteq> []" "list_all kw_byte kw" "\<not> is_digit (hd kw)" "length kw < 8" "map kw_upper kw \<noteq> ''START''"
    "map kw_upper kw \<noteq> ''USE''" "rest @ t = [] \<or> \<not> kw_byte (hd (rest @ t))"
    using assms(2) by (auto simp: starts_with_def)
  have cmd: "extract_command (s @ kw @ rest @ t) n = Some (map kw_upper kw)" if "8 \<le> n" for n
    using that kw(4) by (intro extract_keyword [OF assms(1) kw(1,2,3) _ _ kw(7,5)]) simp_all
  show "statement_command (s @ kw @ rest @ t) = map kw_upper kw" by (simp add: statement_command_def cmd)
  assume "general_query ev = s @ kw @ rest @ t" "is_query_command ev"
  then show "track_current_db st ev = st"
    using cmd [of 8] kw(6) by (auto simp: track_current_db_def is_query_command_def general_command_is_def)
qed

section \<open>Properties across components\<close>

text \<open>
  (C1) The plugin traces what its variables say.  In every reachable state of the ready plugin the
  filters select a statement exactly when the text of \<open>selective_trace_connections\<close> has its connection,
  or an entry of \<open>selective_trace_schemas\<close> or a \<open>schema.*\<close> entry of \<open>selective_trace_tables\<close> names the
  session schema for its command, or an entry names the schema or the full name of an accessed table
  for it, letter case aside; a statistics table counts only where \<open>selective_trace_tables\<close> names it.
\<close>

theorem traced_as_configured:
  assumes "plugin_reach io srv p" and "plugin_ready p"
    and "list_all (\<lambda>ev. table_database ev \<noteq> [] \<and> table_name ev \<noteq> []) accesses"
  shows "\<exists>s t c r. opt_schemas p = Some s \<and> opt_tables p = Some t \<and> opt_connections p = Some c \<and> active_rules p = Some r \<and>
    (statement_selected r conn_id db accesses cmd_bit \<longleftrightarrow> statement_listed s t c conn_id db accesses cmd_bit)"
proof -
  have "config_inv p" using plugin_inv_reach [OF assms(1)] assms(2) by (simp add: plugin_inv_def)
  then obtain s t c r r' where p: "opt_schemas p = Some s" "opt_tables p = Some t" "opt_connections p = Some c"
    "active_rules p = Some r'" "parse_filter_lists (Some s) (Some t) empty_rules = Inr r" "parse_connection_list (Some c) r = Inr r'"
    by (auto simp: config_inv_def)
  have same: "table_selects r' cmd_bit ev = table_selects r cmd_bit ev" for ev
    unfolding table_selects_def connections_keep [OF p(6)] ..
  have "list_ex (table_selects r' cmd_bit) accesses = list_ex (table_listed s t cmd_bit) accesses"
    using assms(3) table_listed_iff [OF p(5)] by (auto simp: same list_ex_iff list_all_iff)
  moreover have "match_connection r' conn_id \<longleftrightarrow> list_ex (\<lambda>tok. of_nat (dec_val tok) = conn_id) (split_csv (Some c))"
    unfolding match_connection_list [OF p(6)] by (auto simp: list_ex_iff)
  ultimately have "statement_selected r' conn_id db accesses cmd_bit \<longleftrightarrow> statement_listed s t c conn_id db accesses cmd_bit"
    unfolding statement_selected_def statement_listed_def connections_keep(1) [OF p(6)] schema_listed [OF p(5)] by blast
  then show ?thesis using p(1-4) by blast
qed

theorem traced_as_configured_witness:
  "\<exists>s t c r. opt_tables (snd (set_filter FK_TABLES (Some ''app.*:dml'') ready_plugin)) = Some t \<and>
     active_rules (snd (set_filter FK_TABLES (Some ''app.*:dml'') ready_plugin)) = Some r \<and>
     (statement_selected r 7 [] [sample_access] CMD_INSERT \<longleftrightarrow> statement_listed s t c 7 [] [sample_access] CMD_INSERT)"
proof -
  let ?p = "snd (set_filter FK_TABLES (Some ''app.*:dml'') ready_plugin)"
  have ready: "plugin_ready ready_plugin" by (simp add: ready_plugin_eq)
  have "plugin_reach sample_io willing_server ?p" by (rule plugin_reach.step [OF ready_reach plugin_step.set_list [OF ready]])
  then show ?thesis
    using traced_as_configured [of sample_io willing_server ?p "[sample_access]" 7 "[]" CMD_INSERT] ready
    by (auto simp: sample_access_def)
qed

text \<open>
  (C9) The FILE output can be read.  Whatever sequence of callbacks runs, every line it adds to the log
  file is read by any reader of JSON strings as one object that reports the end of a query of the
  sequence: its connection, user, command and error code, and its text, masked as
  \<open>selective_trace_mask_passwords\<close> says, byte for byte.
\<close>

theorem file_trace_readable:
  assumes "json_string_reader read" and "states p \<noteq> None" and "states_inv p" and "small_ids ns"
  shows "\<exists>p' added. trace_run io ns p = Some p' \<and>
    delivered io (io_calls (files p')) = delivered io (io_calls (files p)) @ added \<and>
    (\<forall>line \<in> set added. \<exists>ev f. ended ns ev \<and> read_line read line = Some f \<and>
       jf_conn_id f = fmt_u64 (general_thread_id ev) \<and> jf_user f = general_user ev @ ''@'' @ general_host ev \<and>
       jf_command f = statement_command (general_query ev) \<and> jf_error_code f = fmt_int (sint (general_error_code ev)) \<and>
       jf_query f = logged_query (opt_mask_passwords p) (general_query ev))"
proof -
  obtain p' ls where run: "trace_run io ns p = Some p'" "list_all (from_call ns (opt_mask_passwords p)) ls"
    "delivered io (io_calls (files p')) = delivered io (io_calls (files p)) @ map json_line ls"
    using trace_run_grows [OF assms(2,3), of io ns] unfolding grows_def by auto
  have "\<exists>ev f. ended ns ev \<and> read_line read (json_line e) = Some f \<and>
       jf_conn_id f = fmt_u64 (general_thread_id ev) \<and> jf_user f = general_user ev @ ''@'' @ general_host ev \<and>
       jf_command f = statement_command (general_query ev) \<and> jf_error_code f = fmt_int (sint (general_error_code ev)) \<and>
       jf_query f = logged_query (opt_mask_passwords p) (general_query ev)" if "e \<in> set ls" for e
  proof -
    have "from_call ns (opt_mask_passwords p) e" using that run(2) by (simp add: list_all_iff)
    from from_call_event [OF this assms(4)] show ?thesis
      using json_string_reader.read_json_line [OF assms(1), of e] by force
  qed
  then show ?thesis using run by (intro exI [of _ p'] exI [of _ "map json_line ls"]) auto
qed

theorem file_trace_readable_witness:
  "\<exists>p' added. trace_run sample_io [(sample_call 1, 9, General_class GENERAL_STATUS (query_event ''SELECT 1'' 0))] sample_plugin = Some p' \<and>
     delivered sample_io (io_calls (files p')) = delivered sample_io (io_calls (files sample_plugin)) @ added \<and>
     (\<forall>line \<in> set added. \<exists>f. read_line json_read line = Some f \<and> jf_query f = logged_query True ''SELECT 1'')"
proof -
  let ?ns = "[(sample_call 1, 9, General_class GENERAL_STATUS (query_event ''SELECT 1'' 0))]"
  have "small_ids ?ns" by (simp add: small_ids_def query_event_def)
  moreover have "states sample_plugin \<noteq> None" "states_inv sample_plugin" "opt_mask_passwords sample_plugin"
    by (simp_all add: sample_states states_inv_def entry_of_def) (simp add: sample_plugin_def ready_plugin_eq loaded_plugin_def)
  ultimately show ?thesis
    using file_trace_readable [OF json_reader.json_string_reader_axioms, of sample_plugin ?ns sample_io]
    by (fastforce simp: ended_def query_event_def)
qed

text \<open>
  (C10) The TABLE output cannot be subverted.  Whatever sequence of callbacks runs, every statement it
  adds to the writer's queue is, for any scanner of SQL literals under the pinned \<open>sql_mode\<close>, a single
  \<open>INSERT\<close> that reports the end of a query of the sequence with that query's text, masked as the
  variable says; it is never one of the writer's own statements.
\<close>

theorem table_trace_readable:
  assumes "sql_string_lexer scan" and "states p \<noteq> None" and "states_inv p" and "small_ids ns"
  shows "\<exists>p' added. trace_run io ns p = Some p' \<and> queued (events p') = queued (events p) @ added \<and>
    (\<forall>sql \<in> set added. event_sql sql \<and> (\<exists>ev v. ended ns ev \<and> read_insert scan sql = Some v \<and>
       iv_conn_id v = fmt_u64 (general_thread_id ev) \<and> iv_user v = general_user ev @ ''@'' @ general_host ev \<and>
       iv_command v = statement_command (general_query ev) \<and> iv_error_code v = fmt_int (sint (general_error_code ev)) \<and>
       iv_query v = logged_query (opt_mask_passwords p) (general_query ev)))"
proof -
  obtain p' qs where run: "trace_run io ns p = Some p'" "list_all (from_call ns (opt_mask_passwords p)) qs"
    "queued (events p') = queued (events p) @ map insert_sql qs"
    using trace_run_grows [OF assms(2,3), of io ns] unfolding grows_def by auto
  have "\<exists>ev v. ended ns ev \<and> read_insert scan (insert_sql e) = Some v \<and>
       iv_conn_id v = fmt_u64 (general_thread_id ev) \<and> iv_user v = general_user ev @ ''@'' @ general_host ev \<and>
       iv_command v = statement_command (general_query ev) \<and> iv_error_code v = fmt_int (sint (general_error_code ev)) \<and>
       iv_query v = logged_query (opt_mask_passwords p) (general_query ev)" if "e \<in> set qs" for e
  proof -
    have "from_call ns (opt_mask_passwords p) e" using that run(2) by (simp add: list_all_iff)
    from from_call_event [OF this assms(4)] show ?thesis
      using sql_string_lexer.read_insert_sql [OF assms(1), of e] by force
  qed
  then show ?thesis using run insert_sql_event by (intro exI [of _ p'] exI [of _ "map insert_sql qs"]) auto
qed

theorem table_trace_readable_witness:
  "\<exists>p' added. trace_run sample_io [(sample_call 1, 9, General_class GENERAL_STATUS (query_event ''SELECT 1'' 0))] sample_plugin = Some p' \<and>
     queued (events p') = queued (events sample_plugin) @ added \<and> (\<forall>sql \<in> set added. event_sql sql)"
proof -
  let ?ns = "[(sample_call 1, 9, General_class GENERAL_STATUS (query_event ''SELECT 1'' 0))]"
  have "small_ids ?ns" by (simp add: small_ids_def query_event_def)
  moreover have "states sample_plugin \<noteq> None" "states_inv sample_plugin"
    by (simp_all add: sample_states states_inv_def entry_of_def)
  ultimately show ?thesis
    using table_trace_readable [OF sql_reader.sql_string_lexer_axioms, of sample_plugin ?ns sample_io] by blast
qed

text \<open>
  (C24) The writer does not trace itself.  In every interleaving of callbacks, writer thread and shutdown
  in which no callback comes after the shutdown began, while the writer runs the statements of a batch
  a callback on its thread leaves the plugin as it is, whatever the filters say: its own \<open>INSERT\<close>s are
  never queued again.
\<close>

theorem writer_statements_not_traced:
  assumes "tw_reach srv True t s" and "wpc s = Writing" and "events p = tq s" and "self_tid cb = writer_tid (tq s)"
  shows "selective_trace_notify io cb thd event p = Some p"
  using writing_thread [OF assms(1,2)] assms(3,4)
  by (intro notify_deaf) (simp add: listens_def table_writer_is_self_def)

theorem writer_statements_not_traced_witness:
  "selective_trace_notify sample_io (sample_call 1) 9 (General_class GENERAL_STATUS (query_event ''INSERT 1'' 0))
     (sample_plugin\<lparr>events := tq (scheduled True [Enqueue (Some 1) True ''A'', Take])\<rparr>) =
   Some (sample_plugin\<lparr>events := tq (scheduled True [Enqueue (Some 1) True ''A'', Take])\<rparr>)"
proof -
  let ?as = "[Enqueue (Some 1) True ''A'', Take]"
  have "run_schedule willing_server True ?as (initial_system True 5) \<noteq> None" by code_simp
  then have "tw_reach willing_server True 5 (scheduled True ?as)" by (rule scheduled_reach)
  moreover have "wpc (scheduled True ?as) = Writing \<and> writer_tid (tq (scheduled True ?as)) = 1" by code_simp
  ultimately show ?thesis
    using writer_statements_not_traced [of willing_server 5 "scheduled True ?as" _ "sample_call 1"] by (simp add: sample_call_def)
qed

text \<open>
  (C5) No credential reaches an output.  Two statements that differ only in their first credential (the
  literal, quoted or hexadecimal, behind \<open>PASSWORD\<close>, \<open>OLD_PASSWORD\<close> or \<open>IDENTIFIED ... BY | AS | USING\<close>) leave
  the plugin in the same state, with \<open>selective_trace_mask_passwords\<close> on: the file, the queue, the counters
  and the connection's state do not depend on the secret, nor on the length of it, in either output mode and
  whatever the filters are.  (The statement starts with a keyword other than \<open>USE\<close> and \<open>START\<close>, behind any
  comments.)
\<close>

theorem secret_not_in_outputs:
  assumes "opt_mask_passwords p" and "is_query_command ev" and "separator_run s" and "starts_with kw rest"
    and "credential (s @ kw @ rest) lit shown post" and "credential (s @ kw @ rest) lit' shown post"
  shows "selective_trace_notify io cb thd (General_class sub (ev\<lparr>general_query := s @ kw @ rest @ lit @ post\<rparr>)) p =
    selective_trace_notify io cb thd (General_class sub (ev\<lparr>general_query := s @ kw @ rest @ lit' @ post\<rparr>)) p"
proof -
  let ?q = "s @ kw @ rest @ lit @ post" and ?q' = "s @ kw @ rest @ lit' @ post"
  have query: "is_query_command (ev\<lparr>general_query := x\<rparr>)" for x
    using assms(2) by (simp add: is_query_command_def general_command_is_def)
  have cmd: "statement_command (s @ kw @ rest @ t) = map kw_upper kw" for t
    by (rule starts_with_command [OF assms(3,4)])
  have track: "track_current_db st (ev\<lparr>general_query := s @ kw @ rest @ t\<rparr>) = st" for t st
    by (rule starts_with_command(2) [OF assms(3,4) _ query]) simp
  have masked: "logged_query True ?q = logged_query True ?q'"
    using mask_credential [OF assms(5)] mask_credential [OF assms(6)] mask_credential_same [OF assms(5,6)]
    by (simp add: logged_query_def)
  have event: "make_event True cb (ev\<lparr>general_query := ?q\<rparr>) st = make_event True cb (ev\<lparr>general_query := ?q'\<rparr>) st" for st
    by (simp add: make_event_def cmd masked)
  have "wanted_statement cb (ev\<lparr>general_query := ?q\<rparr>) st p = wanted_statement cb (ev\<lparr>general_query := ?q'\<rparr>) st p" for st
    by (simp add: wanted_statement_def cmd)
  then show ?thesis
    by (simp add: selective_trace_notify_def notify_impl_def handle_status_event_def query track event assms(1) Let_def split_beta
        split: option.split)
qed

theorem secret_not_in_outputs_witness:
  "selective_trace_notify sample_io (sample_call 1) 9 (General_class GENERAL_STATUS
      (query_event (''ALTER USER u identified WITH p As PASSWORD '' @ ''0xAB12'' @ '';'') 0)) sample_plugin =
   selective_trace_notify sample_io (sample_call 1) 9 (General_class GENERAL_STATUS
      (query_event (''ALTER USER u identified WITH p As PASSWORD '' @ ''0xC'' @ '';'') 0)) sample_plugin"
proof -
  let ?rest = "'' USER u identified WITH p As PASSWORD ''"
  have clause: "credential ([] @ ''ALTER'' @ ?rest) ''0xAB12'' ''0x***'' '';''" "credential ([] @ ''ALTER'' @ ?rest) ''0xC'' ''0x***'' '';''"
    using sample_credential by simp_all
  have start: "starts_with ''ALTER'' ?rest" by code_simp
  have mp: "opt_mask_passwords sample_plugin" by (simp add: sample_plugin_def ready_plugin_eq loaded_plugin_def)
  have qc: "is_query_command (query_event [] 0)" by (simp add: query_event_def is_query_command_def general_command_is_def)
  have ev: "(query_event [] 0)\<lparr>general_query := x\<rparr> = query_event x 0" for x by (simp add: query_event_def)
  show ?thesis
    using secret_not_in_outputs [OF mp qc sep_end start clause, of sample_io "sample_call 1" 9 GENERAL_STATUS] by (simp add: ev)
qed

end
